(* ===== verification/Prelude.thy ===== *)
theory Prelude
  imports Main "HOL-Library.Word" "HOL-Library.Monad_Syntax"
begin

unbundle bit_operations_syntax

text \<open>
  Shared vocabulary of the development: the machine integer types of the 32-bit ARM target,
  C arrays whose accesses out of range have no defined result, the counting \<open>for\<close> loop, and
  the word and list lemmas that several components use.

  Convention: a function of the model that has type \<open>'a option\<close> returns \<open>None\<close> exactly when the
  C code has no defined result there (an index out of the array, a dereference of a null
  pointer, a division by zero in pure code, or a loop that never ends).
\<close>

type_synonym u8 = "8 word"
type_synonym u32 = "32 word"
type_synonym u64 = "64 word"

text \<open>Facts about well-formed states that the component proofs use as simplification rules.\<close>

named_theorems wf_simps

section \<open>C arrays\<close>

definition aget :: "'a list \<Rightarrow> nat \<Rightarrow> 'a option" where
  "aget xs i = (if i < length xs then Some (xs ! i) else None)"

definition aset :: "'a list \<Rightarrow> nat \<Rightarrow> 'a \<Rightarrow> 'a list option" where
  "aset xs i v = (if i < length xs then Some (xs[i := v]) else None)"

text \<open>An array indexed by a C \<open>int\<close>: a negative index is out of range.\<close>

definition agetI :: "'a list \<Rightarrow> int \<Rightarrow> 'a option" where
  "agetI xs i = (if 0 \<le> i then aget xs (nat i) else None)"

lemma aget_in [simp]: "i < length xs \<Longrightarrow> aget xs i = Some (xs ! i)"
  by (simp add: aget_def)

lemma aset_in [simp]: "i < length xs \<Longrightarrow> aset xs i v = Some (xs[i := v])"
  by (simp add: aset_def)

lemma aget_out [simp]: "length xs \<le> i \<Longrightarrow> aget xs i = None"
  by (simp add: aget_def)

lemma aset_out [simp]: "length xs \<le> i \<Longrightarrow> aset xs i v = None"
  by (simp add: aset_def)

lemma aget_SomeD: "aget xs i = Some x \<Longrightarrow> i < length xs \<and> x = xs ! i"
  by (auto simp: aget_def split: if_splits)

lemma aset_SomeD: "aset xs i v = Some ys \<Longrightarrow> i < length xs \<and> ys = xs[i := v]"
  by (auto simp: aset_def split: if_splits)

text \<open>Updating an element so that one of its fields keeps its value.\<close>

lemma update_keeps: "g v = g (xs ! j) \<Longrightarrow> g (xs[j := v] ! i) = g (xs ! i)"
  by (cases "j < length xs"; cases "i = j") (simp_all add: list_update_beyond)

lemma UN_lists_split: "(\<Union>i. set (f i)) = set (f l) \<union> (\<Union>i \<in> - {l}. set (f i))"
  by auto

lemma UN_lists_upd: "(\<Union>i. set ((f(l := xs)) i)) = set xs \<union> (\<Union>i \<in> - {l}. set (f i))"
  by (subst UN_lists_split [of "f(l := xs)" l]) simp

section \<open>The counting loop \<open>for (i = a; i < n; i++)\<close>\<close>

function for_range :: "nat \<Rightarrow> nat \<Rightarrow> (nat \<Rightarrow> 's \<Rightarrow> 's option) \<Rightarrow> 's \<Rightarrow> 's option" where
  "for_range i n body s =
     (if i < n then do { s' \<leftarrow> body i s; for_range (Suc i) n body s' } else Some s)"
  by pat_completeness auto
termination
  by (relation "measure (\<lambda>(i, n, _). n - i)") auto

declare for_range.simps [simp del]

lemma for_range_done [simp]: "n \<le> i \<Longrightarrow> for_range i n body s = Some s"
  by (subst for_range.simps) simp

lemma for_range_step:
  "i < n \<Longrightarrow> for_range i n body s = body i s \<bind> for_range (Suc i) n body"
  by (subst for_range.simps) simp

text \<open>The loop rule: an invariant indexed by the counter that every iteration carries on.\<close>

lemma for_range_inv:
  assumes "P i s" "i \<le> n"
    and "\<And>j t. i \<le> j \<Longrightarrow> j < n \<Longrightarrow> P j t \<Longrightarrow> \<exists>t'. body j t = Some t' \<and> P (Suc j) t'"
  shows "\<exists>s'. for_range i n body s = Some s' \<and> P n s'"
  using assms
proof (induction "n - i" arbitrary: i s)
  case 0
  then show ?case by simp
next
  case (Suc d)
  then have "i < n" by simp
  with Suc.prems obtain t where t: "body i s = Some t" "P (Suc i) t" by blast
  have "\<exists>s'. for_range (Suc i) n body t = Some s' \<and> P n s'"
    using Suc.hyps(1)[of "Suc i" t] Suc.hyps(2) Suc.prems(3) t(2) \<open>i < n\<close> by auto
  with t(1) \<open>i < n\<close> show ?case by (simp add: for_range_step)
qed

text \<open>A loop that assigns every element of an array which is a part of the state.\<close>

lemma for_range_fill:
  assumes body: "\<And>i ys. i < n \<Longrightarrow> length ys = n \<Longrightarrow> body i (U ys) = Some (U (ys[i := f i]))"
    and len: "length xs = n"
  shows "for_range 0 n body (U xs) = Some (U (map f [0..<n]))"
proof -
  have "\<exists>s. for_range 0 n body (U xs) = Some s \<and> s = U (map f [0..<n] @ drop n xs)"
  proof (rule for_range_inv [where P = "\<lambda>i s. s = U (map f [0..<i] @ drop i xs)"])
    fix i s
    assume i: "i < n" and s: "s = U (map f [0..<i] @ drop i xs)"
    have "(map f [0..<i] @ drop i xs)[i := f i] = map f [0..<Suc i] @ drop (Suc i) xs"
      using i len by (simp add: list_update_append Cons_nth_drop_Suc [symmetric])
    then show "\<exists>s'. body i s = Some s' \<and> s' = U (map f [0..<Suc i] @ drop (Suc i) xs)"
      using body [of i "map f [0..<i] @ drop i xs"] i len s by simp
  qed simp_all
  then show ?thesis using len by simp
qed

section \<open>Words\<close>

lemma unat_lt_of_nat_iff: "n < 2 ^ LENGTH('a::len) \<Longrightarrow> unat (of_nat n :: 'a word) = n"
  by (simp add: unat_of_nat take_bit_nat_eq_self)

lemma unat_u8_less [simp]: "unat (w :: u8) < 256"
  using unsigned_less [of w] by simp

lemma unat_u32_less [simp]: "unat (w :: u32) < 4294967296"
  using unsigned_less [of w, where 'a = nat] by simp

text \<open>The C expression \<open>1 << n\<close>.\<close>

definition shl1 :: "nat \<Rightarrow> 'a::len word" where
  "shl1 n = push_bit n 1"

lemma bit_shl1: "bit (shl1 n :: 'a::len word) m \<longleftrightarrow> m = n \<and> n < LENGTH('a)"
  by (auto simp: shl1_def bit_simps)

lemma bit_or_shl1 [simp]:
  "n < LENGTH('a) \<Longrightarrow> bit (w OR shl1 n :: 'a::len word) m \<longleftrightarrow> bit w m \<or> m = n"
  by (auto simp: bit_or_iff bit_shl1)

lemma bit_and_not_shl1 [simp]:
  "n < LENGTH('a) \<Longrightarrow> bit (w AND NOT (shl1 n) :: 'a::len word) m \<longleftrightarrow> bit w m \<and> m \<noteq> n"
  by (auto simp: bit_and_iff bit_not_iff bit_shl1 dest: bit_imp_le_length)

lemma or_shl1_nonzero [simp]: "n < LENGTH('a) \<Longrightarrow> (w OR shl1 n :: 'a::len word) \<noteq> 0"
  by (metis bit_or_shl1 bit_0_eq bot_apply bot_bool_def)

lemma word_nonzero_iff_bit:
  fixes w :: "'a::len word"
  shows "w \<noteq> 0 \<longleftrightarrow> (\<exists>n < LENGTH('a). bit w n)"
  by (auto simp: bit_eq_iff dest: bit_imp_le_length)

end
