(* ===== verification/Config.thy ===== *)
theory Config
  imports Prelude
begin

text \<open>
  The constants of the kernel headers that the modelled code uses: kernel/include/config.h,
  bits/errno.h, bits/fileno.h, bits/swi.h, device.h, stack.h, systime.h, hijackConst.h and
  arm/psr.h. Sizes and indices are \<open>nat\<close>, machine values are 32-bit words.
\<close>

definition OS_MAX_TASKS :: nat where [simp]: "OS_MAX_TASKS = 64"
definition IDLE_PRIO :: nat where [simp]: "IDLE_PRIO = 63"
definition OS_NUM_MUTEX :: nat where [simp]: "OS_NUM_MUTEX = 32"
definition NUM_DEVICES :: nat where [simp]: "NUM_DEVICES = 63"

definition USR_START_ADDR :: u32 where [simp]: "USR_START_ADDR = 0xa0000000"
definition USR_END_ADDR :: u32 where [simp]: "USR_END_ADDR = 0xa3000000"

definition EPERM :: u32 where [simp]: "EPERM = 1"
definition EBADF :: u32 where [simp]: "EBADF = 9"
definition ENOMEM :: u32 where [simp]: "ENOMEM = 12"
definition EFAULT :: u32 where [simp]: "EFAULT = 14"
definition EINVAL :: u32 where [simp]: "EINVAL = 22"
definition EDEADLOCK :: u32 where [simp]: "EDEADLOCK = 58"
definition ESCHED :: u32 where [simp]: "ESCHED = 100"

definition PSR_IRQ :: u32 where [simp]: "PSR_IRQ = 0x80"
definition PSR_FIQ :: u32 where [simp]: "PSR_FIQ = 0x40"

definition SYSTIME_PRECISION :: u32 where [simp]: "SYSTIME_PRECISION = 10"
definition FREQ_MS :: u32 where [simp]: "FREQ_MS = 3250"

end
