(* ===== verification/Run_Queue.thy ===== *)
theory Run_Queue
  imports Config
begin

text \<open>
  kernel/sched/run_queue.c: the ready queue, an array with one slot per priority and a
  two-level bitmap over it. The interface the rest of the kernel relies on is the locale
  \<open>ready_queue\<close>; the model of the code interprets it at the end of the theory.
\<close>

section \<open>The state and the operations of run_queue.c\<close>

text \<open>
  A \<open>tcb_t*\<close> is null or the address of an element of \<open>system_tcb\<close>, named by its index.
\<close>

type_synonym tcb_ptr = "nat option"

record runq =
  run_list :: "tcb_ptr list"
  run_bits :: "u8 list"
  group_run_bits :: u8

definition prio_unmap_table :: "u8 list" where
  "prio_unmap_table = [
     0, 0, 1, 0, 2, 0, 1, 0, 3, 0, 1, 0, 2, 0, 1, 0,
     4, 0, 1, 0, 2, 0, 1, 0, 3, 0, 1, 0, 2, 0, 1, 0,
     5, 0, 1, 0, 2, 0, 1, 0, 3, 0, 1, 0, 2, 0, 1, 0,
     4, 0, 1, 0, 2, 0, 1, 0, 3, 0, 1, 0, 2, 0, 1, 0,
     6, 0, 1, 0, 2, 0, 1, 0, 3, 0, 1, 0, 2, 0, 1, 0,
     4, 0, 1, 0, 2, 0, 1, 0, 3, 0, 1, 0, 2, 0, 1, 0,
     5, 0, 1, 0, 2, 0, 1, 0, 3, 0, 1, 0, 2, 0, 1, 0,
     4, 0, 1, 0, 2, 0, 1, 0, 3, 0, 1, 0, 2, 0, 1, 0,
     7, 0, 1, 0, 2, 0, 1, 0, 3, 0, 1, 0, 2, 0, 1, 0,
     4, 0, 1, 0, 2, 0, 1, 0, 3, 0, 1, 0, 2, 0, 1, 0,
     5, 0, 1, 0, 2, 0, 1, 0, 3, 0, 1, 0, 2, 0, 1, 0,
     4, 0, 1, 0, 2, 0, 1, 0, 3, 0, 1, 0, 2, 0, 1, 0,
     6, 0, 1, 0, 2, 0, 1, 0, 3, 0, 1, 0, 2, 0, 1, 0,
     4, 0, 1, 0, 2, 0, 1, 0, 3, 0, 1, 0, 2, 0, 1, 0,
     5, 0, 1, 0, 2, 0, 1, 0, 3, 0, 1, 0, 2, 0, 1, 0,
     4, 0, 1, 0, 2, 0, 1, 0, 3, 0, 1, 0, 2, 0, 1, 0]"

definition runqueue_init :: "runq \<Rightarrow> runq option" where
  "runqueue_init r0 = do {
     let r = r0\<lparr>group_run_bits := 0\<rparr>;
     r \<leftarrow> for_range 0 (OS_MAX_TASKS div 8)
       (\<lambda>i r. do { b \<leftarrow> aset (run_bits r) i 0; Some (r\<lparr>run_bits := b\<rparr>) }) r;
     for_range 0 OS_MAX_TASKS
       (\<lambda>i r. do { l \<leftarrow> aset (run_list r) i None; Some (r\<lparr>run_list := l\<rparr>) }) r
   }"

definition runqueue_add :: "tcb_ptr \<Rightarrow> u8 \<Rightarrow> runq \<Rightarrow> runq option" where
  "runqueue_add tcb prio r = do {
     let OSTCBY = drop_bit 3 prio AND 7;
     let OSTCBX = prio AND 7;
     let r = r\<lparr>group_run_bits := group_run_bits r OR shl1 (unat OSTCBY)\<rparr>;
     b \<leftarrow> aget (run_bits r) (unat OSTCBY);
     bs \<leftarrow> aset (run_bits r) (unat OSTCBY) (b OR shl1 (unat OSTCBX));
     l \<leftarrow> aset (run_list r) (unat prio) tcb;
     Some (r\<lparr>run_bits := bs, run_list := l\<rparr>)
   }"

definition runqueue_remove :: "u8 \<Rightarrow> runq \<Rightarrow> (tcb_ptr \<times> runq) option" where
  "runqueue_remove prio r = do {
     tcb \<leftarrow> aget (run_list r) (unat prio);
     l \<leftarrow> aset (run_list r) (unat prio) None;
     let OSTCBY = drop_bit 3 prio AND 7;
     let OSTCBX = prio AND 7;
     b \<leftarrow> aget (run_bits r) (unat OSTCBY);
     let b' = b AND NOT (shl1 (unat OSTCBX));
     bs \<leftarrow> aset (run_bits r) (unat OSTCBY) b';
     let g = (if b' = 0 then group_run_bits r AND NOT (shl1 (unat OSTCBY))
              else group_run_bits r);
     Some (tcb, r\<lparr>run_list := l, run_bits := bs, group_run_bits := g\<rparr>)
   }"

definition highest_prio :: "runq \<Rightarrow> u8 option" where
  "highest_prio r = do {
     y \<leftarrow> aget prio_unmap_table (unat (group_run_bits r));
     b \<leftarrow> aget (run_bits r) (unat y);
     x \<leftarrow> aget prio_unmap_table (unat b);
     Some (push_bit 3 y + x)
   }"

section \<open>The invariant of the bitmap\<close>

text \<open>
  The ready tasks by priority, and what keeps the bitmap and the array together: bit \<open>x\<close> of
  \<open>run_bits[y]\<close> is set exactly when slot \<open>8 * y + x\<close> holds a task, and group bit \<open>y\<close> exactly
  when \<open>run_bits[y]\<close> is not zero.
\<close>

definition ready :: "runq \<Rightarrow> nat \<Rightarrow> nat option" where
  "ready r p = (if p < OS_MAX_TASKS then run_list r ! p else None)"

definition rq_wf :: "runq \<Rightarrow> bool" where
  "rq_wf r \<longleftrightarrow>
     length (run_list r) = OS_MAX_TASKS \<and> length (run_bits r) = 8 \<and>
     (\<forall>y<8. \<forall>x<8. bit (run_bits r ! y) x \<longleftrightarrow> run_list r ! (8 * y + x) \<noteq> None) \<and>
     (\<forall>y<8. bit (group_run_bits r) y \<longleftrightarrow> run_bits r ! y \<noteq> 0)"

lemma rq_wf_lengths [wf_simps]:
  "rq_wf r \<Longrightarrow> length (run_list r) = 64"
  "rq_wf r \<Longrightarrow> length (run_bits r) = 8"
  by (simp_all add: rq_wf_def)

lemma rq_wf_bit:
  "rq_wf r \<Longrightarrow> y < 8 \<Longrightarrow> x < 8 \<Longrightarrow> bit (run_bits r ! y) x \<longleftrightarrow> run_list r ! (8 * y + x) \<noteq> None"
  by (simp add: rq_wf_def)

lemma rq_wf_group:
  "rq_wf r \<Longrightarrow> y < 8 \<Longrightarrow> bit (group_run_bits r) y \<longleftrightarrow> run_bits r ! y \<noteq> 0"
  by (simp add: rq_wf_def)

section \<open>The unmap table\<close>

definition lowest_set :: "u8 \<Rightarrow> nat \<Rightarrow> bool" where
  "lowest_set w n \<longleftrightarrow> n < 8 \<and> bit w n \<and> list_all (\<lambda>m. \<not> bit w m) [0..<n]"

lemma lowest_setD:
  assumes "lowest_set w n"
  shows "n < 8" "bit w n" "m < n \<Longrightarrow> \<not> bit w m"
  using assms by (auto simp: lowest_set_def list_all_iff)

fun unmap_ok :: "u8 \<Rightarrow> u8 list \<Rightarrow> bool" where
  "unmap_ok w [] = True"
| "unmap_ok w (t # ts) = ((w = 0 \<or> lowest_set w (unat t)) \<and> unmap_ok (w + 1) ts)"

lemma unmap_ok_nth:
  "unmap_ok w ts \<Longrightarrow> i < length ts \<Longrightarrow> w + of_nat i \<noteq> 0 \<Longrightarrow>
     lowest_set (w + of_nat i) (unat (ts ! i))"
proof (induction ts arbitrary: w i)
  case Nil
  then show ?case by simp
next
  case (Cons t ts)
  show ?case
  proof (cases i)
    case 0
    with Cons.prems show ?thesis by simp
  next
    case (Suc j)
    with Cons.IH[of "w + 1" j] Cons.prems show ?thesis by (simp add: add.assoc)
  qed
qed

lemma unmap_ok_table: "unmap_ok 0 prio_unmap_table"
  by (simp add: prio_unmap_table_def lowest_set_def upt_rec)

lemma length_prio_unmap_table [simp]: "length prio_unmap_table = 256"
  by (simp add: prio_unmap_table_def)

lemma prio_unmap_lowest:
  assumes "w \<noteq> 0"
  shows "lowest_set w (unat (prio_unmap_table ! unat w))"
  using unmap_ok_nth[OF unmap_ok_table, of "unat w"] assms by simp

lemma aget_unmap [simp]: "aget prio_unmap_table (unat (w :: u8)) = Some (prio_unmap_table ! unat w)"
  by simp

section \<open>Priorities as row and column\<close>

lemma unat_and_7 [simp]: "unat (p AND 7 :: u8) = unat p mod 8"
proof -
  have "p AND 7 = take_bit 3 p" by (simp add: take_bit_eq_mask mask_eq_exp_minus_1)
  then show ?thesis by (simp add: take_bit_eq_mod unat_mod)
qed

lemma unat_drop_bit_3 [simp]: "unat (drop_bit 3 p :: u8) = unat p div 8"
  by (simp add: drop_bit_eq_div unat_div)

lemma row_mod [simp]: "n < 64 \<Longrightarrow> n div 8 mod 8 = n div (8::nat)"
  by simp

lemma row_column_eq: "x < 8 \<Longrightarrow> 8 * y + x = p \<longleftrightarrow> y = p div 8 \<and> x = p mod (8::nat)"
  by auto

section \<open>The operations keep the invariant and implement a priority map\<close>

text \<open>
  The interface of a ready queue with one task per priority: what its clients (the dispatcher,
  the mutexes, the devices and task creation) may rely on. Smaller numbers are higher
  priorities.
\<close>

locale ready_queue =
  fixes lookup :: "'q \<Rightarrow> nat \<Rightarrow> 't option"
    and bound :: nat
    and wf :: "'q \<Rightarrow> bool"
    and add :: "'t \<Rightarrow> nat \<Rightarrow> 'q \<Rightarrow> 'q option"
    and remove :: "nat \<Rightarrow> 'q \<Rightarrow> ('t option \<times> 'q) option"
    and top :: "'q \<Rightarrow> nat option"
  assumes lookup_bound: "lookup q p \<noteq> None \<Longrightarrow> p < bound"
    and add_law: "wf q \<Longrightarrow> p < bound \<Longrightarrow>
      \<exists>q'. add t p q = Some q' \<and> wf q' \<and> lookup q' = (lookup q)(p \<mapsto> t)"
    and remove_law: "wf q \<Longrightarrow> p < bound \<Longrightarrow>
      \<exists>q'. remove p q = Some (lookup q p, q') \<and> wf q' \<and> lookup q' = (lookup q)(p := None)"
    and top_law: "wf q \<Longrightarrow> lookup q p \<noteq> None \<Longrightarrow>
      \<exists>h. top q = Some h \<and> lookup q h \<noteq> None \<and> h \<le> p"
begin

lemma add_SomeD:
  "wf q \<Longrightarrow> p < bound \<Longrightarrow> add t p q = Some q' \<Longrightarrow> wf q' \<and> lookup q' = (lookup q)(p \<mapsto> t)"
  using add_law [of q p t] by auto

lemma remove_SomeD:
  "wf q \<Longrightarrow> p < bound \<Longrightarrow> remove p q = Some (u, q') \<Longrightarrow>
     u = lookup q p \<and> wf q' \<and> lookup q' = (lookup q)(p := None)"
  using remove_law [of q p] by auto

lemma top_le: "wf q \<Longrightarrow> lookup q p \<noteq> None \<Longrightarrow> top q = Some h \<Longrightarrow> h \<le> p \<and> lookup q h \<noteq> None"
  using top_law by fastforce

lemma finite_dom: "finite (dom (lookup q))"
  by (rule finite_subset [of _ "{..<bound}"]) (auto intro: lookup_bound [of q])

lemma top_Min:
  assumes "wf q" "dom (lookup q) \<noteq> {}"
  shows "top q = Some (Min (dom (lookup q)))"
proof -
  from assms(2) obtain p where "lookup q p \<noteq> None" by fast
  with assms(1) obtain h where h: "top q = Some h" using top_law by blast
  have "h \<in> dom (lookup q)" using top_le [OF assms(1) \<open>lookup q p \<noteq> None\<close> h] by auto
  moreover have "\<And>n. n \<in> dom (lookup q) \<Longrightarrow> h \<le> n" using top_le [OF assms(1) _ h] by auto
  ultimately show ?thesis using h finite_dom by (metis Min_eqI)
qed

text \<open>Making a task ready can only raise the top priority, and exactly to the task's own.\<close>

lemma top_add:
  assumes "wf q" "p < bound" "dom (lookup q) \<noteq> {}" "add t p q = Some q'" "top q = Some h"
  shows "top q' = Some (min p h)"
proof -
  from add_SomeD [OF assms(1,2,4)] have q': "wf q'" "lookup q' = (lookup q)(p \<mapsto> t)" by auto
  then have d: "dom (lookup q') = insert p (dom (lookup q))" by simp
  have "h = Min (dom (lookup q))" using top_Min [OF assms(1,3)] assms(5) by simp
  moreover have "top q' = Some (Min (insert p (dom (lookup q))))"
    using top_Min [OF q'(1)] d by simp
  ultimately show ?thesis using finite_dom assms(3) by simp
qed

text \<open>Removing a task below the top leaves the top alone.\<close>

lemma top_remove_below:
  assumes "wf q" "p < bound" "remove p q = Some (u, q')" "top q = Some h" "lookup q h \<noteq> None" "p \<noteq> h"
  shows "top q' = Some h"
proof -
  from remove_SomeD [OF assms(1-3)] have q': "wf q'" "lookup q' = (lookup q)(p := None)" by auto
  with assms(5,6) have h': "lookup q' h \<noteq> None" by simp
  with q'(1) obtain h2 where h2: "top q' = Some h2" using top_law by blast
  from top_le [OF q'(1) h' h2] have "h2 \<le> h" "lookup q' h2 \<noteq> None" by auto
  then have "lookup q h2 \<noteq> None" using q'(2) by (simp split: if_splits)
  from top_le [OF assms(1) this assms(4)] \<open>h2 \<le> h\<close> h2 show ?thesis by simp
qed

lemma remove_after_add:
  assumes "wf q" "p < bound" "add t p q = Some q1" "remove p q1 = Some (u, q2)"
  shows "u = Some t \<and> wf q2 \<and> lookup q2 = (lookup q)(p := None)"
proof -
  from add_SomeD [OF assms(1-3)] have "wf q1" "lookup q1 = (lookup q)(p \<mapsto> t)" by auto
  with remove_SomeD [OF _ assms(2,4)] show ?thesis by auto
qed

end

lemma runqueue_add_eq:
  assumes "rq_wf r" "unat prio < 64"
  shows "runqueue_add tcb prio r = Some (r\<lparr>
    group_run_bits := group_run_bits r OR shl1 (unat prio div 8),
    run_bits := (run_bits r)[unat prio div 8 := run_bits r ! (unat prio div 8) OR shl1 (unat prio mod 8)],
    run_list := (run_list r)[unat prio := tcb]\<rparr>)"
  using assms by (simp add: runqueue_add_def rq_wf_lengths)

lemma runqueue_add_wf:
  assumes wf: "rq_wf r" and p: "unat prio < 64"
  shows "\<exists>r'. runqueue_add (Some t) prio r = Some r' \<and> rq_wf r' \<and>
    ready r' = (ready r)(unat prio \<mapsto> t)"
proof -
  let ?y = "unat prio div 8" and ?x = "unat prio mod 8"
  let ?r = "r\<lparr>group_run_bits := group_run_bits r OR shl1 ?y,
    run_bits := (run_bits r)[?y := run_bits r ! ?y OR shl1 ?x],
    run_list := (run_list r)[unat prio := Some t]\<rparr>"
  have y: "?y < 8" using p by simp
  have "ready ?r = (ready r)(unat prio \<mapsto> t)"
    using p wf by (auto simp: ready_def fun_eq_iff nth_list_update rq_wf_lengths)
  moreover have "rq_wf ?r"
    using wf p y by (auto simp: rq_wf_def nth_list_update row_column_eq)
  ultimately show ?thesis by (simp add: runqueue_add_eq [OF wf p])
qed

lemma runqueue_remove_eq:
  assumes "rq_wf r" "unat prio < 64"
  shows "runqueue_remove prio r = Some (run_list r ! unat prio, r\<lparr>
    run_list := (run_list r)[unat prio := None],
    run_bits := (run_bits r)[unat prio div 8 := run_bits r ! (unat prio div 8) AND NOT (shl1 (unat prio mod 8))],
    group_run_bits := (if run_bits r ! (unat prio div 8) AND NOT (shl1 (unat prio mod 8)) = 0
      then group_run_bits r AND NOT (shl1 (unat prio div 8)) else group_run_bits r)\<rparr>)"
  using assms by (simp add: runqueue_remove_def Let_def rq_wf_lengths)

lemma runqueue_remove_wf:
  assumes wf: "rq_wf r" and p: "unat prio < 64"
  shows "\<exists>r'. runqueue_remove prio r = Some (ready r (unat prio), r') \<and> rq_wf r' \<and>
    ready r' = (ready r)(unat prio := None)"
proof -
  let ?y = "unat prio div 8" and ?x = "unat prio mod 8"
  let ?b = "run_bits r ! ?y AND NOT (shl1 ?x)"
  let ?r = "r\<lparr>run_list := (run_list r)[unat prio := None],
    run_bits := (run_bits r)[?y := ?b],
    group_run_bits := (if ?b = 0 then group_run_bits r AND NOT (shl1 ?y) else group_run_bits r)\<rparr>"
  have y: "?y < 8" using p by simp
  have sub: "?b \<noteq> 0 \<Longrightarrow> run_bits r ! ?y \<noteq> 0" by auto
  have "ready ?r = (ready r)(unat prio := None)"
    using p wf by (auto simp: ready_def fun_eq_iff nth_list_update rq_wf_lengths)
  moreover have "rq_wf ?r"
    using wf p y sub by (auto simp: rq_wf_def nth_list_update row_column_eq)
  ultimately show ?thesis
    using p by (simp add: runqueue_remove_eq [OF wf p] ready_def)
qed

lemma highest_prio_wf:
  assumes wf: "rq_wf r" and p: "ready r p \<noteq> None"
  shows "\<exists>h. highest_prio r = Some h \<and> ready r (unat h) \<noteq> None \<and> unat h \<le> p"
proof -
  from p have p64: "p < 64" and lp: "run_list r ! p \<noteq> None"
    by (auto simp: ready_def split: if_splits)
  have bit_p: "bit (run_bits r ! (p div 8)) (p mod 8)"
    using rq_wf_bit [OF wf, of "p div 8" "p mod 8"] lp p64 by simp
  then have nzp: "run_bits r ! (p div 8) \<noteq> 0" by auto
  with p64 have gp: "bit (group_run_bits r) (p div 8)"
    using rq_wf_group [OF wf, of "p div 8"] by simp
  then have "group_run_bits r \<noteq> 0" by auto
  define y where "y = unat (prio_unmap_table ! unat (group_run_bits r))"
  have ly: "lowest_set (group_run_bits r) y"
    unfolding y_def by (rule prio_unmap_lowest) fact
  have y8: "y < 8" and gy: "bit (group_run_bits r) y"
    using lowest_setD [OF ly] by auto
  have yp: "y \<le> p div 8" using lowest_setD(3) [OF ly] gp by (meson not_le)
  have "run_bits r ! y \<noteq> 0" using rq_wf_group [OF wf y8] gy by simp
  define x where "x = unat (prio_unmap_table ! unat (run_bits r ! y))"
  have lx: "lowest_set (run_bits r ! y) x"
    unfolding x_def by (rule prio_unmap_lowest) fact
  have x8: "x < 8" and bx: "bit (run_bits r ! y) x"
    using lowest_setD [OF lx] by auto
  have ry: "run_list r ! (8 * y + x) \<noteq> None" using rq_wf_bit [OF wf y8 x8] bx by simp
  have le: "8 * y + x \<le> p"
  proof (cases "y = p div 8")
    case True
    then have "x \<le> p mod 8" using lowest_setD(3) [OF lx] bit_p by (meson not_le)
    with True show ?thesis by (metis add_le_cancel_left mult_div_mod_eq)
  next
    case False
    with yp have "y < p div 8" by simp
    with x8 show ?thesis by linarith
  qed
  let ?h = "push_bit 3 (prio_unmap_table ! unat (group_run_bits r)) + prio_unmap_table ! unat (run_bits r ! y)"
  have h: "unat ?h = 8 * y + x"
    using x8 y8 unfolding x_def y_def
    by (simp add: push_bit_eq_mult unat_word_ariths)
  have "highest_prio r = Some ?h"
    using y8 wf by (simp add: highest_prio_def y_def [symmetric] rq_wf_lengths)
  with h ry le y8 x8 p64 show ?thesis by (auto simp: ready_def)
qed

interpretation rq: ready_queue ready OS_MAX_TASKS rq_wf
  "\<lambda>t p. runqueue_add (Some t) (of_nat p)" "\<lambda>p. runqueue_remove (of_nat p)"
  "\<lambda>r. map_option unat (highest_prio r)"
proof unfold_locales
  fix r p
  show "ready r p \<noteq> None \<Longrightarrow> p < OS_MAX_TASKS"
    by (auto simp: ready_def split: if_splits)
  show "rq_wf r \<Longrightarrow> p < OS_MAX_TASKS \<Longrightarrow> \<exists>r'. runqueue_add (Some t) (of_nat p) r = Some r' \<and>
      rq_wf r' \<and> ready r' = (ready r)(p \<mapsto> t)" for t
    using runqueue_add_wf [of r "of_nat p" t] by (simp add: unat_lt_of_nat_iff)
  show "rq_wf r \<Longrightarrow> p < OS_MAX_TASKS \<Longrightarrow> \<exists>r'. runqueue_remove (of_nat p) r = Some (ready r p, r') \<and>
      rq_wf r' \<and> ready r' = (ready r)(p := None)"
    using runqueue_remove_wf [of r "of_nat p"] by (simp add: unat_lt_of_nat_iff)
  show "rq_wf r \<Longrightarrow> ready r p \<noteq> None \<Longrightarrow>
      \<exists>h. map_option unat (highest_prio r) = Some h \<and> ready r h \<noteq> None \<and> h \<le> p"
    using highest_prio_wf [of r p] by auto
qed

section \<open>Initialisation\<close>

definition empty_runq :: runq where
  "empty_runq = \<lparr>run_list = replicate OS_MAX_TASKS None, run_bits = replicate 8 0, group_run_bits = 0\<rparr>"

lemma rq_wf_empty: "rq_wf empty_runq"
  by (simp add: rq_wf_def empty_runq_def)

lemma ready_empty: "ready empty_runq = Map.empty"
  by (simp add: ready_def empty_runq_def fun_eq_iff)

lemma runqueue_init_eq:
  assumes "length (run_list r) = 64" "length (run_bits r) = 8"
  shows "runqueue_init r = Some empty_runq"
proof -
  let ?r1 = "r\<lparr>group_run_bits := 0\<rparr>" and ?r2 = "r\<lparr>group_run_bits := 0, run_bits := replicate 8 0\<rparr>"
  have 1: "for_range 0 8 (\<lambda>i r. do { b \<leftarrow> aset (run_bits r) i 0; Some (r\<lparr>run_bits := b\<rparr>) }) ?r1 = Some ?r2"
  proof -
    have "\<exists>s. for_range 0 8 (\<lambda>i r. do { b \<leftarrow> aset (run_bits r) i 0; Some (r\<lparr>run_bits := b\<rparr>) }) ?r1 = Some s
        \<and> s = ?r1\<lparr>run_bits := replicate 8 0 @ drop 8 (run_bits r)\<rparr>"
      by (rule for_range_inv [where P = "\<lambda>i s. s = ?r1\<lparr>run_bits := replicate i 0 @ drop i (run_bits r)\<rparr>"])
        (use assms in \<open>auto simp: replicate_append_same list_update_append Cons_nth_drop_Suc [symmetric]\<close>)
    then show ?thesis using assms by simp
  qed
  have 2: "for_range 0 64 (\<lambda>i r. do { l \<leftarrow> aset (run_list r) i None; Some (r\<lparr>run_list := l\<rparr>) }) ?r2 = Some empty_runq"
  proof -
    have "\<exists>s. for_range 0 64 (\<lambda>i r. do { l \<leftarrow> aset (run_list r) i None; Some (r\<lparr>run_list := l\<rparr>) }) ?r2 = Some s
        \<and> s = ?r2\<lparr>run_list := replicate 64 None @ drop 64 (run_list r)\<rparr>"
      by (rule for_range_inv [where P = "\<lambda>i s. s = ?r2\<lparr>run_list := replicate i None @ drop i (run_list r)\<rparr>"])
        (use assms in \<open>auto simp: replicate_append_same list_update_append Cons_nth_drop_Suc [symmetric]\<close>)
    then show ?thesis using assms by (simp add: empty_runq_def)
  qed
  show ?thesis by (simp add: runqueue_init_def 1 2)
qed

lemma highest_prio_empty:
  assumes "rq_wf r" "ready r = Map.empty"
  shows "highest_prio r = Some 0"
proof -
  have z: "run_bits r ! y = 0" if "y < 8" for y
  proof (rule ccontr)
    assume "run_bits r ! y \<noteq> 0"
    then obtain x where "x < 8" "bit (run_bits r ! y) x"
      by (auto simp: word_nonzero_iff_bit)
    then have "run_list r ! (8 * y + x) \<noteq> None" "8 * y + x < 64"
      using rq_wf_bit [OF assms(1) that] that by auto
    then show False using fun_cong [OF assms(2), of "8 * y + x"] by (simp add: ready_def)
  qed
  have "group_run_bits r = 0"
    using rq_wf_group [OF assms(1)] z word_nonzero_iff_bit [of "group_run_bits r"] by auto
  with z [of 0] assms(1) show ?thesis
    by (simp add: highest_prio_def rq_wf_lengths prio_unmap_table_def)
qed

end
