(* ===== verification/Kernel.thy ===== *)
theory Kernel
  imports Run_Queue
begin

text \<open>
  The kernel's data (kernel/include/task.h, lock.h, kernel/device.c, kernel/global.c) as one
  record, the pointer-to-pointer the sleep lists are walked with, the interrupt mask
  (kernel/include/arm/exception.h), and the dispatcher of kernel/sched/ctx_switch.c with the
  register transfer of kernel/sched/ctx_switch_asm.S.
\<close>

section \<open>Data\<close>

record sched_context =
  r4 :: u32
  r5 :: u32
  r6 :: u32
  r7 :: u32
  r8 :: u32
  r9 :: u32
  r10 :: u32
  r11 :: u32
  ctx_sp :: u32
  ctx_lr :: u32

text \<open>
  The kernel stack that the C structure embeds is not part of the model: what a task does when
  it is switched to again is modelled where the system's steps are (theory \<open>System\<close>).
\<close>

record tcb =
  native_prio :: u8
  cur_prio :: u8
  tcb_context :: sched_context
  holds_lock :: u32
  sleep_queue :: tcb_ptr

record mutex =
  bAvailable :: bool
  pHolding_Tcb :: tcb_ptr
  bLock :: bool
  pSleep_queue :: tcb_ptr

record dev =
  dev_sleep_queue :: tcb_ptr
  next_match :: u32

record kernel =
  kq :: runq
  system_tcb :: "tcb list"
  cur_tcb :: tcb_ptr
  gtMutex :: "mutex list"
  devices :: "dev list"
  system_time :: u32
  cpsr :: u32
  regs :: sched_context

text \<open>The cleared BSS segment the kernel starts from: every static is zero.\<close>

definition zero_context :: sched_context where
  "zero_context = \<lparr>r4 = 0, r5 = 0, r6 = 0, r7 = 0, r8 = 0, r9 = 0, r10 = 0, r11 = 0,
     ctx_sp = 0, ctx_lr = 0\<rparr>"

definition zero_tcb :: tcb where
  "zero_tcb = \<lparr>native_prio = 0, cur_prio = 0, tcb_context = zero_context, holds_lock = 0,
     sleep_queue = None\<rparr>"

definition zero_mutex :: mutex where
  "zero_mutex = \<lparr>bAvailable = False, pHolding_Tcb = None, bLock = False, pSleep_queue = None\<rparr>"

definition zero_dev :: dev where
  "zero_dev = \<lparr>dev_sleep_queue = None, next_match = 0\<rparr>"

definition bss_kernel :: kernel where
  "bss_kernel = \<lparr>kq = empty_runq, system_tcb = replicate OS_MAX_TASKS zero_tcb, cur_tcb = None,
     gtMutex = replicate OS_NUM_MUTEX zero_mutex, devices = replicate NUM_DEVICES zero_dev,
     system_time = 0, cpsr = 0, regs = zero_context\<rparr>"

section \<open>Interrupt mask\<close>

definition enable_interrupts :: "kernel \<Rightarrow> kernel" where
  "enable_interrupts k = k\<lparr>cpsr := cpsr k AND NOT (PSR_IRQ OR PSR_FIQ)\<rparr>"

definition disable_interrupts :: "kernel \<Rightarrow> kernel" where
  "disable_interrupts k = k\<lparr>cpsr := cpsr k OR (PSR_IRQ OR PSR_FIQ)\<rparr>"

section \<open>The places a \<open>tcb_t**\<close> can point at\<close>

text \<open>
  The sleep lists are walked with a variable of type \<open>tcb_t**\<close>. It holds the address of the
  head pointer of a mutex or a device, or of the link field of a TCB.
\<close>

datatype lval = Tcb_link nat | Mutex_head nat | Dev_head nat

fun load :: "lval \<Rightarrow> kernel \<Rightarrow> tcb_ptr option" where
  "load (Tcb_link i) k = map_option sleep_queue (aget (system_tcb k) i)"
| "load (Mutex_head m) k = map_option pSleep_queue (aget (gtMutex k) m)"
| "load (Dev_head d) k = map_option dev_sleep_queue (aget (devices k) d)"

fun store :: "lval \<Rightarrow> tcb_ptr \<Rightarrow> kernel \<Rightarrow> kernel option" where
  "store (Tcb_link i) v k = do {
     t \<leftarrow> aget (system_tcb k) i;
     ts \<leftarrow> aset (system_tcb k) i (t\<lparr>sleep_queue := v\<rparr>);
     Some (k\<lparr>system_tcb := ts\<rparr>) }"
| "store (Mutex_head m) v k = do {
     x \<leftarrow> aget (gtMutex k) m;
     xs \<leftarrow> aset (gtMutex k) m (x\<lparr>pSleep_queue := v\<rparr>);
     Some (k\<lparr>gtMutex := xs\<rparr>) }"
| "store (Dev_head d) v k = do {
     x \<leftarrow> aget (devices k) d;
     xs \<leftarrow> aset (devices k) d (x\<lparr>dev_sleep_queue := v\<rparr>);
     Some (k\<lparr>devices := xs\<rparr>) }"

section \<open>The dispatcher\<close>

text \<open>
  \<open>ctx_switch_full next cur\<close> stores the registers into the context of \<open>cur\<close> and then loads
  them from the context of \<open>next\<close>; \<open>ctx_switch_half\<close> only loads.
\<close>

definition ctx_switch_full :: "nat \<Rightarrow> nat \<Rightarrow> kernel \<Rightarrow> kernel option" where
  "ctx_switch_full next cur k = do {
     c \<leftarrow> aget (system_tcb k) cur;
     ts \<leftarrow> aset (system_tcb k) cur (c\<lparr>tcb_context := regs k\<rparr>);
     n \<leftarrow> aget ts next;
     Some (k\<lparr>system_tcb := ts, regs := tcb_context n\<rparr>)
   }"

definition ctx_switch_half :: "nat \<Rightarrow> kernel \<Rightarrow> kernel option" where
  "ctx_switch_half next k = do {
     n \<leftarrow> aget (system_tcb k) next;
     Some (k\<lparr>regs := tcb_context n\<rparr>)
   }"

definition dispatch_init :: "nat \<Rightarrow> kernel \<Rightarrow> kernel" where
  "dispatch_init idle k = k\<lparr>cur_tcb := Some idle\<rparr>"

definition dispatch_save :: "kernel \<Rightarrow> kernel option" where
  "dispatch_save k = do {
     temp_tcb \<leftarrow> cur_tcb k;
     h \<leftarrow> highest_prio (kq k);
     let highest_tcb = unat h;
     ctx_switch_full highest_tcb temp_tcb (k\<lparr>cur_tcb := Some highest_tcb\<rparr>)
   }"

definition dispatch_nosave :: "kernel \<Rightarrow> kernel option" where
  "dispatch_nosave k = do {
     h \<leftarrow> highest_prio (kq k);
     let highest_tcb = unat h;
     ctx_switch_half highest_tcb (k\<lparr>cur_tcb := Some highest_tcb\<rparr>)
   }"

definition dispatch_sleep :: "kernel \<Rightarrow> kernel option" where
  "dispatch_sleep k = do {
     temp_tcb \<leftarrow> cur_tcb k;
     h \<leftarrow> highest_prio (kq k);
     let highest_tcb = unat h;
     ctx_switch_full highest_tcb temp_tcb (k\<lparr>cur_tcb := Some highest_tcb\<rparr>)
   }"

definition get_cur_prio :: "kernel \<Rightarrow> u8 option" where
  "get_cur_prio k = do {
     c \<leftarrow> cur_tcb k;
     t \<leftarrow> aget (system_tcb k) c;
     Some (native_prio t)
   }"

definition get_cur_tcb :: "kernel \<Rightarrow> tcb_ptr" where
  "get_cur_tcb k = cur_tcb k"

text \<open>\<open>runqueue_add\<close> and \<open>runqueue_remove(get_cur_prio())\<close> on the kernel's run queue.\<close>

definition k_runqueue_add :: "tcb_ptr \<Rightarrow> u8 \<Rightarrow> kernel \<Rightarrow> kernel option" where
  "k_runqueue_add t prio k = do { q \<leftarrow> runqueue_add t prio (kq k); Some (k\<lparr>kq := q\<rparr>) }"

definition runqueue_remove_cur :: "kernel \<Rightarrow> (tcb_ptr \<times> kernel) option" where
  "runqueue_remove_cur k = do {
     prio \<leftarrow> get_cur_prio k;
     (t, q) \<leftarrow> runqueue_remove prio (kq k);
     Some (t, k\<lparr>kq := q\<rparr>)
   }"

text \<open>
  What a system call or interrupt handler does to its caller: it returns a value, or the
  processor has been switched to another task and the rest of the handler runs when the
  caller is switched to again, or it never returns (a divide-by-zero trap or a panic loop), or
  it spins with interrupts enabled until the system time reaches a target.
\<close>

datatype outcome = Return u32 | Switched | Hang | Spin u32

end
