(* ===== verification/Sleep_List.thy ===== *)
theory Sleep_List
  imports Kernel
begin

text \<open>
  The sleep lists: singly linked lists of TCBs threaded through their \<open>sleep_queue\<close> fields,
  with a head pointer in each mutex and each device. The walk that appends the current task
  (the same loop in kernel/lock/mutex.c and kernel/device.c) and the removal of the first
  task are modelled on the pointer cells and related to lists of task numbers.
\<close>

section \<open>The operations\<close>

text \<open>
  The loop of \<open>dev_wait\<close> and \<open>mutex_lock_syscall\<close>; \<open>head\<close> is the head cell, \<open>tmp\<close> the walking
  \<open>tcb_t**\<close>. A walk of a cyclic list never ends.
\<close>

partial_function (option) sleep_enqueue :: "lval \<Rightarrow> lval \<Rightarrow> kernel \<Rightarrow> kernel option" where
  "sleep_enqueue head tmp k =
     (load tmp k \<bind> (\<lambda>p. case p of
        None \<Rightarrow> do { (t, k) \<leftarrow> runqueue_remove_cur k; store head t k }
      | Some i \<Rightarrow> load (Tcb_link i) k \<bind> (\<lambda>q. case q of
          None \<Rightarrow> do {
            (t, k) \<leftarrow> runqueue_remove_cur k;
            k \<leftarrow> store (Tcb_link i) t k;
            n \<leftarrow> t;
            store (Tcb_link n) None k }
        | Some _ \<Rightarrow> sleep_enqueue head (Tcb_link i) k)))"

text \<open>
  Taking the first TCB off a list that is not empty: the head moves to its link, and the
  link is cleared.
\<close>

definition sleep_dequeue :: "lval \<Rightarrow> nat \<Rightarrow> kernel \<Rightarrow> kernel option" where
  "sleep_dequeue head t k = do {
     n \<leftarrow> load (Tcb_link t) k;
     k \<leftarrow> store head n k;
     store (Tcb_link t) None k
   }"

section \<open>The pointer cells as a function\<close>

definition sized :: "kernel \<Rightarrow> bool" where
  "sized k \<longleftrightarrow> length (system_tcb k) = OS_MAX_TASKS \<and> length (gtMutex k) = OS_NUM_MUTEX \<and>
     length (devices k) = NUM_DEVICES"

lemma sizedD [wf_simps]:
  "sized k \<Longrightarrow> length (system_tcb k) = 64"
  "sized k \<Longrightarrow> length (gtMutex k) = 32"
  "sized k \<Longrightarrow> length (devices k) = 63"
  by (simp_all add: sized_def)

fun valid_lval :: "lval \<Rightarrow> bool" where
  "valid_lval (Tcb_link i) \<longleftrightarrow> i < OS_MAX_TASKS"
| "valid_lval (Mutex_head m) \<longleftrightarrow> m < OS_NUM_MUTEX"
| "valid_lval (Dev_head d) \<longleftrightarrow> d < NUM_DEVICES"

fun ptr :: "kernel \<Rightarrow> lval \<Rightarrow> tcb_ptr" where
  "ptr k (Tcb_link i) = sleep_queue (system_tcb k ! i)"
| "ptr k (Mutex_head m) = pSleep_queue (gtMutex k ! m)"
| "ptr k (Dev_head d) = dev_sleep_queue (devices k ! d)"

fun put :: "lval \<Rightarrow> tcb_ptr \<Rightarrow> kernel \<Rightarrow> kernel" where
  "put (Tcb_link i) v k =
     k\<lparr>system_tcb := (system_tcb k)[i := (system_tcb k ! i)\<lparr>sleep_queue := v\<rparr>]\<rparr>"
| "put (Mutex_head m) v k =
     k\<lparr>gtMutex := (gtMutex k)[m := (gtMutex k ! m)\<lparr>pSleep_queue := v\<rparr>]\<rparr>"
| "put (Dev_head d) v k =
     k\<lparr>devices := (devices k)[d := (devices k ! d)\<lparr>dev_sleep_queue := v\<rparr>]\<rparr>"

lemma load_ptr [wf_simps]: "sized k \<Longrightarrow> valid_lval l \<Longrightarrow> load l k = Some (ptr k l)"
  by (cases l) (simp_all add: sized_def)

lemma store_put [wf_simps]: "sized k \<Longrightarrow> valid_lval l \<Longrightarrow> store l v k = Some (put l v k)"
  by (cases l) (simp_all add: sized_def)

lemma ptr_put [wf_simps]: "sized k \<Longrightarrow> valid_lval l \<Longrightarrow> ptr (put l v k) = (ptr k)(l := v)"
proof
  fix l'
  assume "sized k" "valid_lval l"
  then show "ptr (put l v k) l' = ((ptr k)(l := v)) l'"
    by (cases l; cases l') (auto simp: sized_def nth_list_update)
qed

lemma sized_put [simp]: "sized (put l v k) = sized k"
  by (cases l) (simp_all add: sized_def)

text \<open>What a pointer write leaves alone.\<close>

lemma put_frame [simp]:
  "kq (put l v k) = kq k" "cur_tcb (put l v k) = cur_tcb k" "system_time (put l v k) = system_time k"
  "cpsr (put l v k) = cpsr k" "regs (put l v k) = regs k"
  by (cases l; simp)+

lemma put_tcb_frame [simp]:
  "native_prio (system_tcb (put l v k) ! i) = native_prio (system_tcb k ! i)"
  "tcb_context (system_tcb (put l v k) ! i) = tcb_context (system_tcb k ! i)"
  by (cases l; simp; rule update_keeps; simp)+

lemma put_mutex_frame [simp]:
  "bAvailable (gtMutex (put l v k) ! m) = bAvailable (gtMutex k ! m)"
  "bLock (gtMutex (put l v k) ! m) = bLock (gtMutex k ! m)"
  "pHolding_Tcb (gtMutex (put l v k) ! m) = pHolding_Tcb (gtMutex k ! m)"
  by (cases l; simp; rule update_keeps; simp)+

lemma put_dev_frame [simp]:
  "next_match (devices (put l v k) ! d) = next_match (devices k ! d)"
  by (cases l; simp; rule update_keeps; simp)

section \<open>Chains of cells\<close>

text \<open>\<open>chain h l xs\<close>: from cell \<open>l\<close> the links lead through the TCBs \<open>xs\<close> to a null pointer.\<close>

primrec chain :: "(lval \<Rightarrow> tcb_ptr) \<Rightarrow> lval \<Rightarrow> nat list \<Rightarrow> bool" where
  "chain h l [] \<longleftrightarrow> h l = None"
| "chain h l (t # ts) \<longleftrightarrow> h l = Some t \<and> chain h (Tcb_link t) ts"

text \<open>The cell that the last pointer of a chain is stored in.\<close>

fun end_cell :: "lval \<Rightarrow> nat list \<Rightarrow> lval" where
  "end_cell l [] = l"
| "end_cell l (t # ts) = end_cell (Tcb_link t) ts"

lemma end_cell_snoc [simp]: "end_cell l (ts @ [t]) = Tcb_link t"
  by (induction ts arbitrary: l) auto

lemma end_cell_nonempty: "ts \<noteq> [] \<Longrightarrow> end_cell l ts = Tcb_link (last ts)"
  by (induction ts arbitrary: l) auto

lemma chain_frame:
  "l \<noteq> c \<Longrightarrow> c \<notin> Tcb_link ` set ts \<Longrightarrow> chain (h(c := v)) l ts = chain h l ts"
  by (induction ts arbitrary: l) auto

lemma chain_unique: "chain h l xs \<Longrightarrow> chain h l ys \<Longrightarrow> xs = ys"
proof (induction xs arbitrary: l ys)
  case Nil
  then show ?case by (cases ys) auto
next
  case (Cons x xs)
  then show ?case by (cases ys) auto
qed

lemma chain_suffix: "chain h l (xs @ ys) \<Longrightarrow> chain h (end_cell l xs) ys"
  by (induction xs arbitrary: l) auto

text \<open>A chain that ends in a null pointer visits no TCB twice.\<close>

lemma chain_distinct: "chain h l xs \<Longrightarrow> distinct xs"
proof (rule ccontr)
  assume c: "chain h l xs" and "\<not> distinct xs"
  then obtain as bs cs y where xs: "xs = as @ [y] @ bs @ [y] @ cs"
    using not_distinct_decomp by blast
  have "chain h (Tcb_link y) (bs @ [y] @ cs)"
    using chain_suffix [of h l "as @ [y]"] c xs by simp
  moreover have "chain h (end_cell l ((as @ y # bs) @ [y])) cs"
    by (rule chain_suffix) (use c xs in simp)
  then have "chain h (Tcb_link y) cs" by (simp only: end_cell_snoc)
  ultimately show False using chain_unique by fastforce
qed

lemma chain_snoc:
  assumes "chain h l xs" "h (Tcb_link t) = None" "t \<notin> set xs" "l \<noteq> Tcb_link t"
    "l \<notin> Tcb_link ` set xs"
  shows "chain (h(end_cell l xs := Some t)) l (xs @ [t])"
  using assms
proof (induction xs arbitrary: l)
  case Nil
  then show ?case by simp
next
  case (Cons x xs)
  have d: "x \<notin> set xs" using chain_distinct [OF Cons.prems(1)] by simp
  have "chain (h(end_cell (Tcb_link x) xs := Some t)) (Tcb_link x) (xs @ [t])"
    using Cons.prems d by (intro Cons.IH) auto
  moreover have "end_cell (Tcb_link x) xs \<noteq> l"
    using Cons.prems(5) by (cases xs rule: rev_cases) auto
  ultimately show ?case using Cons.prems by (simp del: fun_upd_apply) (simp add: fun_upd_other)
qed

section \<open>What the walk does\<close>

lemma sized_kq [simp]: "sized (k\<lparr>kq := q\<rparr>) = sized k"
  by (simp add: sized_def)

lemma ptr_other_fields [simp]:
  "ptr (k\<lparr>kq := q\<rparr>) = ptr k" "ptr (k\<lparr>cur_tcb := c\<rparr>) = ptr k" "ptr (k\<lparr>system_time := n\<rparr>) = ptr k"
  "ptr (k\<lparr>cpsr := w\<rparr>) = ptr k" "ptr (k\<lparr>regs := r\<rparr>) = ptr k"
  by (rule ext, case_tac x, simp_all)+

text \<open>
  Along a chain the walk stops at its end, takes the current task \<open>t\<close> off the run queue and
  stores it there; on an empty list it writes the head only.
\<close>

lemma sleep_enqueue_chain:
  assumes "sized k" "valid_lval head" "chain (ptr k) tmp xs" "valid_lval tmp" "set xs \<subseteq> {..<64}"
    and "xs = [] \<Longrightarrow> tmp = head"
    and "runqueue_remove_cur k = Some (Some t, k\<lparr>kq := q\<rparr>)" "t < 64"
  shows "sleep_enqueue head tmp k = Some
    (if xs = [] then put head (Some t) (k\<lparr>kq := q\<rparr>)
     else put (Tcb_link t) None (put (Tcb_link (last xs)) (Some t) (k\<lparr>kq := q\<rparr>)))"
  using assms
proof (induction xs arbitrary: tmp)
  case Nil
  then show ?case by (subst sleep_enqueue.simps) (simp add: wf_simps)
next
  case (Cons x xs)
  then have x: "ptr k tmp = Some x" "x < 64" "chain (ptr k) (Tcb_link x) xs" by auto
  show ?case
  proof (cases xs)
    case Nil
    with Cons.prems x show ?thesis
      by (subst sleep_enqueue.simps) (simp add: wf_simps)
  next
    case (Cons y ys)
    with x(3) have "ptr k (Tcb_link x) = Some y" by simp
    moreover have "sleep_enqueue head (Tcb_link x) k = Some
      (if xs = [] then put head (Some t) (k\<lparr>kq := q\<rparr>)
       else put (Tcb_link t) None (put (Tcb_link (last xs)) (Some t) (k\<lparr>kq := q\<rparr>)))"
      using Cons.prems x \<open>xs = y # ys\<close> by (intro Cons.IH) auto
    ultimately show ?thesis
      using Cons.prems(1,4) x \<open>xs = y # ys\<close> by (subst sleep_enqueue.simps) (simp add: wf_simps)
  qed
qed

lemma sleep_dequeue_eq:
  assumes "sized k" "valid_lval head" "t < 64"
  shows "sleep_dequeue head t k = Some (put (Tcb_link t) None (put head (ptr k (Tcb_link t)) k))"
  using assms by (simp add: sleep_dequeue_def wf_simps)

declare ptr.simps [simp del] put.simps [simp del]

end
