(* ===== verification/Invariant.thy ===== *)
theory Invariant
  imports Sleep_List
begin

text \<open>
  The invariant that ties the run queue, the sleep lists, the mutexes and the current task
  together, the abstract view of a kernel state it justifies, and the effect of the building
  blocks (dispatch, going to sleep, waking) on both.
\<close>

section \<open>The invariant\<close>

fun is_head :: "lval \<Rightarrow> bool" where
  "is_head (Tcb_link i) \<longleftrightarrow> False"
| "is_head (Mutex_head m) \<longleftrightarrow> m < OS_NUM_MUTEX"
| "is_head (Dev_head d) \<longleftrightarrow> d < NUM_DEVICES"

lemma is_head_valid [wf_simps]: "is_head l \<Longrightarrow> valid_lval l"
  by (cases l) auto

lemma is_head_not_link [simp]: "is_head l \<Longrightarrow> l \<noteq> Tcb_link t" "is_head l \<Longrightarrow> l \<notin> Tcb_link ` ts"
  by (cases l; auto)+

text \<open>The cells \<open>h\<close> hold the lists \<open>Q\<close>: no TCB is on two of them, and a TCB on none has a null link.\<close>

definition lists_ok :: "(lval \<Rightarrow> tcb_ptr) \<Rightarrow> (lval \<Rightarrow> nat list) \<Rightarrow> bool" where
  "lists_ok h Q \<longleftrightarrow>
     (\<forall>l. is_head l \<longrightarrow> chain h l (Q l)) \<and>
     (\<forall>l l'. is_head l \<longrightarrow> is_head l' \<longrightarrow> l \<noteq> l' \<longrightarrow> set (Q l) \<inter> set (Q l') = {}) \<and>
     (\<forall>t<64. (\<forall>l. is_head l \<longrightarrow> t \<notin> set (Q l)) \<longrightarrow> h (Tcb_link t) = None)"

definition ready_ok :: "runq \<Rightarrow> tcb list \<Rightarrow> bool" where
  "ready_ok q ts \<longleftrightarrow> rq_wf q \<and> ready q IDLE_PRIO = Some IDLE_PRIO \<and>
     (\<forall>p \<in> dom (ready q). ready q p = Some p \<and> native_prio (ts ! p) = of_nat p)"

definition sleepers_ok :: "runq \<Rightarrow> tcb list \<Rightarrow> (lval \<Rightarrow> nat list) \<Rightarrow> bool" where
  "sleepers_ok q ts Q \<longleftrightarrow>
     (\<forall>l. is_head l \<longrightarrow> (\<forall>t \<in> set (Q l). t < 64 \<and> ready q t = None \<and> native_prio (ts ! t) = of_nat t))"

definition mutex_ok :: "mutex \<Rightarrow> nat list \<Rightarrow> bool" where
  "mutex_ok x ws \<longleftrightarrow>
     (bLock x \<longleftrightarrow> pHolding_Tcb x \<noteq> None) \<and> (\<not> bLock x \<longrightarrow> ws = []) \<and> (bAvailable x \<longrightarrow> \<not> bLock x) \<and>
     (\<forall>h. pHolding_Tcb x = Some h \<longrightarrow> h < 64 \<and> h \<notin> set ws)"

definition mutexes_ok :: "mutex list \<Rightarrow> (lval \<Rightarrow> nat list) \<Rightarrow> bool" where
  "mutexes_ok ms Q \<longleftrightarrow> (\<forall>m < OS_NUM_MUTEX. mutex_ok (ms ! m) (Q (Mutex_head m)))"

definition kernel_inv :: "kernel \<Rightarrow> (lval \<Rightarrow> nat list) \<Rightarrow> bool" where
  "kernel_inv k Q \<longleftrightarrow> sized k \<and> ready_ok (kq k) (system_tcb k) \<and> lists_ok (ptr k) Q \<and>
     sleepers_ok (kq k) (system_tcb k) Q \<and> mutexes_ok (gtMutex k) Q \<and>
     (\<exists>c<64. cur_tcb k = Some c)"

lemma kernel_invD:
  assumes "kernel_inv k Q"
  shows "sized k" "ready_ok (kq k) (system_tcb k)" "lists_ok (ptr k) Q"
    "sleepers_ok (kq k) (system_tcb k) Q" "mutexes_ok (gtMutex k) Q"
  using assms by (simp_all add: kernel_inv_def)

text \<open>Between two kernel activities the current task is ready to run.\<close>

definition kernel_wf :: "kernel \<Rightarrow> bool" where
  "kernel_wf k \<longleftrightarrow> (\<exists>Q. kernel_inv k Q) \<and> (\<exists>c. cur_tcb k = Some c \<and> ready (kq k) c = Some c)"

section \<open>The lists of a state\<close>

text \<open>The list that starts at a cell, following at most \<open>n\<close> links; 64 links reach every TCB.\<close>

fun walk :: "nat \<Rightarrow> (lval \<Rightarrow> tcb_ptr) \<Rightarrow> lval \<Rightarrow> nat list" where
  "walk 0 h l = []"
| "walk (Suc n) h l = (case h l of None \<Rightarrow> [] | Some t \<Rightarrow> t # walk n h (Tcb_link t))"

definition queue :: "kernel \<Rightarrow> lval \<Rightarrow> nat list" where
  "queue k l = walk 64 (ptr k) l"

lemma walk_chain: "chain h l xs \<Longrightarrow> length xs \<le> n \<Longrightarrow> walk n h l = xs"
proof (induction xs arbitrary: l n)
  case Nil
  then show ?case by (cases n) auto
next
  case (Cons x xs)
  then show ?case by (cases n) auto
qed

lemma chain_length:
  assumes "chain h l xs" "set xs \<subseteq> {..<64}"
  shows "length xs \<le> 64"
proof -
  have "card (set xs) \<le> card {..<64::nat}"
    by (rule card_mono) (use assms(2) in auto)
  then show ?thesis using distinct_card [OF chain_distinct [OF assms(1)]] by simp
qed

lemma inv_listD:
  assumes "kernel_inv k Q" "is_head l"
  shows "chain (ptr k) l (Q l)" "set (Q l) \<subseteq> {..<64}" "distinct (Q l)"
    "t \<in> set (Q l) \<Longrightarrow> ready (kq k) t = None"
    "t \<in> set (Q l) \<Longrightarrow> native_prio (system_tcb k ! t) = of_nat t"
  using assms chain_distinct
  by (auto simp: kernel_inv_def lists_ok_def sleepers_ok_def)

lemma queue_eq: "kernel_inv k Q \<Longrightarrow> is_head l \<Longrightarrow> queue k l = Q l"
  unfolding queue_def using inv_listD [of k Q l] walk_chain chain_length by metis

lemma inv_readyD:
  assumes "kernel_inv k Q" "ready (kq k) p = Some t"
  shows "t = p" "p < 64" "native_prio (system_tcb k ! p) = of_nat p"
proof -
  have "p \<in> dom (ready (kq k))" using assms(2) by auto
  then have "ready (kq k) p = Some p \<and> native_prio (system_tcb k ! p) = of_nat p"
    using assms(1) unfolding kernel_inv_def ready_ok_def by blast
  then show "t = p" "native_prio (system_tcb k ! p) = of_nat p" using assms(2) by auto
  show "p < 64" using rq.lookup_bound [of "kq k" p] assms(2) by simp
qed

lemma inv_idle:
  assumes "kernel_inv k Q"
  shows "ready (kq k) 63 = Some 63" "dom (ready (kq k)) \<noteq> {}"
  using assms by (auto simp: kernel_inv_def ready_ok_def)

lemma inv_awake_link:
  assumes "kernel_inv k Q" "ready (kq k) t = Some t"
  shows "ptr k (Tcb_link t) = None" "is_head l \<Longrightarrow> t \<notin> set (Q l)"
proof -
  show "t \<notin> set (Q l)" if "is_head l" for l
    using inv_listD(4) [OF assms(1) that] assms(2) by auto
  then show "ptr k (Tcb_link t) = None"
    using assms inv_readyD(2) [OF assms] by (auto simp: kernel_inv_def lists_ok_def)
qed

section \<open>The abstract view\<close>

record sched_spec =
  current :: nat
  runnable :: "nat set"
  waiting :: "lval \<Rightarrow> nat list"
  created :: "nat \<Rightarrow> bool"
  owner :: "nat \<Rightarrow> nat option"

definition abs_state :: "kernel \<Rightarrow> sched_spec" where
  "abs_state k = \<lparr>
     current = the (cur_tcb k),
     runnable = dom (ready (kq k)),
     waiting = (\<lambda>l. if is_head l then queue k l else []),
     created = (\<lambda>m. m < OS_NUM_MUTEX \<and> \<not> bAvailable (gtMutex k ! m)),
     owner = (\<lambda>m. if m < OS_NUM_MUTEX then pHolding_Tcb (gtMutex k ! m) else None)\<rparr>"

text \<open>The processor goes to the runnable task with the smallest number.\<close>

definition spec_dispatch :: "sched_spec \<Rightarrow> sched_spec" where
  "spec_dispatch s = s\<lparr>current := Min (runnable s)\<rparr>"

text \<open>The current task goes to the end of a sleep list; the first sleeper of a list wakes.\<close>

definition spec_sleep :: "lval \<Rightarrow> sched_spec \<Rightarrow> sched_spec" where
  "spec_sleep l s = s\<lparr>runnable := runnable s - {current s},
     waiting := (waiting s)(l := waiting s l @ [current s])\<rparr>"

definition spec_wake :: "lval \<Rightarrow> sched_spec \<Rightarrow> sched_spec" where
  "spec_wake l s = (case waiting s l of [] \<Rightarrow> s
     | t # ts \<Rightarrow> s\<lparr>runnable := insert t (runnable s), waiting := (waiting s)(l := ts)\<rparr>)"

section \<open>Lists under an append and a removal\<close>

lemma end_cell_cases:
  "is_head l \<Longrightarrow> end_cell l xs = l \<or> (\<exists>y \<in> set xs. end_cell l xs = Tcb_link y)"
  by (cases xs rule: rev_cases) auto

lemma lists_ok_append:
  assumes ok: "lists_ok h Q" and l: "is_head l" and t: "t < 64"
    and new: "\<And>l'. is_head l' \<Longrightarrow> t \<notin> set (Q l')"
  shows "lists_ok (h(end_cell l (Q l) := Some t)) (Q(l := Q l @ [t]))"
    (is "lists_ok (h(?e := _)) _")
proof -
  have ch: "is_head l' \<Longrightarrow> chain h l' (Q l')" for l' using ok by (simp add: lists_ok_def)
  have dj: "is_head l' \<Longrightarrow> l' \<noteq> l \<Longrightarrow> set (Q l') \<inter> set (Q l) = {}" for l'
    using ok l by (simp add: lists_ok_def)
  have nt: "h (Tcb_link t) = None" using ok new t by (simp add: lists_ok_def)
  have "chain (h(?e := Some t)) l (Q l @ [t])"
    using ch [OF l] nt new [OF l] l by (intro chain_snoc) auto
  moreover have "chain (h(?e := Some t)) l' (Q l')" if l': "is_head l'" "l' \<noteq> l" for l'
  proof -
    have "l' \<noteq> ?e" "?e \<notin> Tcb_link ` set (Q l')"
      using end_cell_cases [OF l, of "Q l"] dj [OF l'] l' l by auto
    then show ?thesis using chain_frame ch [OF l'(1)] by blast
  qed
  moreover have "(h(?e := Some t)) (Tcb_link u) = None"
    if "u < 64" "\<And>l'. is_head l' \<Longrightarrow> u \<notin> set ((Q(l := Q l @ [t])) l')" for u
  proof -
    have "?e \<noteq> Tcb_link u"
      using end_cell_cases [OF l, of "Q l"] that(2) [OF l] l by auto
    moreover have "u \<notin> set (Q l')" if "is_head l'" for l'
      using \<open>\<And>l'. is_head l' \<Longrightarrow> u \<notin> set ((Q(l := Q l @ [t])) l')\<close> [OF that] by (auto split: if_splits)
    ultimately show ?thesis using ok \<open>u < 64\<close> by (auto simp: lists_ok_def)
  qed
  moreover have "set ((Q(l := Q l @ [t])) l1) \<inter> set ((Q(l := Q l @ [t])) l2) = {}"
    if "is_head l1" "is_head l2" "l1 \<noteq> l2" for l1 l2
    using that ok new [OF that(1)] new [OF that(2)] by (auto simp: lists_ok_def)
  ultimately show ?thesis unfolding lists_ok_def by auto
qed

lemma lists_ok_pop:
  assumes ok: "lists_ok h Q" and l: "is_head l" and q: "Q l = t # ts"
  shows "lists_ok (h(l := h (Tcb_link t), Tcb_link t := None)) (Q(l := ts))"
    (is "lists_ok ?h _")
proof -
  have ch: "is_head l' \<Longrightarrow> chain h l' (Q l')" for l' using ok by (simp add: lists_ok_def)
  have dj: "is_head l' \<Longrightarrow> l' \<noteq> l \<Longrightarrow> set (Q l') \<inter> set (Q l) = {}" for l'
    using ok l by (simp add: lists_ok_def)
  have d: "t \<notin> set ts" using chain_distinct [OF ch [OF l]] q by simp
  have "chain ?h l ts"
  proof (cases ts)
    case Nil
    then show ?thesis using ch [OF l] q l by simp
  next
    case (Cons u us)
    have "chain ?h (Tcb_link u) us"
      using ch [OF l] q d Cons l by (subst chain_frame, auto)+
    with Cons show ?thesis using ch [OF l] q l by simp
  qed
  moreover have "chain ?h l' (Q l')" if l': "is_head l'" "l' \<noteq> l" for l'
  proof -
    have "t \<notin> set (Q l')" using dj [OF l'] q by auto
    then show ?thesis using ch [OF l'(1)] l' l by (subst chain_frame, auto)+
  qed
  moreover have "?h (Tcb_link u) = None"
    if "u < 64" "\<And>l'. is_head l' \<Longrightarrow> u \<notin> set ((Q(l := ts)) l')" for u
  proof (cases "u = t")
    case False
    then have "u \<notin> set (Q l')" if "is_head l'" for l'
      using \<open>\<And>l'. is_head l' \<Longrightarrow> u \<notin> set ((Q(l := ts)) l')\<close> [OF that] q by (auto split: if_splits)
    then show ?thesis using ok False \<open>u < 64\<close> l unfolding lists_ok_def by auto
  qed (use l in simp)
  moreover have "set ((Q(l := ts)) l1) \<inter> set ((Q(l := ts)) l2) = {}"
    if "is_head l1" "is_head l2" "l1 \<noteq> l2" for l1 l2
  proof -
    have "set ((Q(l := ts)) l') \<subseteq> set (Q l')" for l' using q by auto
    moreover have "set (Q l1) \<inter> set (Q l2) = {}" using ok that by (simp add: lists_ok_def)
    ultimately show ?thesis by blast
  qed
  ultimately show ?thesis unfolding lists_ok_def by auto
qed

section \<open>Dispatching\<close>

text \<open>The fields the dispatcher leaves alone.\<close>

definition same_but_dispatch :: "kernel \<Rightarrow> kernel \<Rightarrow> bool" where
  "same_but_dispatch k k' \<longleftrightarrow> kq k' = kq k \<and> gtMutex k' = gtMutex k \<and> devices k' = devices k \<and>
     system_time k' = system_time k \<and> cpsr k' = cpsr k \<and> ptr k' = ptr k"

lemma ctx_switch_full_eq:
  assumes "sized k" "next < 64" "cur < 64"
  shows "ctx_switch_full next cur k = Some (k\<lparr>
    system_tcb := (system_tcb k)[cur := (system_tcb k ! cur)\<lparr>tcb_context := regs k\<rparr>],
    regs := (if next = cur then regs k else tcb_context (system_tcb k ! next))\<rparr>)"
  using assms by (simp add: ctx_switch_full_def wf_simps)

lemma ptr_context [simp]:
  "ptr (k\<lparr>system_tcb := (system_tcb k)[c := (system_tcb k ! c)\<lparr>tcb_context := x\<rparr>]\<rparr>) = ptr k"
  by (rule ext, case_tac xa) (simp_all add: ptr.simps, rule update_keeps, simp)

lemma native_prio_context [simp]:
  "native_prio ((system_tcb k)[c := (system_tcb k ! c)\<lparr>tcb_context := x\<rparr>] ! i) =
     native_prio (system_tcb k ! i)"
  by (rule update_keeps) simp

lemma highest_prio_Min:
  assumes "kernel_inv k Q"
  shows "\<exists>h. highest_prio (kq k) = Some h \<and> unat h = Min (dom (ready (kq k)))"
proof -
  have "rq_wf (kq k)" using kernel_invD(2) [OF assms] by (simp add: ready_ok_def)
  from rq.top_Min [OF this inv_idle(2) [OF assms]] show ?thesis by auto
qed

lemma inv_Min:
  assumes "kernel_inv k Q"
  shows "Min (dom (ready (kq k))) < 64"
    "ready (kq k) (Min (dom (ready (kq k)))) = Some (Min (dom (ready (kq k))))"
proof -
  let ?h = "Min (dom (ready (kq k)))"
  have "?h \<in> dom (ready (kq k))" by (rule Min_in) (use rq.finite_dom inv_idle [OF assms] in auto)
  then obtain t where "ready (kq k) ?h = Some t" by auto
  with inv_readyD [OF assms this] show "?h < 64" "ready (kq k) ?h = Some ?h" by auto
qed

text \<open>
  The whole effect of \<open>dispatch_save\<close>: the old registers are stored in the context of the
  task that was current, and the processor gets those of the ready task of highest priority.
\<close>

lemma dispatch_save_eq:
  assumes inv: "kernel_inv k Q" and c: "cur_tcb k = Some c"
  shows "dispatch_save k = Some (k\<lparr>
    system_tcb := (system_tcb k)[c := (system_tcb k ! c)\<lparr>tcb_context := regs k\<rparr>],
    cur_tcb := Some (Min (dom (ready (kq k)))),
    regs := (if Min (dom (ready (kq k))) = c then regs k
      else tcb_context (system_tcb k ! Min (dom (ready (kq k)))))\<rparr>)"
proof -
  obtain h where h: "highest_prio (kq k) = Some h" "unat h = Min (dom (ready (kq k)))"
    using highest_prio_Min [OF inv] by blast
  have "c < 64" "sized k" using inv c by (auto simp: kernel_inv_def)
  then show ?thesis
    using c h inv_Min(1) [OF inv]
    by (simp add: dispatch_save_def ctx_switch_full_eq sized_def Let_def)
qed

lemma dispatch_sleep_eq: "dispatch_sleep k = dispatch_save k"
  by (simp add: dispatch_sleep_def dispatch_save_def)

lemma inv_dispatch:
  assumes inv: "kernel_inv k Q"
  shows "\<exists>k'. dispatch_save k = Some k' \<and> kernel_inv k' Q \<and> kernel_wf k' \<and>
    cur_tcb k' = Some (Min (dom (ready (kq k)))) \<and> same_but_dispatch k k' \<and>
    abs_state k' = spec_dispatch (abs_state k)"
proof -
  obtain c where c: "cur_tcb k = Some c" "c < 64" using inv by (auto simp: kernel_inv_def)
  obtain k' where k': "dispatch_save k = Some k'" using dispatch_save_eq [OF inv c(1)] by blast
  then have eq: "k' = k\<lparr>
    system_tcb := (system_tcb k)[c := (system_tcb k ! c)\<lparr>tcb_context := regs k\<rparr>],
    cur_tcb := Some (Min (dom (ready (kq k)))),
    regs := (if Min (dom (ready (kq k))) = c then regs k
      else tcb_context (system_tcb k ! Min (dom (ready (kq k)))))\<rparr>"
    using dispatch_save_eq [OF inv c(1)] by simp
  have p: "ptr k' = ptr k" by (simp add: eq fun_eq_iff)
  have same: "same_but_dispatch k k'" using p by (simp add: same_but_dispatch_def eq)
  have inv': "kernel_inv k' Q"
    using inv inv_Min [OF inv] p
    by (auto simp: kernel_inv_def eq sized_def ready_ok_def sleepers_ok_def)
  have wf: "kernel_wf k'"
    using inv' inv_Min [OF inv] by (auto simp: kernel_wf_def eq)
  have cur: "cur_tcb k' = Some (Min (dom (ready (kq k))))" by (simp add: eq)
  have "queue k' = queue k" by (simp add: queue_def p fun_eq_iff)
  then have "abs_state k' = spec_dispatch (abs_state k)"
    using same cur by (simp add: abs_state_def spec_dispatch_def same_but_dispatch_def cong: if_cong)
  with k' inv' wf same cur show ?thesis by simp
qed

section \<open>Going to sleep and waking\<close>

text \<open>When the current task may go to sleep on a list: it is ready, it is not the idle task, and the list's mutex is locked by somebody else.\<close>

fun can_sleep :: "lval \<Rightarrow> kernel \<Rightarrow> bool" where
  "can_sleep (Mutex_head m) k \<longleftrightarrow> cur_tcb k \<noteq> Some IDLE_PRIO \<and> bLock (gtMutex k ! m) \<and>
     pHolding_Tcb (gtMutex k ! m) \<noteq> cur_tcb k"
| "can_sleep _ k \<longleftrightarrow> cur_tcb k \<noteq> Some IDLE_PRIO"

lemma can_sleep_not_idle: "can_sleep l k \<Longrightarrow> cur_tcb k \<noteq> Some 63"
  by (cases l) auto

text \<open>The fields that moving a task between the run queue and a sleep list leaves alone.\<close>

definition same_but_lists :: "kernel \<Rightarrow> kernel \<Rightarrow> bool" where
  "same_but_lists k k' \<longleftrightarrow> cur_tcb k' = cur_tcb k \<and> system_time k' = system_time k \<and>
     cpsr k' = cpsr k \<and> regs k' = regs k \<and>
     (\<forall>i. native_prio (system_tcb k' ! i) = native_prio (system_tcb k ! i)) \<and>
     (\<forall>i. tcb_context (system_tcb k' ! i) = tcb_context (system_tcb k ! i)) \<and>
     (\<forall>m. bAvailable (gtMutex k' ! m) = bAvailable (gtMutex k ! m)) \<and>
     (\<forall>m. bLock (gtMutex k' ! m) = bLock (gtMutex k ! m)) \<and>
     (\<forall>m. pHolding_Tcb (gtMutex k' ! m) = pHolding_Tcb (gtMutex k ! m)) \<and>
     (\<forall>d. next_match (devices k' ! d) = next_match (devices k ! d))"

lemma same_but_lists_put [simp]: "same_but_lists k (put l v k')  = same_but_lists k k'"
  by (simp add: same_but_lists_def)

lemma same_but_lists_kq [simp]: "same_but_lists k (k'\<lparr>kq := q\<rparr>) = same_but_lists k k'"
  by (simp add: same_but_lists_def)

lemma same_but_lists_refl [simp]: "same_but_lists k k"
  by (simp add: same_but_lists_def)

lemma same_but_lists_trans: "same_but_lists k k' \<Longrightarrow> same_but_lists k' k'' \<Longrightarrow> same_but_lists k k''"
  by (simp add: same_but_lists_def)

lemma mutexes_ok_same:
  "mutexes_ok (gtMutex k) Q \<Longrightarrow> same_but_lists k k' \<Longrightarrow>
    (\<And>m. m < 32 \<Longrightarrow> Q' (Mutex_head m) = Q (Mutex_head m) \<or>
       mutex_ok (gtMutex k ! m) (Q' (Mutex_head m))) \<Longrightarrow> mutexes_ok (gtMutex k') Q'"
  unfolding mutexes_ok_def mutex_ok_def same_but_lists_def by (metis OS_NUM_MUTEX_def)

text \<open>The abstract view when only lists moved.\<close>

lemma abs_state_move:
  assumes "kernel_inv k Q" "kernel_inv k' Q'" "same_but_lists k k'"
    and "\<And>l'. is_head l' \<Longrightarrow> l' \<noteq> l \<Longrightarrow> Q' l' = Q l'"
  shows "abs_state k' = (abs_state k)\<lparr>runnable := dom (ready (kq k')),
    waiting := (waiting (abs_state k))(l := (if is_head l then Q' l else []))\<rparr>"
  using assms queue_eq [OF assms(1)] queue_eq [OF assms(2)]
  by (auto simp: abs_state_def same_but_lists_def fun_eq_iff)

lemma inv_sleep:
  assumes inv: "kernel_inv k Q" and c: "cur_tcb k = Some c" "ready (kq k) c = Some c"
    and l: "is_head l" "can_sleep l k"
  shows "\<exists>k'. sleep_enqueue l l k = Some k' \<and> kernel_inv k' (Q(l := Q l @ [c])) \<and>
    same_but_lists k k' \<and> ready (kq k') = (ready (kq k))(c := None) \<and>
    abs_state k' = spec_sleep l (abs_state k)"
proof -
  note sz = kernel_invD(1) [OF inv] and ld = inv_listD [OF inv l(1)]
  have c64: "c < 64" and np: "native_prio (system_tcb k ! c) = of_nat c"
    using inv_readyD [OF inv c(2)] by auto
  have nq: "c \<notin> set (Q l')" if "is_head l'" for l'
    using inv_awake_link(2) [OF inv c(2) that] .
  have wfq: "rq_wf (kq k)" using kernel_invD(2) [OF inv] by (simp add: ready_ok_def)
  obtain q where q: "runqueue_remove (of_nat c) (kq k) = Some (Some c, q)" "rq_wf q"
      "ready q = (ready (kq k))(c := None)"
    using rq.remove_law [OF wfq, of c] c64 c(2) by auto
  have rm: "runqueue_remove_cur k = Some (Some c, k\<lparr>kq := q\<rparr>)"
    using c(1) c64 np q(1) sz by (simp add: runqueue_remove_cur_def get_cur_prio_def wf_simps)
  define k' where "k' = (if Q l = [] then put l (Some c) (k\<lparr>kq := q\<rparr>)
     else put (Tcb_link c) None (put (Tcb_link (last (Q l))) (Some c) (k\<lparr>kq := q\<rparr>)))"
  have enq: "sleep_enqueue l l k = Some k'"
    unfolding k'_def using sz l(1) ld c64 rm
    by (intro sleep_enqueue_chain) (auto simp: wf_simps)
  have same: "same_but_lists k k'" by (simp add: k'_def)
  have np': "native_prio (system_tcb k' ! i) = native_prio (system_tcb k ! i)" for i
    using same by (simp add: same_but_lists_def)
  have kq': "kq k' = q" by (simp add: k'_def)
  have last: "Q l \<noteq> [] \<Longrightarrow> last (Q l) < 64 \<and> last (Q l) \<noteq> c"
    using ld(2) nq [OF l(1)] by (metis last_in_set lessThan_iff subsetD)
  have p: "ptr k' = (ptr k)(end_cell l (Q l) := Some c)"
    using last sz l(1) c64 inv_awake_link(1) [OF inv c(2)]
    by (auto simp: k'_def wf_simps end_cell_nonempty)
  have "lists_ok (ptr k') (Q(l := Q l @ [c]))"
    unfolding p using kernel_invD(3) [OF inv] l(1) c64 nq by (rule lists_ok_append)
  moreover have "sized k'" using sz by (simp add: k'_def)
  moreover have "ready_ok (kq k') (system_tcb k')"
    using kernel_invD(2) [OF inv] q can_sleep_not_idle [OF l(2)] c
    by (auto simp: ready_ok_def kq' np' split: if_splits)
  moreover have "sleepers_ok (kq k') (system_tcb k') (Q(l := Q l @ [c]))"
    using kernel_invD(4) [OF inv] q(3) c64 np
    by (auto simp: sleepers_ok_def kq' np')
  moreover have "mutexes_ok (gtMutex k') (Q(l := Q l @ [c]))"
  proof (rule mutexes_ok_same [OF kernel_invD(5) [OF inv] same])
    fix m :: nat
    assume "m < 32"
    then have "mutex_ok (gtMutex k ! m) (Q (Mutex_head m))"
      using kernel_invD(5) [OF inv] by (simp add: mutexes_ok_def)
    then show "(Q(l := Q l @ [c])) (Mutex_head m) = Q (Mutex_head m) \<or>
       mutex_ok (gtMutex k ! m) ((Q(l := Q l @ [c])) (Mutex_head m))"
      using l c(1) by (cases "l = Mutex_head m") (auto simp: mutex_ok_def)
  qed
  moreover have "cur_tcb k' = Some c" using same c by (simp add: same_but_lists_def)
  ultimately have inv': "kernel_inv k' (Q(l := Q l @ [c]))"
    using c64 by (simp add: kernel_inv_def)
  have "abs_state k' = spec_sleep l (abs_state k)"
    using abs_state_move [OF inv inv' same, of l] queue_eq [OF inv l(1)] l(1) q(3) c
    by (simp add: spec_sleep_def kq' abs_state_def)
  with enq inv' same q(3) kq' show ?thesis by auto
qed

text \<open>
  Waking the first task of a list, the statements \<open>mutex_unlock_syscall\<close> and \<open>dev_update\<close>
  share: take it off the list and add it to the run queue at its native priority.
\<close>

definition sleep_wake :: "lval \<Rightarrow> nat \<Rightarrow> kernel \<Rightarrow> kernel option" where
  "sleep_wake head t k = do {
     k \<leftarrow> sleep_dequeue head t k;
     x \<leftarrow> aget (system_tcb k) t;
     k_runqueue_add (Some t) (native_prio x) k
   }"

lemma inv_wake:
  assumes inv: "kernel_inv k Q" and l: "is_head l" and q: "Q l = t # ts"
  shows "\<exists>k'. sleep_wake l t k = Some k' \<and> kernel_inv k' (Q(l := ts)) \<and>
    same_but_lists k k' \<and> ready (kq k') = (ready (kq k))(t \<mapsto> t) \<and>
    abs_state k' = spec_wake l (abs_state k)"
proof -
  note sz = kernel_invD(1) [OF inv] and ld = inv_listD [OF inv l]
  have t64: "t < 64" and np: "native_prio (system_tcb k ! t) = of_nat t"
    using ld q by auto
  have nts: "t \<notin> set ts" using ld(3) q by simp
  have other: "t \<notin> set (Q l')" if "is_head l'" "l' \<noteq> l" for l'
    using kernel_invD(3) [OF inv] that l q unfolding lists_ok_def by (metis disjoint_iff list.set_intros(1))
  have wfq: "rq_wf (kq k)" using kernel_invD(2) [OF inv] by (simp add: ready_ok_def)
  obtain r where r: "runqueue_add (Some t) (of_nat t) (kq k) = Some r" "rq_wf r"
      "ready r = (ready (kq k))(t \<mapsto> t)"
    using rq.add_law [OF wfq, of t t] t64 by auto
  define k1 where "k1 = put (Tcb_link t) None (put l (ptr k (Tcb_link t)) k)"
  define k' where "k' = k1\<lparr>kq := r\<rparr>"
  have same: "same_but_lists k k'" by (simp add: k'_def k1_def)
  have np': "native_prio (system_tcb k' ! i) = native_prio (system_tcb k ! i)" for i
    using same by (simp add: same_but_lists_def)
  have sz1: "sized k1" using sz by (simp add: k1_def)
  have wake: "sleep_wake l t k = Some k'"
    using sz l t64 np r(1) sz1
    by (simp add: sleep_wake_def sleep_dequeue_eq wf_simps k_runqueue_add_def k1_def [symmetric] k'_def)
      (simp add: k1_def)
  have kq': "kq k' = r" by (simp add: k'_def)
  have p: "ptr k' = (ptr k)(l := ptr k (Tcb_link t), Tcb_link t := None)"
    using sz l t64 by (simp add: k'_def k1_def wf_simps)
  have "lists_ok (ptr k') (Q(l := ts))"
    unfolding p using kernel_invD(3) [OF inv] l q by (rule lists_ok_pop)
  moreover have "sized k'" using sz1 by (simp add: k'_def)
  moreover have "ready_ok (kq k') (system_tcb k')"
    using kernel_invD(2) [OF inv] r np by (auto simp: ready_ok_def kq' np')
  moreover have "sleepers_ok (kq k') (system_tcb k') (Q(l := ts))"
    using kernel_invD(4) [OF inv] q r(3) nts other by (auto simp: sleepers_ok_def kq' np')
  moreover have "mutexes_ok (gtMutex k') (Q(l := ts))"
  proof (rule mutexes_ok_same [OF kernel_invD(5) [OF inv] same])
    fix m :: nat
    assume "m < 32"
    then have "mutex_ok (gtMutex k ! m) (Q (Mutex_head m))"
      using kernel_invD(5) [OF inv] by (simp add: mutexes_ok_def)
    then show "(Q(l := ts)) (Mutex_head m) = Q (Mutex_head m) \<or>
       mutex_ok (gtMutex k ! m) ((Q(l := ts)) (Mutex_head m))"
      using q by (cases "l = Mutex_head m") (auto simp: mutex_ok_def)
  qed
  moreover have "\<exists>c<64. cur_tcb k' = Some c"
    using inv same by (simp add: kernel_inv_def same_but_lists_def)
  ultimately have inv': "kernel_inv k' (Q(l := ts))" by (simp add: kernel_inv_def)
  have "abs_state k' = spec_wake l (abs_state k)"
    using abs_state_move [OF inv inv' same, of l] queue_eq [OF inv l] l r(3) q
    by (simp add: spec_wake_def kq' abs_state_def)
  with wake inv' same r(3) kq' show ?thesis by auto
qed

end
