(* ===== verification/Wait_Lists.thy ===== *)
theory Wait_Lists
  imports Invariant
begin

text \<open>
  The interface that the mutexes and the devices share: named waiting lists on which the
  current task can go to sleep and from which the first task can be woken. The lemmas follow
  from the contract alone; the sleep lists of the kernel interpret it.
\<close>

locale wait_lists =
  fixes inv :: "'k \<Rightarrow> bool"
    and content :: "'k \<Rightarrow> 'l \<Rightarrow> nat list"
    and is_list :: "'l \<Rightarrow> bool"
    and may_sleep :: "'l \<Rightarrow> 'k \<Rightarrow> bool"
    and cur :: "'k \<Rightarrow> nat"
    and runs :: "'k \<Rightarrow> nat set"
    and sleep :: "'l \<Rightarrow> 'k \<Rightarrow> 'k option"
    and wake :: "'l \<Rightarrow> nat \<Rightarrow> 'k \<Rightarrow> 'k option"
    and frame :: "'k \<Rightarrow> 'k \<Rightarrow> bool"
  assumes sleep_law: "inv k \<Longrightarrow> is_list l \<Longrightarrow> may_sleep l k \<Longrightarrow>
      \<exists>k'. sleep l k = Some k' \<and> inv k' \<and> frame k k' \<and>
        content k' = (content k)(l := content k l @ [cur k]) \<and> runs k' = runs k - {cur k}"
    and wake_law: "inv k \<Longrightarrow> is_list l \<Longrightarrow> content k l = t # ts \<Longrightarrow>
      \<exists>k'. wake l t k = Some k' \<and> inv k' \<and> frame k k' \<and>
        content k' = (content k)(l := ts) \<and> runs k' = insert t (runs k)"
    and frame_refl: "frame k k"
    and frame_trans: "frame k k' \<Longrightarrow> frame k' k'' \<Longrightarrow> frame k k''"
    and frame_cur: "frame k k' \<Longrightarrow> cur k' = cur k"
begin

text \<open>A task that goes to sleep waits behind exactly those that were there.\<close>

lemma sleep_position:
  assumes "inv k" "is_list l" "may_sleep l k" "sleep l k = Some k'"
  shows "content k' l ! length (content k l) = cur k" "take (length (content k l)) (content k' l) = content k l"
  using sleep_law [OF assms(1-3)] assms(4) by auto

text \<open>Sleeping and waking move tasks, they neither lose nor invent one.\<close>

lemma sleep_conserves:
  assumes "inv k" "is_list l" "may_sleep l k" "sleep l k = Some k'" "cur k \<in> runs k"
  shows "runs k' \<union> (\<Union>l. set (content k' l)) = runs k \<union> (\<Union>l. set (content k l))"
proof -
  from sleep_law [OF assms(1-3)] assms(4)
  have k': "content k' = (content k)(l := content k l @ [cur k])" "runs k' = runs k - {cur k}" by auto
  then have "(\<Union>l. set (content k' l)) = insert (cur k) (\<Union>l. set (content k l))"
    by (simp add: UN_lists_upd UN_lists_split [of "content k" l] del: fun_upd_apply)
  with k' assms(5) show ?thesis by auto
qed

lemma wake_conserves:
  assumes "inv k" "is_list l" "content k l = t # ts" "wake l t k = Some k'"
  shows "runs k' \<union> (\<Union>l. set (content k' l)) = runs k \<union> (\<Union>l. set (content k l))"
proof -
  from wake_law [OF assms(1-3)] assms(4)
  have k': "content k' = (content k)(l := ts)" "runs k' = insert t (runs k)" by auto
  then have "(\<Union>l. set (content k l)) = insert t (\<Union>l. set (content k' l))"
    using assms(3) by (simp add: UN_lists_upd UN_lists_split [of "content k" l] del: fun_upd_apply)
  with k'(2) show ?thesis by auto
qed

text \<open>
  A loop that wakes the first task until the list is empty wakes all of it; \<open>b\<close> is what the
  loop computes on the side, one \<open>step\<close> for each task.
\<close>

lemma drain:
  assumes loop: "\<And>b k. inv k \<Longrightarrow>
      loop b k = (case content k l of [] \<Rightarrow> Some (b, k) | t # _ \<Rightarrow> wake l t k \<bind> loop (step b))"
    and "inv k" "is_list l"
  shows "\<exists>k'. loop b k = Some ((step ^^ length (content k l)) b, k') \<and> inv k' \<and> frame k k' \<and>
    content k' = (content k)(l := []) \<and> runs k' = runs k \<union> set (content k l)"
  using assms(2)
proof (induction "content k l" arbitrary: k b)
  case Nil
  then show ?case using loop [OF Nil(2)] frame_refl by (auto simp: fun_eq_iff)
next
  case (Cons t ts)
  obtain k1 where k1: "wake l t k = Some k1" "inv k1" "frame k k1"
      "content k1 = (content k)(l := ts)" "runs k1 = insert t (runs k)"
    using wake_law [OF Cons.prems assms(3)] Cons.hyps(2) by metis
  have kl: "content k l = t # ts" using Cons.hyps(2) by simp
  obtain k' where k': "loop (step b) k1 = Some ((step ^^ length ts) (step b), k')" "inv k'" "frame k1 k'"
      "content k' = (content k1)(l := [])" "runs k' = runs k1 \<union> set ts"
    using Cons.hyps(1) [OF _ k1(2), of "step b"] k1(4) by auto
  have "loop b k = loop (step b) k1" using loop [OF Cons.prems] k1(1) kl by simp
  moreover have "frame k k'" by (rule frame_trans) fact+
  ultimately show ?case using k1(4,5) k' kl by (simp add: funpow_swap1)
qed

end

definition lists_of :: "kernel \<Rightarrow> lval \<Rightarrow> nat list" where
  "lists_of k l = (if is_head l then queue k l else [])"

definition has_inv :: "kernel \<Rightarrow> bool" where
  "has_inv k \<longleftrightarrow> (\<exists>Q. kernel_inv k Q)"

definition cur_ready :: "kernel \<Rightarrow> bool" where
  "cur_ready k \<longleftrightarrow> (\<exists>c. cur_tcb k = Some c \<and> ready (kq k) c = Some c)"

lemma kernel_wf_iff: "kernel_wf k \<longleftrightarrow> has_inv k \<and> cur_ready k"
  by (simp add: kernel_wf_def has_inv_def cur_ready_def)

lemma lists_of_abs: "lists_of k = waiting (abs_state k)"
  by (simp add: lists_of_def abs_state_def fun_eq_iff)

lemma lists_of_inv: "kernel_inv k Q \<Longrightarrow> is_head l \<Longrightarrow> lists_of k l = Q l"
  by (simp add: lists_of_def queue_eq)

interpretation wl: wait_lists has_inv lists_of is_head
  "\<lambda>l k. can_sleep l k \<and> cur_ready k" "\<lambda>k. the (cur_tcb k)" "\<lambda>k. dom (ready (kq k))"
  "\<lambda>l. sleep_enqueue l l" sleep_wake same_but_lists
proof unfold_locales
  fix k l
  assume "has_inv k" and l: "is_head l" and s: "can_sleep l k \<and> cur_ready k"
  then obtain Q c where inv: "kernel_inv k Q" and c: "cur_tcb k = Some c" "ready (kq k) c = Some c"
    by (auto simp: has_inv_def cur_ready_def)
  obtain k' where k': "sleep_enqueue l l k = Some k'" "kernel_inv k' (Q(l := Q l @ [c]))"
      "same_but_lists k k'" "ready (kq k') = (ready (kq k))(c := None)"
      "abs_state k' = spec_sleep l (abs_state k)"
    using inv_sleep [OF inv c l] s by auto
  have "lists_of k' = (lists_of k)(l := lists_of k l @ [c])"
    using k'(5) c by (simp add: lists_of_abs spec_sleep_def) (simp add: abs_state_def)
  with k' c show "\<exists>k'. sleep_enqueue l l k = Some k' \<and> has_inv k' \<and> same_but_lists k k' \<and>
      lists_of k' = (lists_of k)(l := lists_of k l @ [the (cur_tcb k)]) \<and>
      dom (ready (kq k')) = dom (ready (kq k)) - {the (cur_tcb k)}"
    by (auto simp: has_inv_def)
next
  fix k l t ts
  assume "has_inv k" and l: "is_head l" and q: "lists_of k l = t # ts"
  then obtain Q where inv: "kernel_inv k Q" by (auto simp: has_inv_def)
  have "Q l = t # ts" using lists_of_inv [OF inv l] q by simp
  from inv_wake [OF inv l this] obtain k' where k': "sleep_wake l t k = Some k'"
      "kernel_inv k' (Q(l := ts))" "same_but_lists k k'" "ready (kq k') = (ready (kq k))(t \<mapsto> t)"
      "abs_state k' = spec_wake l (abs_state k)" by blast
  have "lists_of k' = (lists_of k)(l := ts)"
    using k'(5) q by (simp add: lists_of_abs spec_wake_def)
  with k' show "\<exists>k'. sleep_wake l t k = Some k' \<and> has_inv k' \<and> same_but_lists k k' \<and>
      lists_of k' = (lists_of k)(l := ts) \<and> dom (ready (kq k')) = insert t (dom (ready (kq k)))"
    by (auto simp: has_inv_def)
qed (auto simp: same_but_lists_def)

end
