(* ===== verification/Mutex.thy ===== *)
theory Mutex
  imports Wait_Lists
begin

text \<open>
  kernel/lock/mutex.c: initialisation, creation, locking and unlocking of the 32 kernel
  mutexes, the abstract lock protocol, and the proof that the code implements it and keeps
  the kernel invariant on every path.
\<close>

section \<open>The code\<close>

definition mutex_init :: "kernel \<Rightarrow> kernel option" where
  "mutex_init = for_range 0 OS_NUM_MUTEX (\<lambda>index k. do {
     ms \<leftarrow> aset (gtMutex k) index
       \<lparr>bAvailable = True, pHolding_Tcb = None, bLock = False, pSleep_queue = None\<rparr>;
     Some (k\<lparr>gtMutex := ms\<rparr>) })"

function mutex_create_loop :: "nat \<Rightarrow> kernel \<Rightarrow> (outcome \<times> kernel) option" where
  "mutex_create_loop index k =
     (if index < OS_NUM_MUTEX then do {
        x \<leftarrow> aget (gtMutex k) index;
        if bAvailable x then do {
          ms \<leftarrow> aset (gtMutex k) index (x\<lparr>bAvailable := False\<rparr>);
          Some (Return (of_nat index), k\<lparr>gtMutex := ms\<rparr>) }
        else mutex_create_loop (Suc index) k }
      else Some (Return (- ENOMEM), k))"
  by pat_completeness auto
termination
  by (relation "measure (\<lambda>(index, k). OS_NUM_MUTEX - index)") auto

declare mutex_create_loop.simps [simp del]

definition mutex_create_syscall :: "kernel \<Rightarrow> (outcome \<times> kernel) option" where
  "mutex_create_syscall = mutex_create_loop 0"

text \<open>Both calls reject a mutex number that is too large or was not handed out.\<close>

definition mutex_invalid :: "int \<Rightarrow> kernel \<Rightarrow> bool option" where
  "mutex_invalid mutex k =
     (if int OS_NUM_MUTEX \<le> mutex then Some True else map_option bAvailable (agetI (gtMutex k) mutex))"

text \<open>The last statements of \<open>mutex_lock_syscall\<close>: the current task becomes the holder.\<close>

definition mutex_lock_take :: "int \<Rightarrow> kernel \<Rightarrow> (outcome \<times> kernel) option" where
  "mutex_lock_take mutex k = do {
     x \<leftarrow> agetI (gtMutex k) mutex;
     ms \<leftarrow> aset (gtMutex k) (nat mutex) (x\<lparr>bLock := True, pHolding_Tcb := get_cur_tcb k\<rparr>);
     Some (Return 0, enable_interrupts (k\<lparr>gtMutex := ms\<rparr>)) }"

text \<open>What a task that blocked in \<open>mutex_lock_syscall\<close> does once it is switched to again.\<close>

definition mutex_lock_resume :: "int \<Rightarrow> kernel \<Rightarrow> (outcome \<times> kernel) option" where
  "mutex_lock_resume mutex k = mutex_lock_take mutex (disable_interrupts k)"

definition mutex_lock_syscall :: "int \<Rightarrow> kernel \<Rightarrow> (outcome \<times> kernel) option" where
  "mutex_lock_syscall mutex k0 = do {
     let k = disable_interrupts k0;
     invalid \<leftarrow> mutex_invalid mutex k;
     if invalid then Some (Return EINVAL, enable_interrupts k)
     else do {
       x \<leftarrow> agetI (gtMutex k) mutex;
       if pHolding_Tcb x = get_cur_tcb k then Some (Return EDEADLOCK, enable_interrupts k)
       else if bLock x then do {
         k \<leftarrow> sleep_enqueue (Mutex_head (nat mutex)) (Mutex_head (nat mutex)) k;
         k \<leftarrow> dispatch_save (enable_interrupts k);
         if cur_tcb k = cur_tcb k0 then mutex_lock_resume mutex k else Some (Switched, k) }
       else mutex_lock_take mutex k } }"

definition mutex_unlock_syscall :: "int \<Rightarrow> kernel \<Rightarrow> (outcome \<times> kernel) option" where
  "mutex_unlock_syscall mutex k0 = do {
     let k = disable_interrupts k0;
     invalid \<leftarrow> mutex_invalid mutex k;
     if invalid then Some (Return EINVAL, enable_interrupts k)
     else do {
       x \<leftarrow> agetI (gtMutex k) mutex;
       if pHolding_Tcb x \<noteq> get_cur_tcb k then Some (Return EPERM, enable_interrupts k)
       else do {
         k \<leftarrow> (case pSleep_queue x of
             None \<Rightarrow> do {
               ms \<leftarrow> aset (gtMutex k) (nat mutex) (x\<lparr>bLock := False, pHolding_Tcb := None\<rparr>);
               Some (k\<lparr>gtMutex := ms\<rparr>) }
           | Some nextTcb \<Rightarrow> do {
               k \<leftarrow> sleep_dequeue (Mutex_head (nat mutex)) nextTcb k;
               y \<leftarrow> agetI (gtMutex k) mutex;
               ms \<leftarrow> aset (gtMutex k) (nat mutex) (y\<lparr>pHolding_Tcb := Some nextTcb\<rparr>);
               t \<leftarrow> aget (system_tcb k) nextTcb;
               k_runqueue_add (Some nextTcb) (native_prio t) (k\<lparr>gtMutex := ms\<rparr>) });
         Some (Return 0, enable_interrupts k) } } }"

section \<open>The abstract protocol\<close>

definition spec_create :: "sched_spec \<Rightarrow> outcome \<times> sched_spec" where
  "spec_create s = (case filter (\<lambda>m. \<not> created s m) [0..<OS_NUM_MUTEX] of
     [] \<Rightarrow> (Return (- ENOMEM), s)
   | m # _ \<Rightarrow> (Return (of_nat m), s\<lparr>created := (created s)(m := True)\<rparr>))"

definition spec_lock :: "nat \<Rightarrow> sched_spec \<Rightarrow> outcome \<times> sched_spec" where
  "spec_lock m s =
     (if \<not> created s m then (Return EINVAL, s)
      else case owner s m of
        None \<Rightarrow> (Return 0, s\<lparr>owner := (owner s)(m \<mapsto> current s)\<rparr>)
      | Some t \<Rightarrow>
          if t = current s then (Return EDEADLOCK, s)
          else (Switched, spec_dispatch (spec_sleep (Mutex_head m) s)))"

definition spec_unlock :: "nat \<Rightarrow> sched_spec \<Rightarrow> outcome \<times> sched_spec" where
  "spec_unlock m s =
     (if \<not> created s m then (Return EINVAL, s)
      else if owner s m \<noteq> Some (current s) then (Return EPERM, s)
      else (Return 0, (spec_wake (Mutex_head m) s)\<lparr>owner := (owner s)(m :=
        (case waiting s (Mutex_head m) of [] \<Rightarrow> None | t # _ \<Rightarrow> Some t))\<rparr>))"

section \<open>Interrupt mask and invariant\<close>

lemma interrupts_frame [simp]:
  "kq (enable_interrupts k) = kq k" "system_tcb (enable_interrupts k) = system_tcb k"
  "cur_tcb (enable_interrupts k) = cur_tcb k" "gtMutex (enable_interrupts k) = gtMutex k"
  "devices (enable_interrupts k) = devices k" "ptr (enable_interrupts k) = ptr k"
  "system_time (enable_interrupts k) = system_time k"
  "kq (disable_interrupts k) = kq k" "system_tcb (disable_interrupts k) = system_tcb k"
  "cur_tcb (disable_interrupts k) = cur_tcb k" "gtMutex (disable_interrupts k) = gtMutex k"
  "devices (disable_interrupts k) = devices k" "ptr (disable_interrupts k) = ptr k"
  "system_time (disable_interrupts k) = system_time k"
  by (simp_all add: enable_interrupts_def disable_interrupts_def)

lemma interrupts_inv [simp]:
  "kernel_inv (enable_interrupts k) Q = kernel_inv k Q"
  "kernel_inv (disable_interrupts k) Q = kernel_inv k Q"
  by (simp_all add: kernel_inv_def sized_def)

lemma interrupts_wf [simp]:
  "kernel_wf (enable_interrupts k) = kernel_wf k" "kernel_wf (disable_interrupts k) = kernel_wf k"
  by (simp_all add: kernel_wf_def)

lemma interrupts_queue [simp]:
  "queue (enable_interrupts k) = queue k" "queue (disable_interrupts k) = queue k"
  by (simp_all add: queue_def fun_eq_iff)

lemma interrupts_abs [simp]:
  "abs_state (enable_interrupts k) = abs_state k" "abs_state (disable_interrupts k) = abs_state k"
  by (simp_all add: abs_state_def cong: if_cong)

definition irq_enabled :: "kernel \<Rightarrow> bool" where
  "irq_enabled k \<longleftrightarrow> cpsr k AND (PSR_IRQ OR PSR_FIQ) = 0"

lemma irq_enabled_enable [simp]: "irq_enabled (enable_interrupts k)"
  by (simp add: irq_enabled_def enable_interrupts_def and.assoc [symmetric])
    (simp add: and.assoc)

lemma ptr_set_mutex:
  "pSleep_queue x = pSleep_queue (gtMutex k ! m) \<Longrightarrow>
     ptr (k\<lparr>gtMutex := (gtMutex k)[m := x]\<rparr>) = ptr k"
  by (rule ext, case_tac xa) (simp_all add: ptr.simps, rule update_keeps, simp)

lemma inv_set_mutex:
  assumes "kernel_inv k Q" "m < 32" "mutex_ok x (Q (Mutex_head m))"
    and "pSleep_queue x = pSleep_queue (gtMutex k ! m)"
  shows "kernel_inv (k\<lparr>gtMutex := (gtMutex k)[m := x]\<rparr>) Q"
  using assms by (auto simp: kernel_inv_def sized_def ptr_set_mutex mutexes_ok_def nth_list_update)

lemma abs_set_mutex:
  assumes "sized k" "m < 32" "pSleep_queue x = pSleep_queue (gtMutex k ! m)"
  shows "abs_state (k\<lparr>gtMutex := (gtMutex k)[m := x]\<rparr>) = (abs_state k)\<lparr>
    created := (created (abs_state k))(m := \<not> bAvailable x),
    owner := (owner (abs_state k))(m := pHolding_Tcb x)\<rparr>"
  using assms by (auto simp: abs_state_def queue_def ptr_set_mutex sized_def fun_eq_iff nth_list_update)

lemma inv_mutex:
  assumes "kernel_inv k Q" "m < 32"
  shows "mutex_ok (gtMutex k ! m) (Q (Mutex_head m))"
  using assms by (simp add: kernel_inv_def mutexes_ok_def)

lemma abs_simps [wf_simps]:
  "m < 32 \<Longrightarrow> created (abs_state k) m = (\<not> bAvailable (gtMutex k ! m))"
  "m < 32 \<Longrightarrow> owner (abs_state k) m = pHolding_Tcb (gtMutex k ! m)"
  "32 \<le> m \<Longrightarrow> \<not> created (abs_state k) m"
  "cur_tcb k = Some c \<Longrightarrow> current (abs_state k) = c"
  "kernel_inv k Q \<Longrightarrow> is_head l \<Longrightarrow> waiting (abs_state k) l = Q l"
  by (auto simp: abs_state_def queue_eq)

lemma mutex_invalid_eq:
  assumes "sized k"
  shows "mutex_invalid (int m) k = Some (\<not> created (abs_state k) m)"
  using assms by (auto simp: mutex_invalid_def agetI_def wf_simps)

lemma agetI_mutex [wf_simps]: "sized k \<Longrightarrow> m < 32 \<Longrightarrow> agetI (gtMutex k) (int m) = Some (gtMutex k ! m)"
  by (simp add: agetI_def wf_simps)

section \<open>Locking\<close>

text \<open>The last statements of the call, when the mutex is free or was handed to the caller.\<close>

lemma mutex_lock_take_eq:
  assumes inv: "kernel_inv k Q" and m: "m < 32" "created (abs_state k) m" and c: "cur_tcb k = Some c"
    and free: "owner (abs_state k) m \<in> {None, Some c}"
  shows "\<exists>k'. mutex_lock_take (int m) k = Some (Return 0, k') \<and> kernel_inv k' Q \<and> kq k' = kq k \<and>
    cur_tcb k' = cur_tcb k \<and> irq_enabled k' \<and>
    abs_state k' = (abs_state k)\<lparr>owner := (owner (abs_state k))(m \<mapsto> c)\<rparr>"
proof -
  let ?x = "(gtMutex k ! m)\<lparr>bLock := True, pHolding_Tcb := Some c\<rparr>"
  let ?k = "k\<lparr>gtMutex := (gtMutex k)[m := ?x]\<rparr>"
  have sz: "sized k" and ok: "mutex_ok (gtMutex k ! m) (Q (Mutex_head m))" and "c < 64"
    using inv m(1) c by (auto simp: kernel_inv_def mutexes_ok_def)
  have "mutex_ok ?x (Q (Mutex_head m))"
    using ok m free \<open>c < 64\<close> by (auto simp: mutex_ok_def wf_simps)
  then have "kernel_inv ?k Q" by (intro inv_set_mutex [OF inv m(1)]) simp_all
  moreover have "abs_state ?k = (abs_state k)\<lparr>owner := (owner (abs_state k))(m \<mapsto> c)\<rparr>"
    using m by (simp add: abs_set_mutex [OF sz m(1)] wf_simps) (simp add: abs_state_def fun_eq_iff)
  ultimately show ?thesis
    using sz m c by (auto simp: mutex_lock_take_def wf_simps get_cur_tcb_def)
qed

lemma mutex_lock_wf:
  assumes wf: "kernel_wf k" and idle: "cur_tcb k \<noteq> Some IDLE_PRIO"
  shows "\<exists>out k'. mutex_lock_syscall (int m) k = Some (out, k') \<and> kernel_wf k' \<and> irq_enabled k' \<and>
    spec_lock m (abs_state k) = (out, abs_state k')"
proof -
  obtain Q c where inv: "kernel_inv k Q" and c: "cur_tcb k = Some c" "ready (kq k) c = Some c"
    using wf by (auto simp: kernel_wf_def)
  note sz = kernel_invD(1) [OF inv]
  let ?k = "disable_interrupts k" and ?l = "Mutex_head m"
  have inv_d: "kernel_inv ?k Q" and sz_d: "sized ?k" using inv kernel_invD(1) [of ?k Q] by simp_all
  show ?thesis
  proof (cases "created (abs_state k) m")
    case False
    then show ?thesis using wf mutex_invalid_eq [OF sz_d, of m]
      by (simp add: mutex_lock_syscall_def Let_def spec_lock_def)
  next
    case True
    then have m: "m < 32" by (simp add: abs_state_def)
    note ok = inv_mutex [OF inv m]
    note head = mutex_lock_syscall_def Let_def mutex_invalid_eq [OF sz_d] agetI_mutex [OF sz m] get_cur_tcb_def
    consider "owner (abs_state k) m = Some c" | "owner (abs_state k) m = None"
      | h where "owner (abs_state k) m = Some h" "h \<noteq> c" by (cases "owner (abs_state k) m") auto
    then show ?thesis
    proof cases
      case 1
      then show ?thesis using wf True c m by (simp add: head spec_lock_def wf_simps)
    next
      case 2
      then have "\<not> bLock (gtMutex k ! m)" using ok m by (simp add: mutex_ok_def wf_simps)
      moreover obtain k' where k': "mutex_lock_take (int m) ?k = Some (Return 0, k')" "kernel_inv k' Q"
          "kq k' = kq k" "cur_tcb k' = Some c" "irq_enabled k'"
          "abs_state k' = (abs_state k)\<lparr>owner := (owner (abs_state k))(m \<mapsto> c)\<rparr>"
        using mutex_lock_take_eq [OF inv_d m, of c] True c 2 by auto
      moreover have "kernel_wf k'" using k' c(2) by (auto simp: kernel_wf_def)
      ultimately show ?thesis using True c m 2 by (simp add: head spec_lock_def wf_simps)
    next
      case (3 h)
      then have held: "bLock (gtMutex k ! m)" "pHolding_Tcb (gtMutex k ! m) = Some h"
        using ok m by (auto simp: mutex_ok_def wf_simps)
      have "can_sleep ?l ?k" using held 3 c idle by simp
      from inv_sleep [OF inv_d _ _ _ this] c m obtain k1 where k1: "sleep_enqueue ?l ?l ?k = Some k1"
          "kernel_inv k1 (Q(?l := Q ?l @ [c]))" "ready (kq k1) = (ready (kq k))(c := None)"
          "abs_state k1 = spec_sleep ?l (abs_state k)" by auto
      obtain k2 where k2: "dispatch_save (enable_interrupts k1) = Some k2" "kernel_wf k2"
          "cur_tcb k2 = Some (Min (dom (ready (kq k1))))" "same_but_dispatch (enable_interrupts k1) k2"
          "abs_state k2 = spec_dispatch (abs_state k1)"
        using inv_dispatch [of "enable_interrupts k1"] k1(2) by auto
      have "ready (kq k1) (Min (dom (ready (kq k1)))) \<noteq> None" using inv_Min(2) [OF k1(2)] by simp
      then have "cur_tcb k2 \<noteq> cur_tcb k" using k2(3) k1(3) c(1) by (auto split: if_splits)
      moreover have "irq_enabled k2"
        using k2(4) irq_enabled_enable [of k1] unfolding irq_enabled_def same_but_dispatch_def by metis
      ultimately show ?thesis
        using held 3 True c m k1(1,4) k2 by (simp add: head spec_lock_def wf_simps)
    qed
  qed
qed

section \<open>Unlocking\<close>

lemma kernel_inv_kq_mutex:
  "k_runqueue_add t p (k\<lparr>gtMutex := ms\<rparr>) = map_option (\<lambda>k'. k'\<lparr>gtMutex := ms\<rparr>) (k_runqueue_add t p k)"
  by (simp add: k_runqueue_add_def) (cases "runqueue_add t p (kq k)"; simp)

lemma gtMutex_runqueue_add: "k_runqueue_add t p k = Some k' \<Longrightarrow> gtMutex k' = gtMutex k"
  by (auto simp: k_runqueue_add_def split: bind_splits)

text \<open>Handing the mutex over: the wake-up of the first waiter, and the store that names it the holder.\<close>

lemma handover_eq:
  assumes sz: "sized k" and m: "m < 32" and wake: "sleep_wake (Mutex_head m) t k = Some k'" and t: "t < 64"
  shows "do {
      k \<leftarrow> sleep_dequeue (Mutex_head m) t k;
      y \<leftarrow> agetI (gtMutex k) (int m);
      ms \<leftarrow> aset (gtMutex k) m (y\<lparr>pHolding_Tcb := Some t\<rparr>);
      t' \<leftarrow> aget (system_tcb k) t;
      k_runqueue_add (Some t) (native_prio t') (k\<lparr>gtMutex := ms\<rparr>) } =
    Some (k'\<lparr>gtMutex := (gtMutex k')[m := (gtMutex k' ! m)\<lparr>pHolding_Tcb := Some t\<rparr>]\<rparr>)"
proof -
  obtain k1 where k1: "sleep_dequeue (Mutex_head m) t k = Some k1" "sized k1"
    using sz m t by (simp add: sleep_dequeue_eq)
  then have add: "k_runqueue_add (Some t) (native_prio (system_tcb k1 ! t)) k1 = Some k'"
    using wake t by (simp add: sleep_wake_def wf_simps)
  then show ?thesis
    using k1 m t gtMutex_runqueue_add [OF add] by (simp add: wf_simps kernel_inv_kq_mutex)
qed

lemma mutex_unlock_wf:
  assumes wf: "kernel_wf k"
  shows "\<exists>out k'. mutex_unlock_syscall (int m) k = Some (out, k') \<and> kernel_wf k' \<and> irq_enabled k' \<and>
    spec_unlock m (abs_state k) = (out, abs_state k')"
proof -
  obtain Q c where inv: "kernel_inv k Q" and c: "cur_tcb k = Some c" "ready (kq k) c = Some c"
    using wf by (auto simp: kernel_wf_def)
  note sz = kernel_invD(1) [OF inv]
  let ?k = "disable_interrupts k" and ?l = "Mutex_head m"
  have inv_d: "kernel_inv ?k Q" and sz_d: "sized ?k" using inv kernel_invD(1) [of ?k Q] by simp_all
  show ?thesis
  proof (cases "created (abs_state k) m")
    case False
    then show ?thesis using wf mutex_invalid_eq [OF sz_d, of m]
      by (simp add: mutex_unlock_syscall_def Let_def spec_unlock_def)
  next
    case True
    then have m: "m < 32" by (simp add: abs_state_def)
    note ok = inv_mutex [OF inv m]
    note head = mutex_unlock_syscall_def Let_def mutex_invalid_eq [OF sz_d] agetI_mutex [OF sz m] get_cur_tcb_def
    have chain: "chain (ptr k) ?l (Q ?l)" using inv_listD(1) [OF inv, of ?l] m by simp
    then have first: "pSleep_queue (gtMutex k ! m) = (case Q ?l of [] \<Rightarrow> None | t # _ \<Rightarrow> Some t)"
      by (cases "Q ?l") (auto simp: ptr.simps)
    show ?thesis
    proof (cases "owner (abs_state k) m = Some c")
      case False
      then show ?thesis using wf True c m by (simp add: head spec_unlock_def wf_simps)
    next
      case own: True
      then have held: "bLock (gtMutex k ! m)" "pHolding_Tcb (gtMutex k ! m) = Some c"
        "\<not> bAvailable (gtMutex k ! m)"
        using ok m by (auto simp: mutex_ok_def wf_simps)
      show ?thesis
      proof (cases "Q ?l")
        case Nil
        let ?x = "(gtMutex k ! m)\<lparr>bLock := False, pHolding_Tcb := None\<rparr>"
        let ?k' = "?k\<lparr>gtMutex := (gtMutex ?k)[m := ?x]\<rparr>"
        have "kernel_inv ?k' Q"
          by (rule inv_set_mutex [OF inv_d m]) (use held Nil in \<open>auto simp: mutex_ok_def\<close>)
        then have wf': "kernel_wf (enable_interrupts ?k')" using c by (auto simp: kernel_wf_def)
        have "abs_state ?k' = (abs_state k)\<lparr>owner := (owner (abs_state k))(m := None)\<rparr>"
          using abs_set_mutex [OF sz_d m, of ?x] held True m by (simp add: abs_state_def fun_eq_iff)
        moreover have "waiting (abs_state k) ?l = []" using Nil inv m by (simp add: wf_simps)
        ultimately show ?thesis
          using wf' own held True c m first Nil sz
          by (simp add: head spec_unlock_def spec_wake_def wf_simps)
      next
        case (Cons t ts)
        have t: "t < 64" "t \<notin> set ts"
          using inv_listD [OF inv, of ?l] m Cons by auto
        obtain k1 where k1: "sleep_wake ?l t ?k = Some k1" "kernel_inv k1 (Q(?l := ts))"
            "same_but_lists ?k k1" "ready (kq k1) = (ready (kq k))(t \<mapsto> t)"
            "abs_state k1 = spec_wake ?l (abs_state k)"
          using inv_wake [OF inv_d, of ?l t ts] m Cons by auto
        let ?x = "(gtMutex k1 ! m)\<lparr>pHolding_Tcb := Some t\<rparr>"
        let ?k' = "k1\<lparr>gtMutex := (gtMutex k1)[m := ?x]\<rparr>"
        have flags: "bLock (gtMutex k1 ! m)" "\<not> bAvailable (gtMutex k1 ! m)"
          using k1(3) held by (simp_all add: same_but_lists_def)
        have cur1: "cur_tcb k1 = Some c" using k1(3) c by (simp add: same_but_lists_def)
        have "kernel_inv ?k' (Q(?l := ts))"
          by (rule inv_set_mutex [OF k1(2) m]) (use flags t in \<open>auto simp: mutex_ok_def\<close>)
        then have wf': "kernel_wf (enable_interrupts ?k')"
          using c k1(4) cur1 by (auto simp: kernel_wf_def)
        have wt: "waiting (abs_state k) ?l = t # ts" using Cons inv m by (simp add: wf_simps)
        have "abs_state ?k' = (spec_wake ?l (abs_state k))\<lparr>owner := (owner (abs_state k))(m \<mapsto> t)\<rparr>"
          using abs_set_mutex [OF kernel_invD(1) [OF k1(2)] m, of ?x] flags True k1(5) wt
          by (simp add: spec_wake_def fun_eq_iff)
        then show ?thesis
          using wf' own held True c m first Cons wt handover_eq [OF sz_d m k1(1) t(1)]
          by (simp add: head spec_unlock_def wf_simps)
      qed
    qed
  qed
qed

section \<open>Creating and initialising\<close>

lemma mutex_init_eq:
  assumes "length (gtMutex k) = 32"
  shows "mutex_init k = Some (k\<lparr>gtMutex := replicate 32
    \<lparr>bAvailable = True, pHolding_Tcb = None, bLock = False, pSleep_queue = None\<rparr>\<rparr>)"
proof -
  let ?x = "\<lparr>bAvailable = True, pHolding_Tcb = None, bLock = False, pSleep_queue = None\<rparr> :: mutex"
  have "for_range 0 32 (\<lambda>index k. do { ms \<leftarrow> aset (gtMutex k) index ?x; Some (k\<lparr>gtMutex := ms\<rparr>) })
      (k\<lparr>gtMutex := gtMutex k\<rparr>) = Some (k\<lparr>gtMutex := map (\<lambda>_. ?x) [0..<32]\<rparr>)"
    by (rule for_range_fill [where U = "\<lambda>ms. k\<lparr>gtMutex := ms\<rparr>"]) (use assms in simp_all)
  then show ?thesis by (simp add: mutex_init_def map_replicate_const)
qed

text \<open>The loop takes the first free mutex from \<open>i\<close> on.\<close>

lemma mutex_create_loop_eq:
  assumes "length (gtMutex k) = 32" "i \<le> 32"
  shows "mutex_create_loop i k = Some (case filter (\<lambda>m. bAvailable (gtMutex k ! m)) [i..<32] of
     [] \<Rightarrow> (Return (- ENOMEM), k)
   | m # _ \<Rightarrow> (Return (of_nat m),
       k\<lparr>gtMutex := (gtMutex k)[m := (gtMutex k ! m)\<lparr>bAvailable := False\<rparr>]\<rparr>))"
  using assms(2)
proof (induction "32 - i" arbitrary: i)
  case 0
  then show ?case by (simp add: mutex_create_loop.simps)
next
  case (Suc d)
  then have i: "i < 32" "[i..<32] = i # [Suc i..<32]" by (simp_all add: upt_conv_Cons)
  with Suc.hyps(1)[of "Suc i"] Suc.hyps(2) assms(1) show ?case
    by (subst mutex_create_loop.simps) simp
qed

lemma mutex_create_wf:
  assumes wf: "kernel_wf k"
  shows "\<exists>out k'. mutex_create_syscall k = Some (out, k') \<and> kernel_wf k' \<and>
    spec_create (abs_state k) = (out, abs_state k')"
proof -
  have len: "length (gtMutex k) = 32" using wf by (auto simp: kernel_wf_def wf_simps dest: kernel_invD)
  have avail: "filter (\<lambda>m. \<not> created (abs_state k) m) [0..<32] = filter (\<lambda>m. bAvailable (gtMutex k ! m)) [0..<32]"
    by (rule filter_cong) (auto simp: abs_state_def)
  then show ?thesis
  proof (cases "filter (\<lambda>m. bAvailable (gtMutex k ! m)) [0..<32]")
    case Nil
    then show ?thesis
      using mutex_create_loop_eq [OF len, of 0] wf avail
      by (simp add: mutex_create_syscall_def spec_create_def)
  next
    case (Cons m ms)
    then have "m \<in> set (filter (\<lambda>m. bAvailable (gtMutex k ! m)) [0..<32])" by simp
    then have m: "m < 32" "bAvailable (gtMutex k ! m)" by auto
    let ?k = "k\<lparr>gtMutex := (gtMutex k)[m := (gtMutex k ! m)\<lparr>bAvailable := False\<rparr>]\<rparr>"
    have "kernel_wf ?k \<and> abs_state ?k = (abs_state k)\<lparr>created := (created (abs_state k))(m := True)\<rparr>"
    proof
      obtain Q c where inv: "kernel_inv k Q" and c: "cur_tcb k = Some c" "ready (kq k) c = Some c"
        using wf by (auto simp: kernel_wf_def)
      have "mutex_ok ((gtMutex k ! m)\<lparr>bAvailable := False\<rparr>) (Q (Mutex_head m))"
        using inv_mutex [OF inv m(1)] by (simp add: mutex_ok_def)
      then have "kernel_inv ?k Q" by (intro inv_set_mutex [OF inv m(1)]) simp_all
      with c show "kernel_wf ?k" by (auto simp: kernel_wf_def)
      show "abs_state ?k = (abs_state k)\<lparr>created := (created (abs_state k))(m := True)\<rparr>"
        using kernel_invD(1) [OF inv] m by (simp add: abs_set_mutex) (simp add: abs_state_def fun_eq_iff)
    qed
    then show ?thesis
      using mutex_create_loop_eq [OF len, of 0] wf avail Cons
      by (simp add: mutex_create_syscall_def spec_create_def)
  qed
qed

text \<open>A negative mutex number passes the range check and reads outside of the array.\<close>

lemma mutex_negative: "m < 0 \<Longrightarrow> mutex_lock_syscall m k = None" "m < 0 \<Longrightarrow> mutex_unlock_syscall m k = None"
  by (simp_all add: mutex_lock_syscall_def mutex_unlock_syscall_def mutex_invalid_def agetI_def Let_def)

end
