(* ===== verification/Device.thy ===== *)
theory Device
  imports Mutex
begin

text \<open>
  kernel/device.c and \<open>event_wait_syscall\<close> of kernel/syscall/proc.c: the simulated periodic
  devices. Tasks sleep on a device until the timer tick that equals its next match value.
\<close>

section \<open>The code\<close>

definition dev_freq :: "u32 list" where
  "dev_freq = [100, 200, 500, 50] @ replicate 59 0"

definition dev_init :: "kernel \<Rightarrow> kernel option" where
  "dev_init = for_range 0 NUM_DEVICES (\<lambda>i k. do {
     f \<leftarrow> aget dev_freq i;
     ds \<leftarrow> aset (devices k) i \<lparr>dev_sleep_queue = None, next_match = system_time k + f\<rparr>;
     Some (k\<lparr>devices := ds\<rparr>) })"

definition dev_wait :: "nat \<Rightarrow> kernel \<Rightarrow> kernel option" where
  "dev_wait d k = sleep_enqueue (Dev_head d) (Dev_head d) k \<bind> dispatch_sleep"

text \<open>The inner loop of \<open>dev_update\<close>; \<open>flag\<close> records that a task was woken.\<close>

partial_function (option) dev_wake_loop :: "nat \<Rightarrow> bool \<Rightarrow> kernel \<Rightarrow> (bool \<times> kernel) option" where
  "dev_wake_loop i flag k =
     (load (Dev_head i) k \<bind> (\<lambda>p. case p of
        None \<Rightarrow> Some (flag, k)
      | Some old_header \<Rightarrow> sleep_wake (Dev_head i) old_header k \<bind> dev_wake_loop i True))"

definition dev_update :: "u32 \<Rightarrow> kernel \<Rightarrow> kernel option" where
  "dev_update millis k = do {
     (flag, k) \<leftarrow> for_range 0 NUM_DEVICES (\<lambda>i (flag, k). do {
         x \<leftarrow> aget (devices k) i;
         if millis = next_match x then do {
           f \<leftarrow> aget dev_freq i;
           ds \<leftarrow> aset (devices k) i (x\<lparr>next_match := next_match x + f\<rparr>);
           dev_wake_loop i flag (k\<lparr>devices := ds\<rparr>) }
         else Some (flag, k) }) (False, k);
     if flag then dispatch_save k else Some k }"

text \<open>
  \<open>dev\<close> is unsigned, so the test \<open>dev > NUM_DEVICES - 1\<close> rejects every value out of range. The
  task returns 0 when it is switched to again.
\<close>

definition event_wait_syscall :: "u32 \<Rightarrow> kernel \<Rightarrow> (outcome \<times> kernel) option" where
  "event_wait_syscall dev k0 =
     (if dev > of_nat NUM_DEVICES - 1 then Some (Return EINVAL, k0)
      else do {
        k \<leftarrow> dev_wait (unat dev) k0;
        Some (if cur_tcb k = cur_tcb k0 then Return 0 else Switched, k) })"

section \<open>The abstract behaviour\<close>

definition spec_event_wait :: "nat \<Rightarrow> sched_spec \<Rightarrow> outcome \<times> sched_spec" where
  "spec_event_wait d s =
     (if NUM_DEVICES \<le> d then (Return EINVAL, s)
      else (Switched, spec_dispatch (spec_sleep (Dev_head d) s)))"

text \<open>Everything that sleeps on the devices \<open>D\<close> wakes, and if that is anything, the best task runs.\<close>

definition spec_signal :: "nat set \<Rightarrow> sched_spec \<Rightarrow> sched_spec" where
  "spec_signal D s =
     (let woken = (\<Union>d\<in>D. set (waiting s (Dev_head d)));
          s' = s\<lparr>runnable := runnable s \<union> woken,
                 waiting := (\<lambda>l. if l \<in> Dev_head ` D then [] else waiting s l)\<rparr>
      in if woken = {} then s' else spec_dispatch s')"

section \<open>Sleeping on a device\<close>

lemma dev_wait_wf:
  assumes wf: "kernel_wf k" and d: "d < 63" and idle: "cur_tcb k \<noteq> Some IDLE_PRIO"
  shows "\<exists>k'. dev_wait d k = Some k' \<and> kernel_wf k' \<and> cur_tcb k' \<noteq> cur_tcb k \<and>
    abs_state k' = spec_dispatch (spec_sleep (Dev_head d) (abs_state k)) \<and>
    system_time k' = system_time k \<and> (\<forall>i. next_match (devices k' ! i) = next_match (devices k ! i))"
proof -
  obtain Q c where inv: "kernel_inv k Q" and c: "cur_tcb k = Some c" "ready (kq k) c = Some c"
    using wf by (auto simp: kernel_wf_def)
  obtain k1 where k1: "sleep_enqueue (Dev_head d) (Dev_head d) k = Some k1"
      "kernel_inv k1 (Q(Dev_head d := Q (Dev_head d) @ [c]))" "ready (kq k1) = (ready (kq k))(c := None)"
      "abs_state k1 = spec_sleep (Dev_head d) (abs_state k)"
      "system_time k1 = system_time k" "\<forall>i. next_match (devices k1 ! i) = next_match (devices k ! i)"
    using inv_sleep [OF inv c, of "Dev_head d"] idle d by (auto simp: same_but_lists_def)
  obtain k2 where k2: "dispatch_save k1 = Some k2" "kernel_wf k2"
      "cur_tcb k2 = Some (Min (dom (ready (kq k1))))" "abs_state k2 = spec_dispatch (abs_state k1)"
      "system_time k2 = system_time k1" "devices k2 = devices k1"
    using inv_dispatch [OF k1(2)] by (auto simp: same_but_dispatch_def)
  have "cur_tcb k2 \<noteq> cur_tcb k"
    using inv_Min(2) [OF k1(2)] k2(3) k1(3) c(1) by (auto split: if_splits)
  with k1 k2 show ?thesis by (simp add: dev_wait_def dispatch_sleep_eq)
qed

lemma event_wait_wf:
  assumes "kernel_wf k" "cur_tcb k \<noteq> Some IDLE_PRIO"
  shows "\<exists>out k'. event_wait_syscall d k = Some (out, k') \<and> kernel_wf k' \<and>
    spec_event_wait (unat d) (abs_state k) = (out, abs_state k') \<and>
    system_time k' = system_time k \<and> (\<forall>i. next_match (devices k' ! i) = next_match (devices k ! i))"
proof (cases "unat d < 63")
  case True
  then have "\<not> d > 62" by (simp add: word_less_nat_alt)
  with dev_wait_wf [OF assms(1) True assms(2)] True show ?thesis
    by (auto simp: event_wait_syscall_def spec_event_wait_def)
next
  case False
  then have "d > 62" by (simp add: word_less_nat_alt)
  with False assms(1) show ?thesis by (simp add: event_wait_syscall_def spec_event_wait_def)
qed

section \<open>Signalling\<close>

lemma load_dev_head:
  assumes "has_inv k" "i < 63"
  shows "load (Dev_head i) k = Some (case lists_of k (Dev_head i) of [] \<Rightarrow> None | t # _ \<Rightarrow> Some t)"
proof -
  obtain Q where inv: "kernel_inv k Q" using assms(1) by (auto simp: has_inv_def)
  have "chain (ptr k) (Dev_head i) (Q (Dev_head i))" using inv_listD(1) [OF inv] assms(2) by simp
  moreover have "load (Dev_head i) k = Some (ptr k (Dev_head i))"
    by (rule load_ptr) (use kernel_invD(1) [OF inv] assms(2) in simp_all)
  ultimately show ?thesis
    using lists_of_inv [OF inv, of "Dev_head i"] assms(2) by (cases "Q (Dev_head i)") auto
qed

lemma dev_wake_loop_wf:
  assumes "has_inv k" "i < 63"
  shows "\<exists>k'. dev_wake_loop i flag k = Some (flag \<or> lists_of k (Dev_head i) \<noteq> [], k') \<and> has_inv k' \<and>
    same_but_lists k k' \<and> lists_of k' = (lists_of k)(Dev_head i := []) \<and>
    dom (ready (kq k')) = dom (ready (kq k)) \<union> set (lists_of k (Dev_head i))"
proof -
  have "\<exists>k'. dev_wake_loop i flag k =
      Some (((\<lambda>_. True) ^^ length (lists_of k (Dev_head i))) flag, k') \<and> has_inv k' \<and>
    same_but_lists k k' \<and> lists_of k' = (lists_of k)(Dev_head i := []) \<and>
    dom (ready (kq k')) = dom (ready (kq k)) \<union> set (lists_of k (Dev_head i))"
  proof (rule wl.drain)
    show "dev_wake_loop i b k = (case lists_of k (Dev_head i) of [] \<Rightarrow> Some (b, k)
        | t # _ \<Rightarrow> sleep_wake (Dev_head i) t k \<bind> dev_wake_loop i True)" if "has_inv k" for b k
      using load_dev_head [OF that assms(2)]
      by (subst dev_wake_loop.simps) (simp split: list.split del: load.simps)
  qed (use assms in simp_all)
  moreover have "((\<lambda>_. True) ^^ n) flag = (flag \<or> 0 < n)" for n by (cases n) auto
  ultimately show ?thesis by auto
qed

text \<open>Moving the next match value of a device changes nothing else.\<close>

lemma set_next_match:
  fixes k i v
  defines "k' \<equiv> k\<lparr>devices := (devices k)[i := (devices k ! i)\<lparr>next_match := v\<rparr>]\<rparr>"
  shows "ptr k' = ptr k" "has_inv k' = has_inv k" "lists_of k' = lists_of k" "abs_state k' = abs_state k"
proof -
  show p: "ptr k' = ptr k"
    unfolding k'_def by (rule ext, case_tac x) (simp_all add: ptr.simps, rule update_keeps, simp)
  show "has_inv k' = has_inv k"
    using p by (simp add: has_inv_def kernel_inv_def sized_def k'_def)
  have "queue k' = queue k" by (rule ext) (simp add: queue_def p)
  then show "lists_of k' = lists_of k" "abs_state k' = abs_state k"
    by (simp_all add: lists_of_def abs_state_def k'_def fun_eq_iff cong: if_cong)
qed

lemma abs_state_frame:
  "same_but_lists k k' \<Longrightarrow> abs_state k' = (abs_state k)\<lparr>runnable := dom (ready (kq k')), waiting := lists_of k'\<rparr>"
  by (auto simp: abs_state_def lists_of_def same_but_lists_def fun_eq_iff)

lemma length_dev_freq [simp]: "length dev_freq = 63"
  by (simp add: dev_freq_def)

lemma has_inv_sized: "has_inv k \<Longrightarrow> sized k"
  by (auto simp: has_inv_def dest: kernel_invD)

text \<open>The devices that a tick matches, and the invariant of the loop over them.\<close>

definition matching :: "u32 \<Rightarrow> kernel \<Rightarrow> nat set" where
  "matching millis k = {d. d < NUM_DEVICES \<and> next_match (devices k ! d) = millis}"

definition update_loop_inv :: "u32 \<Rightarrow> kernel \<Rightarrow> nat \<Rightarrow> bool \<times> kernel \<Rightarrow> bool" where
  "update_loop_inv millis k i = (\<lambda>(flag, k').
     let D = {d \<in> matching millis k. d < i}; W = (\<Union>d\<in>D. set (lists_of k (Dev_head d))) in
     has_inv k' \<and> (flag \<longleftrightarrow> W \<noteq> {}) \<and> cur_tcb k' = cur_tcb k \<and> system_time k' = system_time k \<and>
     regs k' = regs k \<and>
     (\<forall>d<63. next_match (devices k' ! d) =
        (if d \<in> D then millis + dev_freq ! d else next_match (devices k ! d))) \<and>
     abs_state k' = (abs_state k)\<lparr>runnable := runnable (abs_state k) \<union> W,
       waiting := (\<lambda>l. if l \<in> Dev_head ` D then [] else waiting (abs_state k) l)\<rparr>)"

lemma update_loop_step:
  assumes i: "i < 63" and inv: "update_loop_inv millis k i (flag, k1)"
  shows "\<exists>s. (do {
      x \<leftarrow> aget (devices k1) i;
      if millis = next_match x then do {
        f \<leftarrow> aget dev_freq i;
        ds \<leftarrow> aset (devices k1) i (x\<lparr>next_match := next_match x + f\<rparr>);
        dev_wake_loop i flag (k1\<lparr>devices := ds\<rparr>) }
      else Some (flag, k1) }) = Some s \<and> update_loop_inv millis k (Suc i) s"
proof -
  let ?D = "{d \<in> matching millis k. d < i}"
  have hi: "has_inv k1" and len: "length (devices k1) = 63"
    using inv has_inv_sized [of k1] by (auto simp: update_loop_inv_def Let_def wf_simps)
  have nm: "next_match (devices k1 ! i) = next_match (devices k ! i)"
    using inv i by (simp add: update_loop_inv_def Let_def)
  show ?thesis
  proof (cases "millis = next_match (devices k ! i)")
    case False
    then have "{d \<in> matching millis k. d < Suc i} = ?D"
      using less_Suc_eq by (auto simp: matching_def)
    with False inv nm len i show ?thesis by (simp add: update_loop_inv_def)
  next
    case True
    then have D: "{d \<in> matching millis k. d < Suc i} = insert i ?D"
      using i by (auto simp: matching_def less_Suc_eq)
    define k2 where "k2 = k1\<lparr>devices := (devices k1)[i := (devices k1 ! i)\<lparr>next_match := millis + dev_freq ! i\<rparr>]\<rparr>"
    have k2: "has_inv k2" "lists_of k2 = lists_of k1" "abs_state k2 = abs_state k1"
      using hi unfolding k2_def by (simp_all add: set_next_match)
    obtain k3 where k3: "dev_wake_loop i flag k2 = Some (flag \<or> lists_of k1 (Dev_head i) \<noteq> [], k3)"
        "has_inv k3" "same_but_lists k2 k3" "lists_of k3 = (lists_of k1)(Dev_head i := [])"
        "dom (ready (kq k3)) = dom (ready (kq k1)) \<union> set (lists_of k1 (Dev_head i))"
      using dev_wake_loop_wf [OF k2(1) i, of flag] k2(2) by (auto simp: k2_def)
    let ?W = "\<Union>d\<in>?D. set (lists_of k (Dev_head d))"
    have k1: "flag \<longleftrightarrow> ?W \<noteq> {}" "cur_tcb k1 = cur_tcb k" "system_time k1 = system_time k"
        "\<forall>d<63. next_match (devices k1 ! d) =
          (if d \<in> ?D then millis + dev_freq ! d else next_match (devices k ! d))"
        "abs_state k1 = (abs_state k)\<lparr>runnable := runnable (abs_state k) \<union> ?W,
          waiting := (\<lambda>l. if l \<in> Dev_head ` ?D then [] else waiting (abs_state k) l)\<rparr>"
      using inv by (simp_all add: update_loop_inv_def Let_def)
    have l1: "lists_of k1 = (\<lambda>l. if l \<in> Dev_head ` ?D then [] else lists_of k l)"
      unfolding lists_of_abs k1(5) by simp
    have here: "lists_of k1 (Dev_head i) = lists_of k (Dev_head i)"
      unfolding l1 by auto
    have l3: "lists_of k3 = (\<lambda>l. if l \<in> Dev_head ` insert i ?D then [] else lists_of k l)"
      unfolding k3(4) l1 by auto
    have W: "(\<Union>d\<in>insert i ?D. set (lists_of k (Dev_head d))) = ?W \<union> set (lists_of k (Dev_head i))"
      by blast
    have "runnable (abs_state k1) = dom (ready (kq k1))" by (simp add: abs_state_def)
    moreover have "runnable (abs_state k1) = runnable (abs_state k) \<union> ?W" unfolding k1(5) by simp
    ultimately have r3: "dom (ready (kq k3)) = runnable (abs_state k) \<union> (?W \<union> set (lists_of k (Dev_head i)))"
      unfolding k3(5) here by (metis Un_assoc)
    have "abs_state k3 = (abs_state k1)\<lparr>runnable := dom (ready (kq k3)), waiting := lists_of k3\<rparr>"
      using abs_state_frame [OF k3(3)] k2(3) by simp
    then have a3: "abs_state k3 = (abs_state k)\<lparr>runnable := runnable (abs_state k) \<union> (?W \<union> set (lists_of k (Dev_head i))),
        waiting := (\<lambda>l. if l \<in> Dev_head ` insert i ?D then [] else waiting (abs_state k) l)\<rparr>"
      unfolding k1(5) r3 l3 unfolding lists_of_abs by simp
    have n3: "\<forall>d<63. next_match (devices k3 ! d) =
        (if d \<in> insert i ?D then millis + dev_freq ! d else next_match (devices k ! d))"
      using k3(3) k1(4) len i by (simp add: same_but_lists_def k2_def nth_list_update)
    have c3: "cur_tcb k3 = cur_tcb k" "system_time k3 = system_time k" "regs k3 = regs k"
      using k3(3) k1(2,3) inv by (simp_all add: same_but_lists_def k2_def update_loop_inv_def Let_def)
    have f3: "(flag \<or> lists_of k1 (Dev_head i) \<noteq> []) \<longleftrightarrow> ?W \<union> set (lists_of k (Dev_head i)) \<noteq> {}"
      using k1(1) here by simp
    have "update_loop_inv millis k (Suc i) (flag \<or> lists_of k1 (Dev_head i) \<noteq> [], k3)"
      unfolding update_loop_inv_def Let_def D W prod.case
      by (intro conjI k3(2) f3 c3 n3 a3)
    then show ?thesis using k3(1) True nm len i by (auto simp: k2_def)
  qed
qed

text \<open>
  A tick wakes everybody who waits on a matching device, moves the match values of these devices
  by their period, and dispatches exactly if somebody woke.
\<close>

lemma dev_update_loop:
  assumes hi: "has_inv k"
  obtains flag k1 where "dev_update millis k = (if flag then dispatch_save k1 else Some k1)"
    "update_loop_inv millis k 63 (flag, k1)"
proof -
  have "update_loop_inv millis k 0 (False, k)"
    using hi by (simp add: update_loop_inv_def Let_def)
  then have "\<exists>s. for_range 0 63 (\<lambda>i (flag, k1). do {
      x \<leftarrow> aget (devices k1) i;
      if millis = next_match x then do {
        f \<leftarrow> aget dev_freq i;
        ds \<leftarrow> aset (devices k1) i (x\<lparr>next_match := next_match x + f\<rparr>);
        dev_wake_loop i flag (k1\<lparr>devices := ds\<rparr>) }
      else Some (flag, k1) }) (False, k) = Some s \<and> update_loop_inv millis k 63 s"
  proof (rule for_range_inv [where P = "update_loop_inv millis k"])
    fix j t
    assume "j < (63::nat)" "update_loop_inv millis k j t"
    then show "\<exists>t'. (case t of (flag, k1) \<Rightarrow> do {
      x \<leftarrow> aget (devices k1) j;
      if millis = next_match x then do {
        f \<leftarrow> aget dev_freq j;
        ds \<leftarrow> aset (devices k1) j (x\<lparr>next_match := next_match x + f\<rparr>);
        dev_wake_loop j flag (k1\<lparr>devices := ds\<rparr>) }
      else Some (flag, k1) }) = Some t' \<and> update_loop_inv millis k (Suc j) t'"
      using update_loop_step [of j millis k] by (cases t) simp
  qed simp_all
  then show thesis by (auto simp: dev_update_def intro: that)
qed

text \<open>The loop makes the waiting tasks of the matching devices ready.\<close>

lemma update_loop_result:
  assumes "update_loop_inv millis k 63 (flag, k1)"
  shows "has_inv k1" "cur_tcb k1 = cur_tcb k" "system_time k1 = system_time k" "regs k1 = regs k"
    "flag \<longleftrightarrow> (\<Union>d\<in>matching millis k. set (lists_of k (Dev_head d))) \<noteq> {}"
    "runnable (abs_state k1) = runnable (abs_state k) \<union> (\<Union>d\<in>matching millis k. set (lists_of k (Dev_head d)))"
    "\<forall>d<63. next_match (devices k1 ! d) = next_match (devices k ! d) +
       (if next_match (devices k ! d) = millis then dev_freq ! d else 0)"
    "spec_signal (matching millis k) (abs_state k) = (if flag then spec_dispatch (abs_state k1) else abs_state k1)"
proof -
  have D: "{d \<in> matching millis k. d < 63} = matching millis k" by (auto simp: matching_def)
  note inv = assms [unfolded update_loop_inv_def Let_def D prod.case]
  from inv show "has_inv k1" "cur_tcb k1 = cur_tcb k" "system_time k1 = system_time k" "regs k1 = regs k"
    "flag \<longleftrightarrow> (\<Union>d\<in>matching millis k. set (lists_of k (Dev_head d))) \<noteq> {}"
    "runnable (abs_state k1) = runnable (abs_state k) \<union> (\<Union>d\<in>matching millis k. set (lists_of k (Dev_head d)))"
    by simp_all
  show "\<forall>d<63. next_match (devices k1 ! d) = next_match (devices k ! d) +
       (if next_match (devices k ! d) = millis then dev_freq ! d else 0)"
    using inv by (auto simp: matching_def)
  show "spec_signal (matching millis k) (abs_state k) = (if flag then spec_dispatch (abs_state k1) else abs_state k1)"
    using inv by (simp add: spec_signal_def Let_def lists_of_abs)
qed

text \<open>If it wakes anybody, the best task is dispatched; the current task need not be ready for that.\<close>

lemma dev_update_wakes:
  assumes hi: "has_inv k" and some: "d \<in> matching millis k" "waiting (abs_state k) (Dev_head d) \<noteq> []"
  shows "\<exists>k'. dev_update millis k = Some k' \<and> kernel_wf k' \<and>
    abs_state k' = spec_signal (matching millis k) (abs_state k) \<and>
    (\<forall>c. cur_tcb k = Some c \<longrightarrow> tcb_context (system_tcb k' ! c) = regs k) \<and>
    (cur_tcb k' = cur_tcb k \<longrightarrow> regs k' = regs k)"
proof -
  obtain flag k1 where loop: "dev_update millis k = (if flag then dispatch_save k1 else Some k1)"
      and inv: "update_loop_inv millis k 63 (flag, k1)"
    using dev_update_loop [OF hi] .
  note k1 = update_loop_result [OF inv]
  have flag: flag unfolding k1(5) using some by (auto simp: lists_of_abs)
  obtain Q where Q: "kernel_inv k1 Q" using k1(1) by (auto simp: has_inv_def)
  obtain k2 where k2: "dispatch_save k1 = Some k2" "kernel_wf k2" "abs_state k2 = spec_dispatch (abs_state k1)"
    using inv_dispatch [OF Q] by blast
  have "tcb_context (system_tcb k2 ! c) = regs k \<and> (cur_tcb k2 = Some c \<longrightarrow> regs k2 = regs k)" if "cur_tcb k = Some c" for c
  proof -
    have c: "cur_tcb k1 = Some c" "c < 64" using that k1(2) Q by (auto simp: kernel_inv_def)
    moreover have "length (system_tcb k1) = 64" using kernel_invD(1) [OF Q] by (simp add: sized_def)
    ultimately show ?thesis using dispatch_save_eq [OF Q c(1)] k2(1) k1(4) by (auto simp: nth_list_update)
  qed
  moreover obtain c where "cur_tcb k = Some c" using Q k1(2) by (auto simp: kernel_inv_def)
  ultimately show ?thesis using loop flag k2 k1(8) by (intro exI [of _ k2]) auto
qed

lemma dev_update_wf:
  assumes wf: "kernel_wf k"
  shows "\<exists>k'. dev_update millis k = Some k' \<and> kernel_wf k' \<and> system_time k' = system_time k \<and>
    abs_state k' = spec_signal (matching millis k) (abs_state k) \<and>
    (\<forall>d<63. next_match (devices k' ! d) = next_match (devices k ! d) +
       (if next_match (devices k ! d) = millis then dev_freq ! d else 0))"
proof -
  have hi: "has_inv k" using wf by (simp add: kernel_wf_iff)
  obtain flag k1 where loop: "dev_update millis k = (if flag then dispatch_save k1 else Some k1)"
      and inv: "update_loop_inv millis k 63 (flag, k1)"
    using dev_update_loop [OF hi] .
  note k1 = update_loop_result [OF inv]
  show ?thesis
  proof (cases flag)
    case True
    obtain Q where Q: "kernel_inv k1 Q" using k1(1) by (auto simp: has_inv_def)
    obtain k2 where k2: "dispatch_save k1 = Some k2" "kernel_wf k2" "same_but_dispatch k1 k2"
        "abs_state k2 = spec_dispatch (abs_state k1)"
      using inv_dispatch [OF Q] by blast
    then show ?thesis
      using loop True k1(3,7,8) by (simp add: same_but_dispatch_def)
  next
    case False
    then have "dom (ready (kq k1)) = dom (ready (kq k))"
      using k1(5,6) by (simp add: abs_state_def)
    moreover obtain Q where Q: "kernel_inv k1 Q" using k1(1) by (auto simp: has_inv_def)
    moreover obtain c where c: "cur_tcb k = Some c" "ready (kq k) c = Some c"
      using wf by (auto simp: kernel_wf_def)
    ultimately have "ready (kq k1) c = Some c"
      using inv_readyD(1) [OF Q, of c] by (metis domD domI)
    then have "kernel_wf k1" using Q c k1(2) by (auto simp: kernel_wf_def)
    then show ?thesis using loop False k1(3,7,8) by simp
  qed
qed

section \<open>Initialisation\<close>

lemma dev_init_eq:
  assumes "length (devices k) = 63"
  shows "dev_init k = Some (k\<lparr>devices :=
    map (\<lambda>f. \<lparr>dev_sleep_queue = None, next_match = system_time k + f\<rparr>) dev_freq\<rparr>)"
proof -
  let ?x = "\<lambda>i. \<lparr>dev_sleep_queue = None, next_match = system_time k + dev_freq ! i\<rparr>"
  have "for_range 0 63 (\<lambda>i k. do { f \<leftarrow> aget dev_freq i;
      ds \<leftarrow> aset (devices k) i \<lparr>dev_sleep_queue = None, next_match = system_time k + f\<rparr>;
      Some (k\<lparr>devices := ds\<rparr>) }) (k\<lparr>devices := devices k\<rparr>) = Some (k\<lparr>devices := map ?x [0..<63]\<rparr>)"
    by (rule for_range_fill [where U = "\<lambda>ds. k\<lparr>devices := ds\<rparr>"]) (use assms in simp_all)
  moreover have "map ?x [0..<63] = map (\<lambda>f. \<lparr>dev_sleep_queue = None, next_match = system_time k + f\<rparr>) dev_freq"
    by (rule nth_equalityI) simp_all
  ultimately show ?thesis by (simp add: dev_init_def)
qed

end
