(* ===== verification/Timer.thy ===== *)
theory Timer
  imports Device
begin

text \<open>
  kernel/irq.c and kernel/syscall/time.c: programming the timer and interrupt controller, the
  timer interrupt, and the two time calls; and what the ticks add up to: every device with a
  period is signalled exactly at the multiples of its period.
\<close>

section \<open>Memory mapped registers\<close>

text \<open>
  kernel/include/arm/reg.h. The state of the bus is the list of writes so far, oldest first. What a
  register reads as is up to the hardware: it is the parameter \<open>rd\<close> of \<open>reg_set\<close>.
\<close>

type_synonym bus = "(u32 \<times> u32) list"

definition PERIPHERAL_BASE :: u32 where [simp]: "PERIPHERAL_BASE = 0x40000000"
definition INT_ICMR_ADDR :: u32 where [simp]: "INT_ICMR_ADDR = 0x00D00004"
definition INT_ICLR_ADDR :: u32 where [simp]: "INT_ICLR_ADDR = 0x00D00008"
definition OSTMR_OSMR_ADDR :: "u32 \<Rightarrow> u32" where [simp]: "OSTMR_OSMR_ADDR x = 0x00A00000 + x * 4"
definition OSTMR_OSCR_ADDR :: u32 where [simp]: "OSTMR_OSCR_ADDR = 0x00A00010"
definition OSTMR_OSSR_ADDR :: u32 where [simp]: "OSTMR_OSSR_ADDR = 0x00A00014"
definition OSTMR_OIER_ADDR :: u32 where [simp]: "OSTMR_OIER_ADDR = 0x00A0001C"
definition OSTMR_OSSR_M0 :: u32 where [simp]: "OSTMR_OSSR_M0 = 1"
definition OSTMR_OIER_E0 :: u32 where [simp]: "OSTMR_OIER_E0 = 1"

definition reg_write :: "u32 \<Rightarrow> u32 \<Rightarrow> bus \<Rightarrow> bus" where
  "reg_write addr data b = b @ [(PERIPHERAL_BASE + addr, data)]"

definition reg_set :: "(u32 \<Rightarrow> u32) \<Rightarrow> u32 \<Rightarrow> u32 \<Rightarrow> bus \<Rightarrow> bus" where
  "reg_set rd addr flags b = b @ [(PERIPHERAL_BASE + addr, rd (PERIPHERAL_BASE + addr) OR flags)]"

section \<open>The code\<close>

definition irq_setup :: "bus \<Rightarrow> bus" where
  "irq_setup b0 =
     (let b = reg_write INT_ICMR_ADDR 0x04000000 b0;
          b = reg_write INT_ICLR_ADDR 0 b;
          b = reg_write OSTMR_OSCR_ADDR 0 b;
          b = reg_write (OSTMR_OSMR_ADDR 0) (FREQ_MS * SYSTIME_PRECISION) b;
          b = reg_write OSTMR_OIER_ADDR OSTMR_OIER_E0 b
      in reg_write OSTMR_OSSR_ADDR OSTMR_OSSR_M0 b)"

definition C_IRQ_Handler :: "(u32 \<Rightarrow> u32) \<Rightarrow> bus \<times> kernel \<Rightarrow> (bus \<times> kernel) option" where
  "C_IRQ_Handler rd = (\<lambda>(b, k).
     let k = k\<lparr>system_time := system_time k + 1\<rparr>;
         b = reg_write OSTMR_OSCR_ADDR 0 b;
         b = reg_set rd OSTMR_OSSR_ADDR 1 b
     in map_option (\<lambda>k. (b, k)) (dev_update (system_time k) k))"

definition time_syscall :: "kernel \<Rightarrow> u32" where
  "time_syscall k = system_time k"

text \<open>
  \<open>sleep_syscall\<close> spins with interrupts enabled while the timer interrupt advances
  \<open>system_time\<close>: \<open>clock n\<close> is the value that its \<open>n\<close>-th read of the variable finds. The result is
  the number of the read that ends the loop.
\<close>

partial_function (option) sleep_loop :: "(nat \<Rightarrow> u32) \<Rightarrow> u32 \<Rightarrow> nat \<Rightarrow> nat option" where
  "sleep_loop clock target n = (if target > clock n then sleep_loop clock target (Suc n) else Some n)"

definition sleep_syscall :: "(nat \<Rightarrow> u32) \<Rightarrow> u32 \<Rightarrow> nat option" where
  "sleep_syscall clock msec =
     (if msec = 0 then Some 0
      else let start_time = clock 0;
               target = (msec + SYSTIME_PRECISION * start_time) div SYSTIME_PRECISION
           in sleep_loop clock target 1)"

text \<open>The call up to the first test of its loop: it returns, or it spins until the target time.\<close>

definition sleep_enter :: "u32 \<Rightarrow> kernel \<Rightarrow> outcome" where
  "sleep_enter msec k =
     (if msec = 0 then Return 0
      else let start_time = system_time k;
               target = (msec + SYSTIME_PRECISION * start_time) div SYSTIME_PRECISION
           in if target > system_time k then Spin target else Return 0)"

section \<open>Sleeping\<close>

text \<open>The loop stops at the first read that reaches the target.\<close>

lemma sleep_loop_first:
  assumes "n \<le> m" "target \<le> clock m" "\<forall>i. n \<le> i \<longrightarrow> i < m \<longrightarrow> clock i < target"
  shows "sleep_loop clock target n = Some m"
  using assms
proof (induction "m - n" arbitrary: n)
  case 0
  then show ?case by (subst sleep_loop.simps) (simp add: leD)
next
  case (Suc d)
  then have "sleep_loop clock target (Suc n) = Some m" by simp
  with Suc.hyps(2) Suc.prems show ?case by (subst sleep_loop.simps) simp
qed

text \<open>Without overflow the target is the start time plus the number of whole ticks in \<open>msec\<close>.\<close>

lemma sleep_target:
  assumes "unat msec + 10 * unat start < 2 ^ 32"
  shows "unat ((msec + SYSTIME_PRECISION * start) div SYSTIME_PRECISION) = unat start + unat msec div 10"
proof -
  have "unat (10 * start) = 10 * unat start"
    using assms by (simp add: unat_word_ariths)
  then have "unat (msec + 10 * start) = unat msec + 10 * unat start"
    using assms by (simp add: unat_word_ariths)
  then show ?thesis by (simp add: unat_div)
qed

lemma sleep_syscall_first:
  assumes msec: "msec \<noteq> 0" and small: "unat msec + 10 * unat (clock 0) < 2 ^ 32"
    and m: "1 \<le> m" "unat (clock 0) + unat msec div 10 \<le> unat (clock m)"
    and before: "\<forall>i. 1 \<le> i \<longrightarrow> i < m \<longrightarrow> unat (clock i) < unat (clock 0) + unat msec div 10"
  shows "sleep_syscall clock msec = Some m"
  using msec m before sleep_target [OF small]
  by (simp add: sleep_syscall_def Let_def)
     (rule sleep_loop_first, simp_all add: word_le_nat_alt word_less_nat_alt)

section \<open>Ticks\<close>

lemma set_system_time:
  "ptr (k\<lparr>system_time := t\<rparr>) = ptr k" "kernel_wf (k\<lparr>system_time := t\<rparr>) = kernel_wf k"
  "abs_state (k\<lparr>system_time := t\<rparr>) = abs_state k" "matching m (k\<lparr>system_time := t\<rparr>) = matching m k"
proof -
  show p: "ptr (k\<lparr>system_time := t\<rparr>) = ptr k"
    by (rule ext, case_tac x) (simp_all add: ptr.simps)
  show "kernel_wf (k\<lparr>system_time := t\<rparr>) = kernel_wf k"
    by (simp add: kernel_wf_def kernel_inv_def sized_def p)
  show "abs_state (k\<lparr>system_time := t\<rparr>) = abs_state k"
    by (simp add: abs_state_def queue_def p fun_eq_iff cong: if_cong)
  show "matching m (k\<lparr>system_time := t\<rparr>) = matching m k" by (simp add: matching_def)
qed

lemma C_IRQ_Handler_wf:
  assumes "kernel_wf k"
  shows "\<exists>k'. C_IRQ_Handler rd (b, k) =
      Some (b @ [(0x40A00010, 0), (0x40A00014, rd 0x40A00014 OR 1)], k') \<and>
    kernel_wf k' \<and> system_time k' = system_time k + 1 \<and>
    abs_state k' = spec_signal (matching (system_time k + 1) k) (abs_state k) \<and>
    (\<forall>d<63. next_match (devices k' ! d) = next_match (devices k ! d) +
       (if next_match (devices k ! d) = system_time k + 1 then dev_freq ! d else 0))"
proof -
  let ?k = "k\<lparr>system_time := system_time k + 1\<rparr>"
  have "kernel_wf ?k" using assms by (simp add: set_system_time)
  from dev_update_wf [OF this, of "system_time k + 1"] show ?thesis
    by (auto simp: C_IRQ_Handler_def Let_def reg_write_def reg_set_def set_system_time)
qed

text \<open>\<open>n\<close> timer interrupts in a row.\<close>

fun ticks :: "(u32 \<Rightarrow> u32) \<Rightarrow> nat \<Rightarrow> bus \<times> kernel \<Rightarrow> (bus \<times> kernel) option" where
  "ticks rd 0 s = Some s"
| "ticks rd (Suc n) s = ticks rd n s \<bind> C_IRQ_Handler rd"

text \<open>The devices that tick \<open>n\<close> after their initialisation signals.\<close>

definition due :: "nat \<Rightarrow> nat set" where
  "due n = {d. d < NUM_DEVICES \<and>
     (if dev_freq ! d = 0 then 2 ^ 32 dvd n else unat (dev_freq ! d) dvd n)}"

text \<open>Where the match value of a device with period \<open>f\<close> stands after \<open>n\<close> ticks, as an offset.\<close>

definition next_offset :: "u32 \<Rightarrow> nat \<Rightarrow> nat" where
  "next_offset f n = (n div unat f + 1) * unat f"

lemma next_offset_step:
  fixes f :: u32
  shows "((of_nat (Suc n) :: u32) = of_nat (next_offset f n)) \<longleftrightarrow>
      (if f = 0 then 2 ^ 32 dvd Suc n else unat f dvd Suc n)"
    and "(of_nat (next_offset f (Suc n)) :: u32) =
      of_nat (next_offset f n) + (if (of_nat (Suc n) :: u32) = of_nat (next_offset f n) then f else 0)"
proof -
  let ?eq = "(of_nat (Suc n) :: u32) = of_nat (next_offset f n)"
  define F where "F = unat f"
  have word: "(of_nat (a + e) :: u32) = of_nat a \<longleftrightarrow> 2 ^ 32 dvd e" for a e
    using word_of_nat_eq_0_iff [where 'a = 32, of e] by simp
  have F: "F < 2 ^ 32" "f = 0 \<longleftrightarrow> F = 0"
    using unsigned_less [of f] by (auto simp: F_def unat_eq_0)
  have *: "(?eq \<longleftrightarrow> (if F = 0 then 2 ^ 32 dvd Suc n else F dvd Suc n)) \<and>
      (F \<noteq> 0 \<longrightarrow> next_offset f (Suc n) = next_offset f n + (if ?eq then F else 0))"
  proof (cases "F = 0")
    case True
    then show ?thesis using word [of 0 "Suc n"] by (simp add: next_offset_def F_def)
  next
    case False
    have "n < next_offset f n"
      using False dividend_less_times_div [of F n] by (simp add: next_offset_def F_def algebra_simps)
    moreover have "next_offset f n \<le> n + F"
      using div_times_less_eq_dividend [of n F] by (simp add: next_offset_def F_def algebra_simps)
    ultimately obtain e where e: "next_offset f n = Suc n + e" "e < F"
      using False less_iff_Suc_add [of n "next_offset f n"] by auto
    then have "2 ^ 32 dvd e \<longleftrightarrow> e = 0" using F(1) dvd_imp_le [of "2 ^ 32" e] by auto
    then have eq: "?eq \<longleftrightarrow> next_offset f n = Suc n" using word [of "Suc n" e] e(1) by auto
    have q: "Suc n div F = (if F dvd Suc n then n div F + 1 else n div F)"
      using False by (simp add: div_Suc dvd_eq_mod_eq_0)
    have "next_offset f n = Suc n \<longleftrightarrow> F dvd Suc n"
    proof
      assume "next_offset f n = Suc n"
      then show "F dvd Suc n" by (metis next_offset_def F_def dvd_triv_right)
    next
      assume "F dvd Suc n"
      then show "next_offset f n = Suc n"
        using q dvd_div_mult_self [of F "Suc n"] by (simp add: next_offset_def F_def [symmetric])
    qed
    then show ?thesis using False eq q by (simp add: next_offset_def F_def [symmetric])
  qed
  show "?eq \<longleftrightarrow> (if f = 0 then 2 ^ 32 dvd Suc n else unat f dvd Suc n)"
    using * F(2) by (simp add: F_def)
  show "(of_nat (next_offset f (Suc n)) :: u32) = of_nat (next_offset f n) + (if ?eq then f else 0)"
  proof (cases "F = 0")
    case True
    then show ?thesis using F(2) by (simp add: next_offset_def)
  next
    case False
    have "of_nat F = f" by (simp add: F_def)
    with * False show ?thesis by auto
  qed
qed

definition on_schedule :: "u32 \<Rightarrow> nat \<Rightarrow> kernel \<Rightarrow> bool" where
  "on_schedule t0 n k \<longleftrightarrow> system_time k = t0 + of_nat n \<and>
     (\<forall>d<63. next_match (devices k ! d) = t0 + of_nat (next_offset (dev_freq ! d) n))"

lemma on_schedule_matching:
  assumes "on_schedule t0 n k"
  shows "matching (system_time k + 1) k = due (Suc n)"
proof -
  have "next_match (devices k ! d) = system_time k + 1 \<longleftrightarrow>
      (if dev_freq ! d = 0 then 2 ^ 32 dvd Suc n else unat (dev_freq ! d) dvd Suc n)" if "d < 63" for d
  proof -
    have "next_match (devices k ! d) = system_time k + 1 \<longleftrightarrow>
        (of_nat (Suc n) :: u32) = of_nat (next_offset (dev_freq ! d) n)"
      using assms that by (auto simp: on_schedule_def add.commute add.left_commute)
    then show ?thesis using next_offset_step(1) [of n "dev_freq ! d"] by simp
  qed
  then show ?thesis by (auto simp: matching_def due_def)
qed

lemma tick_schedule:
  assumes wf: "kernel_wf k" and n: "on_schedule t0 n k" and tick: "C_IRQ_Handler rd (b, k) = Some (b', k')"
  shows "on_schedule t0 (Suc n) k' \<and> abs_state k' = spec_signal (due (Suc n)) (abs_state k)"
proof -
  have k': "system_time k' = system_time k + 1"
      "abs_state k' = spec_signal (matching (system_time k + 1) k) (abs_state k)"
      "\<forall>d<63. next_match (devices k' ! d) = next_match (devices k ! d) +
         (if next_match (devices k ! d) = system_time k + 1 then dev_freq ! d else 0)"
    using C_IRQ_Handler_wf [OF wf, of rd b] tick by auto
  have "next_match (devices k' ! d) = t0 + of_nat (next_offset (dev_freq ! d) (Suc n))" if "d < 63" for d
  proof -
    have "next_match (devices k ! d) = system_time k + 1 \<longleftrightarrow>
        (of_nat (Suc n) :: u32) = of_nat (next_offset (dev_freq ! d) n)"
      using n that by (auto simp: on_schedule_def add.commute add.left_commute)
    then show ?thesis
      using n k'(3) that next_offset_step(2) [of "dev_freq ! d" n]
      by (simp add: on_schedule_def add.assoc)
  qed
  then have "on_schedule t0 (Suc n) k'" using n k'(1) by (simp add: on_schedule_def)
  then show ?thesis using k'(2) on_schedule_matching [OF n] by simp
qed

lemma ticks_wf:
  assumes "kernel_wf k" "on_schedule t0 0 k"
  shows "\<exists>b' k'. ticks rd n (b, k) = Some (b', k') \<and> kernel_wf k' \<and> on_schedule t0 n k'"
proof (induction n)
  case 0
  then show ?case using assms by simp
next
  case (Suc n)
  then obtain b1 k1 where k1: "ticks rd n (b, k) = Some (b1, k1)" "kernel_wf k1" "on_schedule t0 n k1"
    by blast
  obtain b2 k2 where k2: "C_IRQ_Handler rd (b1, k1) = Some (b2, k2)" "kernel_wf k2"
    using C_IRQ_Handler_wf [OF k1(2)] by blast
  then show ?case using k1(1) tick_schedule [OF k1(2,3) k2(1)] by simp
qed

text \<open>What a waiter sees: the device table has four periods, the other devices have none.\<close>

lemma due_below_4:
  assumes "0 < n" "n < 2 ^ 32" "d \<in> due n"
  shows "d < 4"
proof (rule ccontr)
  assume "\<not> d < 4"
  moreover have "d < 63" using assms(3) by (simp add: due_def)
  ultimately have "dev_freq ! d = replicate 59 0 ! (d - 4)" "d - 4 < 59"
    by (simp_all add: dev_freq_def nth_append numeral_eq_Suc)
  then have "dev_freq ! d = 0" by (simp only: nth_replicate)
  then have "2 ^ 32 dvd n" using assms(3) by (simp add: due_def)
  then show False using assms(1,2) by (simp add: nat_dvd_not_less)
qed

lemma waiting_signal: "l \<notin> Dev_head ` D \<Longrightarrow> waiting (spec_signal D a) l = waiting a l"
  by (simp add: spec_signal_def Let_def spec_dispatch_def)

lemma ticks_keep_waiting:
  assumes "kernel_wf k" "on_schedule t0 0 k" "4 \<le> d" "n < 2 ^ 32"
  shows "\<exists>b' k'. ticks rd n (b, k) = Some (b', k') \<and> kernel_wf k' \<and> on_schedule t0 n k' \<and>
    waiting (abs_state k') (Dev_head d) = waiting (abs_state k) (Dev_head d)"
  using assms(4)
proof (induction n)
  case 0
  then show ?case using assms by simp
next
  case (Suc n)
  then obtain b1 k1 where k1: "ticks rd n (b, k) = Some (b1, k1)" "kernel_wf k1" "on_schedule t0 n k1"
      "waiting (abs_state k1) (Dev_head d) = waiting (abs_state k) (Dev_head d)" by auto
  obtain b2 k2 where k2: "C_IRQ_Handler rd (b1, k1) = Some (b2, k2)" "kernel_wf k2"
      "abs_state k2 = spec_signal (matching (system_time k1 + 1) k1) (abs_state k1)"
    using C_IRQ_Handler_wf [OF k1(2)] by blast
  have "d \<notin> due (Suc n)" using due_below_4 [of "Suc n" d] Suc.prems assms(3) by auto
  then have "waiting (abs_state k2) (Dev_head d) = waiting (abs_state k1) (Dev_head d)"
    unfolding k2(3) on_schedule_matching [OF k1(3)] by (intro waiting_signal) auto
  moreover have "ticks rd (Suc n) (b, k) = Some (b2, k2)" using k1(1) k2(1) by simp
  moreover have "on_schedule t0 (Suc n) k2"
    using ticks_wf [OF assms(1,2), of rd "Suc n" b] calculation(2) by auto
  ultimately show ?case using k1(4) k2(2) by auto
qed

end
