(* ===== verification/Sched.thy ===== *)
theory Sched
  imports Timer
begin

text \<open>
  kernel/sched/sched.c: clearing the task control blocks and setting them up for a sorted task
  set, with the task descriptor of kernel/include/task.h; the state it leaves satisfies the kernel
  invariant.
\<close>

section \<open>The code\<close>

record task =
  lambda :: u32
  data :: u32
  stack_pos :: u32
  task_C :: u32
  task_T :: u32

definition sched_init :: "kernel \<Rightarrow> kernel option" where
  "sched_init = for_range 0 OS_MAX_TASKS (\<lambda>index k. do {
     t \<leftarrow> aget (system_tcb k) index;
     ts \<leftarrow> aset (system_tcb k) index
       (t\<lparr>native_prio := 0, cur_prio := 0, tcb_context :=
          \<lparr>r4 = 0, r5 = 0, r6 = 0, r7 = 0, r8 = 0, r9 = 0, r10 = 0, r11 = 0, ctx_sp = 0, ctx_lr = 0\<rparr>\<rparr>);
     Some (k\<lparr>system_tcb := ts\<rparr>) })"

text \<open>The link addresses of \<open>launch_task\<close> and \<open>idle\<close> are the first two parameters.\<close>

definition task_context :: "u32 \<Rightarrow> nat \<Rightarrow> task \<Rightarrow> sched_context" where
  "task_context launch_task index t =
     \<lparr>r4 = lambda t, r5 = data t, r6 = stack_pos t, r7 = 0, r8 = 0, r9 = 0, r10 = 0, r11 = 0,
      ctx_sp = 0xa3800000 + of_nat index * 0x1000, ctx_lr = launch_task\<rparr>"

definition idle_context :: "u32 \<Rightarrow> u32 \<Rightarrow> sched_context" where
  "idle_context launch_task idle =
     \<lparr>r4 = idle, r5 = 0, r6 = 0, r7 = 0, r8 = 0, r9 = 0, r10 = 0, r11 = 0,
      ctx_sp = 0xa3800000 + of_nat IDLE_PRIO * 0x1000, ctx_lr = launch_task\<rparr>"

definition allocate_tasks :: "u32 \<Rightarrow> u32 \<Rightarrow> task list \<Rightarrow> nat \<Rightarrow> kernel \<Rightarrow> kernel option" where
  "allocate_tasks launch_task idle tasks num_tasks k0 = do {
     q \<leftarrow> runqueue_init (kq k0);
     k \<leftarrow> sched_init (k0\<lparr>kq := q\<rparr>);
     k \<leftarrow> for_range 0 num_tasks (\<lambda>index k. do {
         t \<leftarrow> aget tasks index;
         tcb \<leftarrow> aget (system_tcb k) index;
         ts \<leftarrow> aset (system_tcb k) index (tcb\<lparr>native_prio := of_nat index,
           cur_prio := of_nat index, tcb_context := task_context launch_task index t\<rparr>);
         k_runqueue_add (Some index) (native_prio (ts ! index)) (k\<lparr>system_tcb := ts\<rparr>) }) k;
     tcb \<leftarrow> aget (system_tcb k) IDLE_PRIO;
     ts \<leftarrow> aset (system_tcb k) IDLE_PRIO (tcb\<lparr>native_prio := of_nat IDLE_PRIO,
       cur_prio := of_nat IDLE_PRIO, tcb_context := idle_context launch_task idle\<rparr>);
     k \<leftarrow> k_runqueue_add (Some IDLE_PRIO) (native_prio (ts ! IDLE_PRIO)) (k\<lparr>system_tcb := ts\<rparr>);
     dispatch_nosave (dispatch_init IDLE_PRIO k) }"

section \<open>The state it builds\<close>

definition cleared_tcb :: "tcb \<Rightarrow> tcb" where
  "cleared_tcb t = t\<lparr>native_prio := 0, cur_prio := 0, tcb_context := zero_context\<rparr>"

definition task_tcb :: "u32 \<Rightarrow> nat \<Rightarrow> task \<Rightarrow> tcb \<Rightarrow> tcb" where
  "task_tcb launch_task i t tcb = tcb\<lparr>native_prio := of_nat i, cur_prio := of_nat i,
     tcb_context := task_context launch_task i t\<rparr>"

definition idle_tcb :: "u32 \<Rightarrow> u32 \<Rightarrow> tcb \<Rightarrow> tcb" where
  "idle_tcb launch_task idle tcb = tcb\<lparr>native_prio := of_nat IDLE_PRIO,
     cur_prio := of_nat IDLE_PRIO, tcb_context := idle_context launch_task idle\<rparr>"

definition new_tcbs :: "u32 \<Rightarrow> u32 \<Rightarrow> task list \<Rightarrow> nat \<Rightarrow> tcb list \<Rightarrow> tcb list" where
  "new_tcbs launch_task idle tasks num old = map (\<lambda>i.
     if i = IDLE_PRIO then idle_tcb launch_task idle (old ! i)
     else if i < num then task_tcb launch_task i (tasks ! i) (old ! i)
     else cleared_tcb (old ! i)) [0..<OS_MAX_TASKS]"

definition runq_sized :: "runq \<Rightarrow> bool" where
  "runq_sized q \<longleftrightarrow> length (run_list q) = OS_MAX_TASKS \<and> length (run_bits q) = 8"

lemma sched_init_eq:
  assumes "length (system_tcb k) = 64"
  shows "sched_init k = Some (k\<lparr>system_tcb := map cleared_tcb (system_tcb k)\<rparr>)"
proof -
  let ?P = "\<lambda>i s. s = k\<lparr>system_tcb := map cleared_tcb (take i (system_tcb k)) @ drop i (system_tcb k)\<rparr>"
  have "\<exists>s. sched_init k = Some s \<and> ?P 64 s"
    unfolding sched_init_def OS_MAX_TASKS_def
  proof (rule for_range_inv [where P = ?P])
    fix i s
    assume i: "i < (64::nat)" and s: "?P i s"
    have "drop i (system_tcb k) = (system_tcb k ! i) # drop (Suc i) (system_tcb k)"
      "take (Suc i) (system_tcb k) = take i (system_tcb k) @ [system_tcb k ! i]"
      using i assms by (simp_all add: Cons_nth_drop_Suc take_Suc_conv_app_nth)
    then show "\<exists>s'. (do {
       t \<leftarrow> aget (system_tcb s) i;
       ts \<leftarrow> aset (system_tcb s) i
         (t\<lparr>native_prio := 0, cur_prio := 0, tcb_context :=
            \<lparr>r4 = 0, r5 = 0, r6 = 0, r7 = 0, r8 = 0, r9 = 0, r10 = 0, r11 = 0, ctx_sp = 0, ctx_lr = 0\<rparr>\<rparr>);
       Some (s\<lparr>system_tcb := ts\<rparr>) }) = Some s' \<and> ?P (Suc i) s'"
      using i s assms by (simp add: nth_append list_update_append cleared_tcb_def zero_context_def)
  qed simp_all
  then show ?thesis using assms by simp
qed

lemma k_runqueue_add_law:
  assumes "rq_wf (kq k)" "p < 64"
  shows "\<exists>q. k_runqueue_add (Some t) (of_nat p) k = Some (k\<lparr>kq := q\<rparr>) \<and> rq_wf q \<and>
    ready q = (ready (kq k))(p \<mapsto> t)"
  using rq.add_law [OF assms(1), of p t] assms(2) by (auto simp: k_runqueue_add_def)

definition ready_upto :: "nat \<Rightarrow> nat \<Rightarrow> nat option" where
  "ready_upto n p = (if p < n then Some p else None)"

lemma allocate_loop:
  assumes len: "length (system_tcb k) = 64" "num \<le> 64" "num \<le> length tasks"
    and q: "rq_wf (kq k)" "ready (kq k) = Map.empty"
  shows "\<exists>k'. for_range 0 num (\<lambda>index k. do {
         t \<leftarrow> aget tasks index;
         tcb \<leftarrow> aget (system_tcb k) index;
         ts \<leftarrow> aset (system_tcb k) index (tcb\<lparr>native_prio := of_nat index,
           cur_prio := of_nat index, tcb_context := task_context launch_task index t\<rparr>);
         k_runqueue_add (Some index) (native_prio (ts ! index)) (k\<lparr>system_tcb := ts\<rparr>) }) k = Some k' \<and>
    (\<exists>q'. rq_wf q' \<and> ready q' = ready_upto num \<and>
      k' = k\<lparr>kq := q', system_tcb := map (\<lambda>i. task_tcb launch_task i (tasks ! i) (system_tcb k ! i)) [0..<num] @
        drop num (system_tcb k)\<rparr>)"
proof -
  let ?ts = "\<lambda>i. map (\<lambda>i. task_tcb launch_task i (tasks ! i) (system_tcb k ! i)) [0..<i] @ drop i (system_tcb k)"
  let ?P = "\<lambda>i s. \<exists>q'. rq_wf q' \<and> ready q' = ready_upto i \<and> s = k\<lparr>kq := q', system_tcb := ?ts i\<rparr>"
  show ?thesis
  proof (rule for_range_inv [where P = ?P])
    have "k = k\<lparr>kq := kq k, system_tcb := system_tcb k\<rparr>" by simp
    then show "?P 0 k" using q by (auto simp: ready_upto_def fun_eq_iff intro!: exI [of _ "kq k"])
  next
    fix i s
    assume i: "i < num" and "?P i s"
    then obtain q' where q': "rq_wf q'" "ready q' = ready_upto i" and s: "s = k\<lparr>kq := q', system_tcb := ?ts i\<rparr>"
      by blast
    have i64: "i < 64" using i len by simp
    obtain q'' where q'': "rq_wf q''" "ready q'' = (ready q')(i \<mapsto> i)"
        "\<And>k1. kq k1 = q' \<Longrightarrow> k_runqueue_add (Some i) (of_nat i) k1 = Some (k1\<lparr>kq := q''\<rparr>)"
      using rq.add_law [OF q'(1), of i i] i64 by (auto simp: k_runqueue_add_def)
    have r: "ready q'' = ready_upto (Suc i)"
      using q''(2) q'(2) by (auto simp: ready_upto_def fun_eq_iff)
    have upd: "(?ts i)[i := task_tcb launch_task i (tasks ! i) (system_tcb k ! i)] = ?ts (Suc i)"
      using i len by (simp add: list_update_append Cons_nth_drop_Suc [symmetric])
    have nth: "?ts i ! i = system_tcb k ! i" "length (?ts i) = 64"
      using i len by (simp_all add: nth_append)
    define ts' where "ts' = ?ts (Suc i)"
    let ?tcb = "(system_tcb k ! i)\<lparr>native_prio := of_nat i, cur_prio := of_nat i,
      tcb_context := task_context launch_task i (tasks ! i)\<rparr>"
    have get: "aget (system_tcb s) i = Some (system_tcb k ! i)" "aget tasks i = Some (tasks ! i)"
      using nth i i64 len by (simp_all add: s)
    have "aset (system_tcb s) i ?tcb = Some ((?ts i)[i := task_tcb launch_task i (tasks ! i) (system_tcb k ! i)])"
      using nth i64 by (simp add: s task_tcb_def)
    then have set: "aset (system_tcb s) i ?tcb = Some ts'" by (simp only: upd ts'_def)
    have np: "native_prio (ts' ! i) = of_nat i"
      unfolding ts'_def by (simp add: nth_append task_tcb_def)
    have add: "k_runqueue_add (Some i) (of_nat i) (s\<lparr>system_tcb := ts'\<rparr>) = Some (s\<lparr>system_tcb := ts', kq := q''\<rparr>)"
      using q''(3) [of "s\<lparr>system_tcb := ts'\<rparr>"] s by simp
    have "?P (Suc i) (s\<lparr>system_tcb := ts', kq := q''\<rparr>)"
      using q''(1) r unfolding ts'_def s by (intro exI [of _ q'']) simp
    moreover have "(do {
         t \<leftarrow> aget tasks i;
         tcb \<leftarrow> aget (system_tcb s) i;
         ts \<leftarrow> aset (system_tcb s) i (tcb\<lparr>native_prio := of_nat i,
           cur_prio := of_nat i, tcb_context := task_context launch_task i t\<rparr>);
         k_runqueue_add (Some i) (native_prio (ts ! i)) (s\<lparr>system_tcb := ts\<rparr>) }) =
       Some (s\<lparr>system_tcb := ts', kq := q''\<rparr>)"
      by (simp only: get set np add bind.bind_lunit)
    ultimately show "\<exists>s'. (do {
         t \<leftarrow> aget tasks i;
         tcb \<leftarrow> aget (system_tcb s) i;
         ts \<leftarrow> aset (system_tcb s) i (tcb\<lparr>native_prio := of_nat i,
           cur_prio := of_nat i, tcb_context := task_context launch_task i t\<rparr>);
         k_runqueue_add (Some i) (native_prio (ts ! i)) (s\<lparr>system_tcb := ts\<rparr>) }) = Some s' \<and> ?P (Suc i) s'"
      by blast
  qed simp
qed

lemma task_tcb_cleared [simp]:
  "task_tcb l i t (cleared_tcb x) = task_tcb l i t x" "idle_tcb l d (cleared_tcb x) = idle_tcb l d x"
  "idle_tcb l d (task_tcb l i t x) = idle_tcb l d x"
  by (simp_all add: task_tcb_def idle_tcb_def cleared_tcb_def)

lemma length_new_tcbs [simp]: "length (new_tcbs l d tasks num old) = 64"
  by (simp add: new_tcbs_def)

lemma nth_new_tcbs: "i < 64 \<Longrightarrow> new_tcbs l d tasks num old ! i =
    (if i = 63 then idle_tcb l d (old ! i) else if i < num then task_tcb l i (tasks ! i) (old ! i)
     else cleared_tcb (old ! i))"
  by (simp add: new_tcbs_def)

lemma new_tcbs_eq:
  assumes "length old = 64" "num \<le> 64"
  shows "(map (\<lambda>i. task_tcb l i (tasks ! i) (map cleared_tcb old ! i)) [0..<num] @
      drop num (map cleared_tcb old))[63 := idle_tcb l d (old ! 63)] = new_tcbs l d tasks num old"
    (is "?ts[63 := _] = _")
proof (rule nth_equalityI)
  show "length (?ts[63 := idle_tcb l d (old ! 63)]) = length (new_tcbs l d tasks num old)"
    using assms by simp
  fix i
  assume "i < length (?ts[63 := idle_tcb l d (old ! 63)])"
  then have "i < 64" using assms by simp
  then show "?ts[63 := idle_tcb l d (old ! 63)] ! i = new_tcbs l d tasks num old ! i"
    using assms by (auto simp: nth_new_tcbs nth_append nth_list_update)
qed

lemma Min_ready: "Min (dom ((ready_upto num)(63 \<mapsto> 63))) = (if num = 0 then 63 else 0)"
proof -
  have d: "dom ((ready_upto num)(63 \<mapsto> 63)) = insert 63 {..<num}" by (auto simp: ready_upto_def split: if_splits)
  have "Min (insert 63 {..<num}) = (if num = 0 then 63 else 0)"
    by (rule Min_eqI) (auto simp: lessThan_empty_iff)
  then show ?thesis using d by simp
qed

lemma allocate_tasks_eq:
  fixes launch_task idle :: u32 and tasks num k
  assumes len: "length (system_tcb k) = 64" "num \<le> 64" "num \<le> length tasks" and q: "runq_sized (kq k)"
  defines "h \<equiv> if num = 0 then IDLE_PRIO else 0" and "ts \<equiv> new_tcbs launch_task idle tasks num (system_tcb k)"
  shows "\<exists>q. rq_wf q \<and> ready q = (ready_upto num)(63 \<mapsto> 63) \<and>
    allocate_tasks launch_task idle tasks num k = Some (k\<lparr>kq := q, system_tcb := ts,
      cur_tcb := Some h, regs := tcb_context (ts ! h)\<rparr>)"
proof -
  let ?k1 = "k\<lparr>kq := empty_runq, system_tcb := map cleared_tcb (system_tcb k)\<rparr>"
  have 1: "runqueue_init (kq k) = Some empty_runq"
    using q by (simp add: runqueue_init_eq runq_sized_def)
  have 2: "sched_init (k\<lparr>kq := empty_runq\<rparr>) = Some ?k1"
    using len(1) by (simp add: sched_init_eq)
  let ?ts = "map (\<lambda>i. task_tcb launch_task i (tasks ! i) (map cleared_tcb (system_tcb k) ! i)) [0..<num] @
      drop num (map cleared_tcb (system_tcb k))"
  define ts2 where "ts2 = ?ts"
  define k2 where "k2 q' = k\<lparr>kq := q', system_tcb := ts2\<rparr>" for q'
  obtain k' q' where q': "rq_wf q'" "ready q' = ready_upto num"
    and 3: "for_range 0 num (\<lambda>index k. do {
         t \<leftarrow> aget tasks index;
         tcb \<leftarrow> aget (system_tcb k) index;
         ts \<leftarrow> aset (system_tcb k) index (tcb\<lparr>native_prio := of_nat index,
           cur_prio := of_nat index, tcb_context := task_context launch_task index t\<rparr>);
         k_runqueue_add (Some index) (native_prio (ts ! index)) (k\<lparr>system_tcb := ts\<rparr>) }) ?k1 = Some (k2 q')"
    using allocate_loop [of ?k1 num tasks launch_task] len rq_wf_empty ready_empty
    by (auto simp: k2_def ts2_def)
  have len2: "length ts2 = 64" using len by (simp add: ts2_def)
  define tcb where "tcb = ts2 ! 63"
  have tcb: "idle_tcb launch_task idle tcb = idle_tcb launch_task idle (system_tcb k ! 63)"
    using len by (simp add: tcb_def ts2_def nth_append)
  have 4: "aset ts2 IDLE_PRIO (tcb\<lparr>native_prio := of_nat IDLE_PRIO,
       cur_prio := of_nat IDLE_PRIO, tcb_context := idle_context launch_task idle\<rparr>) = Some ts"
    using new_tcbs_eq [OF len(1,2), of launch_task tasks idle] len2 tcb
    unfolding idle_tcb_def [symmetric] by (simp add: ts_def ts2_def)
  have np: "native_prio (ts ! IDLE_PRIO) = of_nat IDLE_PRIO"
    by (simp add: ts_def nth_new_tcbs idle_tcb_def)
  obtain q'' where q'': "rq_wf q''" "ready q'' = (ready_upto num)(63 \<mapsto> 63)"
      "\<And>k1. kq k1 = q' \<Longrightarrow> k_runqueue_add (Some IDLE_PRIO) (of_nat IDLE_PRIO) k1 = Some (k1\<lparr>kq := q''\<rparr>)"
    using rq.add_law [OF q'(1), of 63 63] q'(2) by (auto simp: k_runqueue_add_def)
  have 5: "k_runqueue_add (Some IDLE_PRIO) (of_nat IDLE_PRIO) (k2 q'\<lparr>system_tcb := ts\<rparr>) =
      Some (k\<lparr>kq := q'', system_tcb := ts\<rparr>)"
    using q''(3) [of "k2 q'\<lparr>system_tcb := ts\<rparr>"] by (simp add: k2_def)
  have get: "system_tcb (k2 q') = ts2" "aget ts2 IDLE_PRIO = Some tcb"
    using len2 by (simp_all add: k2_def tcb_def)
  have "dom (ready q'') \<noteq> {}" using q''(2) by auto
  from rq.top_Min [OF q''(1) this] have "map_option unat (highest_prio q'') = Some h"
    unfolding q''(2) Min_ready by (simp add: h_def split: if_splits)
  then obtain p where p: "highest_prio q'' = Some p" "unat p = h" by auto
  have "h < 64" by (simp add: h_def)
  then have 6: "dispatch_nosave (dispatch_init IDLE_PRIO (k\<lparr>kq := q'', system_tcb := ts\<rparr>)) =
      Some (k\<lparr>kq := q'', system_tcb := ts, cur_tcb := Some h, regs := tcb_context (ts ! h)\<rparr>)"
    by (simp add: dispatch_nosave_def dispatch_init_def ctx_switch_half_def p Let_def ts_def)
  have "allocate_tasks launch_task idle tasks num k =
      Some (k\<lparr>kq := q'', system_tcb := ts, cur_tcb := Some h, regs := tcb_context (ts ! h)\<rparr>)"
    by (simp only: allocate_tasks_def 1 2 bind.bind_lunit 3 get 4 np 5 6)
  with q'' show ?thesis by blast
qed

section \<open>The invariant holds when the first task starts\<close>

text \<open>A kernel in which nobody sleeps. The first call of \<open>task_create\<close> finds this state.\<close>

definition quiet :: "kernel \<Rightarrow> bool" where
  "quiet k \<longleftrightarrow> sized k \<and> runq_sized (kq k) \<and>
     (\<forall>t \<in> set (system_tcb k). sleep_queue t = None) \<and>
     (\<forall>m \<in> set (gtMutex k). pSleep_queue m = None \<and> mutex_ok m [])"

lemma allocate_tasks_wf:
  assumes quiet: "quiet k" and num: "num \<le> 64" "num \<le> length tasks"
    and dev: "\<forall>d \<in> set (devices k). dev_sleep_queue d = None"
  shows "\<exists>k'. allocate_tasks launch_task idle tasks num k = Some k' \<and> kernel_wf k' \<and> quiet k' \<and>
    abs_state k' = \<lparr>current = (if num = 0 then IDLE_PRIO else 0), runnable = insert IDLE_PRIO {..<num},
      waiting = (\<lambda>_. []), created = created (abs_state k), owner = owner (abs_state k)\<rparr> \<and>
    system_tcb k' = new_tcbs launch_task idle tasks num (system_tcb k) \<and>
    devices k' = devices k \<and> system_time k' = system_time k \<and>
    regs k' = tcb_context (system_tcb k' ! (if num = 0 then IDLE_PRIO else 0))"
proof -
  let ?h = "if num = 0 then IDLE_PRIO else 0" and ?ts = "new_tcbs launch_task idle tasks num (system_tcb k)"
  have sz: "sized k" using quiet by (simp add: quiet_def)
  obtain q where q: "rq_wf q" "ready q = (ready_upto num)(63 \<mapsto> 63)"
    and alloc: "allocate_tasks launch_task idle tasks num k =
      Some (k\<lparr>kq := q, system_tcb := ?ts, cur_tcb := Some ?h, regs := tcb_context (?ts ! ?h)\<rparr>)"
    using allocate_tasks_eq [of k num tasks launch_task idle] quiet num
    by (auto simp: quiet_def wf_simps)
  define k' where "k' = k\<lparr>kq := q, system_tcb := ?ts, cur_tcb := Some ?h, regs := tcb_context (?ts ! ?h)\<rparr>"
  have ts: "i < 64 \<Longrightarrow> sleep_queue (?ts ! i) = None" for i
    using quiet by (simp add: nth_new_tcbs idle_tcb_def task_tcb_def cleared_tcb_def quiet_def wf_simps)
  have np: "p < num \<or> p = 63 \<Longrightarrow> native_prio (?ts ! p) = of_nat p" for p
    using num by (auto simp: nth_new_tcbs idle_tcb_def task_tcb_def)
  have none: "ptr k' l = None" if "valid_lval l" for l
    using that ts quiet dev sz by (cases l) (simp_all add: ptr.simps k'_def quiet_def wf_simps)
  have inv: "kernel_inv k' (\<lambda>_. [])"
    unfolding kernel_inv_def
  proof (intro conjI)
    show "sized k'" using sz by (simp add: sized_def k'_def)
    show "ready_ok (kq k') (system_tcb k')"
      using q np by (auto simp: ready_ok_def k'_def ready_upto_def split: if_splits)
    show "lists_ok (ptr k') (\<lambda>_. [])" using none is_head_valid by (simp add: lists_ok_def)
    show "sleepers_ok (kq k') (system_tcb k') (\<lambda>_. [])" by (simp add: sleepers_ok_def)
    show "mutexes_ok (gtMutex k') (\<lambda>_. [])" using quiet sz by (simp add: mutexes_ok_def k'_def quiet_def wf_simps)
    show "\<exists>c<64. cur_tcb k' = Some c" by (simp add: k'_def)
  qed
  have "kernel_wf k'" using inv q(2) by (auto simp: kernel_wf_def k'_def ready_upto_def)
  moreover have "quiet k'"
    using quiet q(1) ts by (auto simp: quiet_def k'_def sized_def runq_sized_def rq_wf_def in_set_conv_nth)
  moreover have "dom (ready q) = insert 63 {..<num}"
    using q(2) by (auto simp: ready_upto_def split: if_splits)
  then have "abs_state k' = \<lparr>current = ?h, runnable = insert IDLE_PRIO {..<num},
      waiting = (\<lambda>_. []), created = created (abs_state k), owner = owner (abs_state k)\<rparr>"
    using queue_eq [OF inv] by (auto simp: abs_state_def fun_eq_iff) (auto simp: k'_def)
  ultimately show ?thesis using alloc by (auto simp: k'_def)
qed

end
