(* ===== verification/Proc.thy ===== *)
theory Proc
  imports Sched "HOL-Library.Multiset"
begin

text \<open>
  kernel/syscall/proc.c: \<open>task_create_syscall\<close> with its validation of the task set, the
  rate-monotonic selection sort, and the start of the new task set.
\<close>

section \<open>The code\<close>

text \<open>
  The tasks are given by index: the two pointers alias when the indices are equal. The five
  assignments of each group copy every field of the structure.
\<close>

definition task_exchange :: "nat \<Rightarrow> nat \<Rightarrow> task list \<Rightarrow> task list option" where
  "task_exchange task1 task2 tasks = do {
     t1 \<leftarrow> aget tasks task1;
     let tmp_task = \<lparr>lambda = lambda t1, data = data t1, stack_pos = stack_pos t1,
       task_C = task_C t1, task_T = task_T t1\<rparr>;
     t2 \<leftarrow> aget tasks task2;
     tasks \<leftarrow> aset tasks task1 (t1\<lparr>lambda := lambda t2, data := data t2,
       stack_pos := stack_pos t2, task_C := task_C t2, task_T := task_T t2\<rparr>);
     t2 \<leftarrow> aget tasks task2;
     aset tasks task2 (t2\<lparr>lambda := lambda tmp_task, data := data tmp_task,
       stack_pos := stack_pos tmp_task, task_C := task_C tmp_task, task_T := task_T tmp_task\<rparr>) }"

definition find_min :: "task list \<Rightarrow> nat \<Rightarrow> nat \<Rightarrow> nat option" where
  "find_min tasks i num_tasks = for_range (i + 1) num_tasks (\<lambda>j min. do {
     a \<leftarrow> aget tasks min;
     b \<leftarrow> aget tasks j;
     Some (if task_T a > task_T b then j else min) }) i"

definition sort_tasks :: "nat \<Rightarrow> task list \<Rightarrow> task list option" where
  "sort_tasks num_tasks = for_range 0 num_tasks (\<lambda>i tasks. do {
     min \<leftarrow> find_min tasks i num_tasks;
     task_exchange i min tasks })"

definition bad_user_addr :: "u32 \<Rightarrow> bool" where
  "bad_user_addr a \<longleftrightarrow> a > USR_END_ADDR \<or> a < USR_START_ADDR"

text \<open>
  The validation loop: \<open>Inl\<close> is an early return (or the trap of the division by a zero period),
  \<open>Inr\<close> the value of \<open>sum\<close> after the loop. The quotient is an unsigned integer and is compared
  with 1 only, so the conversion to \<open>float\<close> changes nothing.
\<close>

function check_tasks :: "task list \<Rightarrow> nat \<Rightarrow> nat \<Rightarrow> u32 \<Rightarrow> (outcome + u32) option" where
  "check_tasks tasks num_tasks i csum =
     (if i < num_tasks then do {
        t \<leftarrow> aget tasks i;
        if bad_user_addr (stack_pos t) then Some (Inl (Return EFAULT))
        else if bad_user_addr (lambda t) then Some (Inl (Return EFAULT))
        else if task_T t = 0 then Some (Inl Hang)
        else check_tasks tasks num_tasks (Suc i) (task_C t div task_T t) }
      else Some (Inr csum))"
  by pat_completeness auto
termination
  by (relation "measure (\<lambda>(tasks, num_tasks, i, csum). num_tasks - i)") auto

declare check_tasks.simps [simp del]

text \<open>
  \<open>tasks_addr\<close> is the pointer that the user passes and \<open>tasks\<close> the array it points at. The array is
  sorted in place, so it is part of the result. On success the call does not return.
\<close>

definition task_create_syscall ::
  "u32 \<Rightarrow> u32 \<Rightarrow> u32 \<Rightarrow> task list \<Rightarrow> u32 \<Rightarrow> kernel \<Rightarrow> (outcome \<times> task list \<times> kernel) option" where
  "task_create_syscall launch_task idle tasks_addr tasks num_tasks k =
     (if num_tasks > of_nat OS_MAX_TASKS then Some (Return EINVAL, tasks, k)
      else if bad_user_addr tasks_addr then Some (Return EFAULT, tasks, k)
      else do {
        r \<leftarrow> check_tasks tasks (unat num_tasks) 0 0;
        case r of
          Inl out \<Rightarrow> Some (out, tasks, k)
        | Inr csum \<Rightarrow>
            if csum > 1 then Some (Return ESCHED, tasks, k)
            else do {
              tasks \<leftarrow> sort_tasks (unat num_tasks) tasks;
              k \<leftarrow> dev_init k;
              k \<leftarrow> allocate_tasks launch_task idle tasks (unat num_tasks) k;
              Some (Switched, tasks, k) } })"

section \<open>Sorting\<close>

lemma task_exchange_eq:
  assumes "i < length ts" "j < length ts"
  shows "task_exchange i j ts = Some (ts[i := ts ! j, j := ts ! i])"
proof -
  have copy: "t\<lparr>lambda := lambda u, data := data u, stack_pos := stack_pos u, task_C := task_C u,
      task_T := task_T u\<rparr> = u" for t u :: task by (cases t; cases u) simp
  have whole: "\<lparr>lambda = lambda u, data = data u, stack_pos = stack_pos u, task_C = task_C u,
      task_T = task_T u\<rparr> = u" for u :: task by (cases u) simp
  show ?thesis using assms by (simp add: task_exchange_def copy whole Let_def)
qed

lemma find_min_least:
  assumes "i < num" "num \<le> length ts"
  shows "\<exists>m. find_min ts i num = Some m \<and> i \<le> m \<and> m < num \<and>
    (\<forall>j. i \<le> j \<longrightarrow> j < num \<longrightarrow> task_T (ts ! m) \<le> task_T (ts ! j))"
proof -
  let ?P = "\<lambda>n m. i \<le> m \<and> m < n \<and> (\<forall>j. i \<le> j \<longrightarrow> j < n \<longrightarrow> task_T (ts ! m) \<le> task_T (ts ! j))"
  have "\<exists>m. find_min ts i num = Some m \<and> ?P num m"
    unfolding find_min_def
  proof (rule for_range_inv [where P = ?P])
    show "?P (i + 1) i" by (auto simp: le_Suc_eq less_Suc_eq)
  next
    fix j m
    assume j: "i + 1 \<le> j" "j < num" and P: "?P j m"
    then have lt: "m < length ts" "j < length ts" using assms by auto
    have "?P (Suc j) (if task_T (ts ! m) > task_T (ts ! j) then j else m)"
      using P j by (auto simp: less_Suc_eq not_less intro: order.trans less_imp_le
        dest: order.strict_trans2)
    then show "\<exists>m'. (do { a \<leftarrow> aget ts m; b \<leftarrow> aget ts j;
        Some (if task_T a > task_T b then j else m) }) = Some m' \<and> ?P (Suc j) m'"
      using lt by simp
  qed (use assms in simp)
  then show ?thesis by blast
qed

text \<open>The first \<open>n\<close> tasks are in the order of their periods.\<close>

definition periods_sorted :: "nat \<Rightarrow> task list \<Rightarrow> bool" where
  "periods_sorted n ts \<longleftrightarrow> (\<forall>i j. i \<le> j \<longrightarrow> j < n \<longrightarrow> task_T (ts ! i) \<le> task_T (ts ! j))"

lemma mset_exchange:
  assumes "i < length ts" "j < length ts"
  shows "mset (ts[i := ts ! j, j := ts ! i]) = mset ts"
  using assms mset_swap by blast

lemma sort_tasks_sorts:
  assumes "num \<le> length ts"
  shows "\<exists>ts'. sort_tasks num ts = Some ts' \<and> periods_sorted num ts' \<and> mset ts' = mset ts \<and>
    length ts' = length ts \<and> (\<forall>i. num \<le> i \<longrightarrow> ts' ! i = ts ! i) \<and>
    set (take num ts') = set (take num ts)"
proof -
  let ?P = "\<lambda>n us. mset us = mset ts \<and> length us = length ts \<and> (\<forall>i. num \<le> i \<longrightarrow> us ! i = ts ! i) \<and>
     (\<forall>i j. i \<le> j \<longrightarrow> j < num \<longrightarrow> i < n \<longrightarrow> task_T (us ! i) \<le> task_T (us ! j))"
  have "\<exists>ts'. sort_tasks num ts = Some ts' \<and> ?P num ts'"
    unfolding sort_tasks_def
  proof (rule for_range_inv [where P = ?P])
    fix i us
    assume i: "i < num" and P: "?P i us"
    then have len: "num \<le> length us" using assms by simp
    obtain m where m: "find_min us i num = Some m" "i \<le> m" "m < num"
        "\<And>j. i \<le> j \<Longrightarrow> j < num \<Longrightarrow> task_T (us ! m) \<le> task_T (us ! j)"
      using find_min_least [OF i len] by blast
    define vs where "vs = us[i := us ! m, m := us ! i]"
    have ex: "task_exchange i m us = Some vs"
      using task_exchange_eq [of i us m] i m len by (simp add: vs_def)
    have nth: "vs ! j = (if j = m then us ! i else if j = i then us ! m else us ! j)" for j
      using i m len by (auto simp: vs_def nth_list_update)
    have "mset vs = mset ts" using mset_exchange [of i us m] i m len P by (simp add: vs_def)
    moreover have "task_T (vs ! a) \<le> task_T (vs ! b)" if "a \<le> b" "b < num" "a < Suc i" for a b
    proof (cases "a = i")
      case True
      have "\<exists>c. i \<le> c \<and> c < num \<and> vs ! b = us ! c"
        using that True m i by (auto simp: nth)
      moreover have "vs ! a = us ! m" using True by (simp add: nth)
      ultimately show ?thesis using m(4) by metis
    next
      case False
      then have a: "a < i" "vs ! a = us ! a" using that m(2) by (simp_all add: nth)
      have "\<exists>c. a \<le> c \<and> c < num \<and> vs ! b = us ! c"
        using that a(1) m i by (auto simp: nth intro: exI [of _ m] exI [of _ i])
      then show ?thesis using P a by metis
    qed
    ultimately have "?P (Suc i) vs" using P i m by (simp add: nth) (simp add: vs_def)
    with m(1) ex show "\<exists>s'. find_min us i num \<bind> (\<lambda>min. task_exchange i min us) = Some s' \<and> ?P (Suc i) s'"
      by auto
  qed simp_all
  then obtain ts' where ts': "sort_tasks num ts = Some ts'" "?P num ts'" by blast
  have "drop num ts' = drop num ts" using ts' by (intro nth_equalityI) auto
  moreover have "mset (take num us) + mset (drop num us) = mset us" for us :: "task list"
    by (metis append_take_drop_id mset_append)
  ultimately have "mset (take num ts') = mset (take num ts)"
    using ts'(2) by (metis add_right_cancel)
  then have "set (take num ts') = set (take num ts)" by (metis set_mset_mset)
  with ts' show ?thesis by (auto simp: periods_sorted_def)
qed

section \<open>Validation\<close>

definition task_ok :: "task \<Rightarrow> bool" where
  "task_ok t \<longleftrightarrow> \<not> bad_user_addr (stack_pos t) \<and> \<not> bad_user_addr (lambda t) \<and> task_T t \<noteq> 0"

lemma check_tasks_prefix:
  assumes "i \<le> n" "n \<le> num" "n \<le> length ts" "\<forall>j. i \<le> j \<longrightarrow> j < n \<longrightarrow> task_ok (ts ! j)"
  shows "check_tasks ts num i csum = check_tasks ts num n
    (if i = n then csum else task_C (ts ! (n - 1)) div task_T (ts ! (n - 1)))"
  using assms
proof (induction "n - i" arbitrary: i csum)
  case 0
  then show ?case by simp
next
  case (Suc d)
  then have i: "i < n" "i < num" "i < length ts" "task_ok (ts ! i)" by auto
  then have "check_tasks ts num i csum = check_tasks ts num (Suc i) (task_C (ts ! i) div task_T (ts ! i))"
    by (subst check_tasks.simps) (simp add: task_ok_def)
  also have "\<dots> = check_tasks ts num n (if Suc i = n then task_C (ts ! i) div task_T (ts ! i)
      else task_C (ts ! (n - 1)) div task_T (ts ! (n - 1)))"
    using Suc.hyps(1)[of "Suc i"] Suc.hyps(2) Suc.prems by simp
  finally show ?case using i(1) by (auto split: if_splits)
qed

text \<open>The quotient of the last task is all that remains for the schedulability test.\<close>

definition last_ratio :: "task list \<Rightarrow> nat \<Rightarrow> u32" where
  "last_ratio ts num = (if num = 0 then 0 else task_C (ts ! (num - 1)) div task_T (ts ! (num - 1)))"

lemma check_tasks_ok:
  assumes "num \<le> length ts" "\<forall>i<num. task_ok (ts ! i)"
  shows "check_tasks ts num 0 0 = Some (Inr (last_ratio ts num))"
  using check_tasks_prefix [of 0 num num ts 0] assms
  by (simp add: check_tasks.simps [of ts num num] last_ratio_def)

lemma check_tasks_bad:
  assumes "n < num" "n < length ts" "\<forall>i<n. task_ok (ts ! i)" "\<not> task_ok (ts ! n)"
  shows "check_tasks ts num 0 0 = Some (Inl
    (if bad_user_addr (stack_pos (ts ! n)) \<or> bad_user_addr (lambda (ts ! n)) then Return EFAULT else Hang))"
  using check_tasks_prefix [of 0 n num ts 0] assms
  by (auto simp: check_tasks.simps [of ts num n] task_ok_def)

section \<open>Creating a task set\<close>

lemma dev_init_quiet:
  assumes "quiet k"
  shows "\<exists>k'. dev_init k = Some k' \<and> quiet k' \<and> (\<forall>d \<in> set (devices k'). dev_sleep_queue d = None) \<and>
    (\<forall>d<63. next_match (devices k' ! d) = system_time k + dev_freq ! d) \<and>
    created (abs_state k') = created (abs_state k) \<and> owner (abs_state k') = owner (abs_state k) \<and>
    system_time k' = system_time k \<and> system_tcb k' = system_tcb k"
  using assms dev_init_eq [of k]
  by (auto simp: quiet_def sized_def runq_sized_def abs_state_def)

lemma task_create_wf:
  fixes num_tasks :: u32
  defines "num \<equiv> unat num_tasks"
  assumes k: "quiet k" and num: "num \<le> 64" "num \<le> length tasks"
    and addr: "\<not> bad_user_addr tasks_addr" and ok: "\<forall>i<num. task_ok (tasks ! i)"
    and ratio: "last_ratio tasks num \<le> 1"
  shows "\<exists>tasks' k'. task_create_syscall launch_task idle tasks_addr tasks num_tasks k = Some (Switched, tasks', k') \<and>
    periods_sorted num tasks' \<and> mset tasks' = mset tasks \<and> kernel_wf k' \<and> quiet k' \<and>
    on_schedule (system_time k) 0 k' \<and>
    abs_state k' = \<lparr>current = (if num = 0 then IDLE_PRIO else 0), runnable = insert IDLE_PRIO {..<num},
      waiting = (\<lambda>_. []), created = created (abs_state k), owner = owner (abs_state k)\<rparr> \<and>
    system_tcb k' = new_tcbs launch_task idle tasks' num (system_tcb k) \<and>
    regs k' = tcb_context (system_tcb k' ! current (abs_state k'))"
proof -
  have "\<not> num_tasks > of_nat OS_MAX_TASKS" using num by (simp add: num_def word_less_nat_alt)
  moreover have "check_tasks tasks num 0 0 = Some (Inr (last_ratio tasks num))"
    using check_tasks_ok num ok by blast
  moreover obtain tasks' where t: "sort_tasks num tasks = Some tasks'" "periods_sorted num tasks'"
      "mset tasks' = mset tasks" "length tasks' = length tasks"
    using sort_tasks_sorts num(2) by blast
  moreover obtain k1 where k1: "dev_init k = Some k1" "quiet k1"
      "\<forall>d \<in> set (devices k1). dev_sleep_queue d = None"
      "\<forall>d<63. next_match (devices k1 ! d) = system_time k + dev_freq ! d"
      "created (abs_state k1) = created (abs_state k)" "owner (abs_state k1) = owner (abs_state k)"
      "system_time k1 = system_time k" "system_tcb k1 = system_tcb k"
    using dev_init_quiet [OF k] by blast
  moreover have len: "num \<le> length tasks'" using t num by simp
  moreover obtain k2 where k2: "allocate_tasks launch_task idle tasks' num k1 = Some k2" "kernel_wf k2" "quiet k2"
      "abs_state k2 = \<lparr>current = (if num = 0 then IDLE_PRIO else 0), runnable = insert IDLE_PRIO {..<num},
        waiting = (\<lambda>_. []), created = created (abs_state k1), owner = owner (abs_state k1)\<rparr>"
      "system_tcb k2 = new_tcbs launch_task idle tasks' num (system_tcb k1)"
      "devices k2 = devices k1" "system_time k2 = system_time k1"
      "regs k2 = tcb_context (system_tcb k2 ! (if num = 0 then IDLE_PRIO else 0))"
    using allocate_tasks_wf [OF k1(2) num(1) len k1(3)] by blast
  ultimately have run: "task_create_syscall launch_task idle tasks_addr tasks num_tasks k = Some (Switched, tasks', k2)"
    using addr ratio by (simp add: task_create_syscall_def num_def [symmetric])
  have "on_schedule (system_time k) 0 k2"
    using k2(6,7) k1(4,7) by (simp add: on_schedule_def next_offset_def)
  with run t k2 k1 show ?thesis by simp
qed

text \<open>The decision of the call as a function of its arguments: \<open>None\<close> means that the tasks start.\<close>

definition create_verdict :: "u32 \<Rightarrow> task list \<Rightarrow> nat \<Rightarrow> outcome option" where
  "create_verdict tasks_addr tasks num =
     (if OS_MAX_TASKS < num then Some (Return EINVAL)
      else if bad_user_addr tasks_addr then Some (Return EFAULT)
      else case find (\<lambda>t. \<not> task_ok t) (take num tasks) of
        Some t \<Rightarrow> Some (if bad_user_addr (stack_pos t) \<or> bad_user_addr (lambda t) then Return EFAULT else Hang)
      | None \<Rightarrow> if last_ratio tasks num > 1 then Some (Return ESCHED) else None)"

lemma task_create_refused:
  assumes "unat num_tasks \<le> 64 \<Longrightarrow> unat num_tasks \<le> length tasks"
    and "create_verdict tasks_addr tasks (unat num_tasks) = Some out"
  shows "task_create_syscall launch_task idle tasks_addr tasks num_tasks k = Some (out, tasks, k)"
proof (cases "unat num_tasks \<le> 64 \<and> \<not> bad_user_addr tasks_addr")
  case False
  then show ?thesis
    using assms by (auto simp: task_create_syscall_def create_verdict_def word_less_nat_alt split: if_splits)
next
  case True
  then have num: "\<not> num_tasks > of_nat OS_MAX_TASKS" "unat num_tasks \<le> length tasks"
    using assms(1) by (simp_all add: word_less_nat_alt)
  show ?thesis
  proof (cases "find (\<lambda>t. \<not> task_ok t) (take (unat num_tasks) tasks)")
    case None
    then have "\<forall>i<unat num_tasks. task_ok (tasks ! i)"
      using num by (auto simp: find_None_iff in_set_conv_nth)
    then show ?thesis
      using None True num assms(2) check_tasks_ok [of "unat num_tasks" tasks]
      by (auto simp: task_create_syscall_def create_verdict_def split: if_splits)
  next
    case (Some t)
    then obtain n where n: "n < unat num_tasks" "tasks ! n = t" "\<not> task_ok t"
        "\<forall>i<n. task_ok (tasks ! i)"
      using num by (auto simp: find_Some_iff)
    then show ?thesis
      using Some True num assms(2) check_tasks_bad [of n "unat num_tasks" tasks]
      by (auto simp: task_create_syscall_def create_verdict_def)
  qed
qed

end
