(* ===== verification/System.thy ===== *)
theory System
  imports Proc
begin

text \<open>
  The running system: tasks make system calls, block inside of them, are switched to again and
  finish them, while timer interrupts preempt whoever runs. Reachable states keep the kernel
  invariant, and no mutex is ever held by two tasks.
\<close>

section \<open>Steps\<close>

text \<open>
  Where the kernel stack of a task that is not running (or that runs inside of a call) says that
  it continues: in user code, after the \<open>dispatch_save\<close> of \<open>mutex_lock_syscall\<close>, after the
  \<open>dispatch_sleep\<close> of \<open>dev_wait\<close>, or in the loop of \<open>sleep_syscall\<close>.
\<close>

datatype cont = User | In_lock nat | In_wait | Sleeping u32

text \<open>
  \<open>holds\<close> is no part of the program: it records which tasks returned from locking a mutex with 0
  and have not returned from unlocking it with 0 since.
\<close>

record machine =
  mk :: kernel
  conts :: "nat \<Rightarrow> cont"
  holds :: "(nat \<times> nat) set"

fun cont_after :: "cont \<Rightarrow> outcome \<Rightarrow> cont" where
  "cont_after blocked Switched = blocked"
| "cont_after blocked (Spin target) = Sleeping target"
| "cont_after blocked out = User"

text \<open>
  The idle task makes no calls. A system call is one step up to its return or its switch to
  another task; the timer interrupt can come before every step.
\<close>

inductive mstep :: "machine \<Rightarrow> machine \<Rightarrow> bool" where
  lock: "mstep s \<lparr>mk = k, conts = (conts s)(c := cont_after (In_lock m) out),
      holds = (if out = Return 0 then insert (c, m) (holds s) else holds s)\<rparr>"
    if "cur_tcb (mk s) = Some c" "c \<noteq> IDLE_PRIO" "conts s c = User"
      "mutex_lock_syscall (int m) (mk s) = Some (out, k)"
| lock_resume: "mstep s \<lparr>mk = k, conts = (conts s)(c := User),
      holds = (if out = Return 0 then insert (c, m) (holds s) else holds s)\<rparr>"
    if "cur_tcb (mk s) = Some c" "conts s c = In_lock m"
      "mutex_lock_resume (int m) (mk s) = Some (out, k)"
| unlock: "mstep s \<lparr>mk = k, conts = conts s,
      holds = (if out = Return 0 then holds s - {(c, m)} else holds s)\<rparr>"
    if "cur_tcb (mk s) = Some c" "c \<noteq> IDLE_PRIO" "conts s c = User"
      "mutex_unlock_syscall (int m) (mk s) = Some (out, k)"
| create: "mstep s (s\<lparr>mk := k\<rparr>)"
    if "cur_tcb (mk s) = Some c" "c \<noteq> IDLE_PRIO" "conts s c = User"
      "mutex_create_syscall (mk s) = Some (out, k)"
| event_wait: "mstep s (s\<lparr>mk := k, conts := (conts s)(c := cont_after In_wait out)\<rparr>)"
    if "cur_tcb (mk s) = Some c" "c \<noteq> IDLE_PRIO" "conts s c = User"
      "event_wait_syscall d (mk s) = Some (out, k)"
| wait_resume: "mstep s (s\<lparr>conts := (conts s)(c := User)\<rparr>)"
    if "cur_tcb (mk s) = Some c" "conts s c = In_wait"
| sleep: "mstep s (s\<lparr>conts := (conts s)(c := cont_after User (sleep_enter msec (mk s)))\<rparr>)"
    if "cur_tcb (mk s) = Some c" "c \<noteq> IDLE_PRIO" "conts s c = User"
| sleep_done: "mstep s (s\<lparr>conts := (conts s)(c := User)\<rparr>)"
    if "cur_tcb (mk s) = Some c" "conts s c = Sleeping target" "\<not> target > system_time (mk s)"
| tick: "mstep s (s\<lparr>mk := k\<rparr>)"
    if "C_IRQ_Handler rd (b, mk s) = Some (b', k)"

inductive reachable :: "machine \<Rightarrow> machine \<Rightarrow> bool" for s0 where
  start: "reachable s0 s0"
| step: "reachable s0 s \<Longrightarrow> mstep s s' \<Longrightarrow> reachable s0 s'"

text \<open>The machine right after a task set was created: nobody has locked or waits for anything.\<close>

definition fresh :: "machine \<Rightarrow> bool" where
  "fresh s \<longleftrightarrow> kernel_wf (mk s) \<and> (\<forall>l. waiting (abs_state (mk s)) l = []) \<and>
     (\<forall>m. owner (abs_state (mk s)) m = None) \<and> conts s = (\<lambda>_. User) \<and> holds s = {}"

section \<open>What the invariant means for the abstract state\<close>

definition spec_ok :: "sched_spec \<Rightarrow> bool" where
  "spec_ok a \<longleftrightarrow> current a \<in> runnable a \<and> (\<forall>l. \<forall>t \<in> set (waiting a l). t \<notin> runnable a) \<and>
     (\<forall>l l'. l \<noteq> l' \<longrightarrow> set (waiting a l) \<inter> set (waiting a l') = {}) \<and>
     (\<forall>l. distinct (waiting a l)) \<and>
     (\<forall>m. owner a m = None \<longrightarrow> waiting a (Mutex_head m) = []) \<and>
     (\<forall>m t. owner a m = Some t \<longrightarrow> created a m \<and> t \<notin> set (waiting a (Mutex_head m)))"

lemma wf_spec_ok:
  assumes "kernel_wf k"
  shows "spec_ok (abs_state k)"
proof -
  obtain Q c where inv: "kernel_inv k Q" and c: "cur_tcb k = Some c" "ready (kq k) c = Some c"
    using assms by (auto simp: kernel_wf_def)
  have w: "waiting (abs_state k) l = (if is_head l then Q l else [])" for l
    using queue_eq [OF inv] by (simp add: abs_state_def)
  have o: "owner (abs_state k) m = (if m < 32 then pHolding_Tcb (gtMutex k ! m) else None)" for m
    by (simp add: abs_state_def)
  have cr: "created (abs_state k) m \<longleftrightarrow> m < 32 \<and> \<not> bAvailable (gtMutex k ! m)" for m
    by (simp add: abs_state_def)
  have r: "runnable (abs_state k) = dom (ready (kq k))" by (simp add: abs_state_def)
  have ok: "m < 32 \<Longrightarrow> mutex_ok (gtMutex k ! m) (Q (Mutex_head m))" for m
    using inv_mutex [OF inv] .
  show ?thesis
    unfolding spec_ok_def
  proof (intro conjI allI impI ballI)
    show "current (abs_state k) \<in> runnable (abs_state k)" using c by (auto simp: abs_state_def)
    show "t \<notin> runnable (abs_state k)" if "t \<in> set (waiting (abs_state k) l)" for l t
      using that inv_listD(4) [OF inv, of l t] by (auto simp: w r split: if_splits)
    show "set (waiting (abs_state k) l) \<inter> set (waiting (abs_state k) l') = {}" if "l \<noteq> l'" for l l'
    proof -
      have "is_head l \<Longrightarrow> is_head l' \<Longrightarrow> set (Q l) \<inter> set (Q l') = {}"
        using that kernel_invD(3) [OF inv] by (simp add: lists_ok_def)
      then show ?thesis by (cases "is_head l"; cases "is_head l'") (simp_all add: w)
    qed
    show "distinct (waiting (abs_state k) l)" for l using inv_listD(3) [OF inv, of l] by (simp add: w)
    show "waiting (abs_state k) (Mutex_head m) = []" if "owner (abs_state k) m = None" for m
      using that ok [of m] by (auto simp: w o mutex_ok_def split: if_splits)
    show "created (abs_state k) m" "t \<notin> set (waiting (abs_state k) (Mutex_head m))"
      if "owner (abs_state k) m = Some t" for m t
      using that ok [of m] by (auto simp: w o cr mutex_ok_def split: if_splits)
  qed
qed

section \<open>Tasks and where they continue\<close>

definition conts_ok :: "sched_spec \<Rightarrow> (nat \<Rightarrow> cont) \<Rightarrow> (nat \<times> nat) set \<Rightarrow> bool" where
  "conts_ok a cs H \<longleftrightarrow>
     (\<forall>m t. t \<in> set (waiting a (Mutex_head m)) \<longrightarrow> cs t = In_lock m) \<and>
     (\<forall>d t. t \<in> set (waiting a (Dev_head d)) \<longrightarrow> cs t = In_wait) \<and>
     (\<forall>t m. cs t = In_lock m \<longrightarrow> t \<in> set (waiting a (Mutex_head m)) \<or> owner a m = Some t) \<and>
     (\<forall>t m. (t, m) \<in> H \<longleftrightarrow> owner a m = Some t \<and> cs t \<noteq> In_lock m)"

lemma conts_okD:
  assumes "conts_ok a cs H"
  shows "t \<in> set (waiting a (Mutex_head m)) \<Longrightarrow> cs t = In_lock m"
    "t \<in> set (waiting a (Dev_head d)) \<Longrightarrow> cs t = In_wait"
    "cs t = In_lock m \<Longrightarrow> t \<in> set (waiting a (Mutex_head m)) \<or> owner a m = Some t"
    "(t, m) \<in> H \<longleftrightarrow> owner a m = Some t \<and> cs t \<noteq> In_lock m"
  using assms unfolding conts_ok_def by blast+

lemma spec_okD:
  assumes "spec_ok a"
  shows "t \<in> set (waiting a l) \<Longrightarrow> t \<noteq> current a"
    "owner a m = None \<Longrightarrow> waiting a (Mutex_head m) = []"
    "owner a m = Some t \<Longrightarrow> t \<notin> set (waiting a (Mutex_head m))"
    "owner a m = Some t \<Longrightarrow> created a m" "distinct (waiting a l)"
  using assms unfolding spec_ok_def by blast+

lemma conts_ok_lock:
  assumes ok: "spec_ok a" "conts_ok a cs H" and user: "cs (current a) = User"
    and lock: "spec_lock m a = (out, a')"
  shows "conts_ok a' (cs(current a := cont_after (In_lock m) out))
    (if out = Return 0 then insert (current a, m) H else H)"
proof -
  let ?c = "current a"
  note s = spec_okD [OF ok(1)] and d = conts_okD [OF ok(2)]
  have same: "cs(?c := User) = cs" using user by (simp add: fun_eq_iff)
  have nw: "?c \<notin> set (waiting a l)" for l using s(1) by blast
  consider "\<not> created a m \<or> owner a m = Some ?c" | "created a m" "owner a m = None"
    | h where "created a m" "owner a m = Some h" "h \<noteq> ?c" by (cases "owner a m") auto
  then show ?thesis
  proof cases
    case 1
    then have "out = Return EINVAL \<or> out = Return EDEADLOCK" "a' = a"
      using lock by (auto simp: spec_lock_def split: if_splits)
    with same ok(2) show ?thesis by auto
  next
    case 2
    then have out: "out = Return 0" "a' = a\<lparr>owner := (owner a)(m \<mapsto> ?c)\<rparr>"
      using lock by (simp_all add: spec_lock_def)
    have empty: "waiting a (Mutex_head m) = []" using s(2) [OF 2(2)] .
    have "conts_ok (a\<lparr>owner := (owner a)(m \<mapsto> ?c)\<rparr>) cs (insert (?c, m) H)"
      unfolding conts_ok_def
    proof (intro conjI allI impI)
      fix t n
      show "t \<in> set (waiting (a\<lparr>owner := (owner a)(m \<mapsto> ?c)\<rparr>) (Mutex_head n)) \<Longrightarrow> cs t = In_lock n"
        "t \<in> set (waiting (a\<lparr>owner := (owner a)(m \<mapsto> ?c)\<rparr>) (Dev_head n)) \<Longrightarrow> cs t = In_wait"
        using d by simp_all
      show "cs t = In_lock n \<Longrightarrow> t \<in> set (waiting (a\<lparr>owner := (owner a)(m \<mapsto> ?c)\<rparr>) (Mutex_head n)) \<or>
          owner (a\<lparr>owner := (owner a)(m \<mapsto> ?c)\<rparr>) n = Some t"
        using d(3) [of t n] 2 empty by auto
      show "((t, n) \<in> insert (?c, m) H) = (owner (a\<lparr>owner := (owner a)(m \<mapsto> ?c)\<rparr>) n = Some t \<and> cs t \<noteq> In_lock n)"
        using d(4) [of t n] 2 user by auto
    qed
    then show ?thesis using out same by simp
  next
    case (3 h)
    then have out: "out = Switched" "a' = spec_dispatch (spec_sleep (Mutex_head m) a)"
      using lock by (simp_all add: spec_lock_def)
    let ?w = "(waiting a)(Mutex_head m := waiting a (Mutex_head m) @ [?c])" and ?cs = "cs(?c := In_lock m)"
    have w: "waiting a' = ?w" "owner a' = owner a" by (simp_all add: out spec_dispatch_def spec_sleep_def)
    have "conts_ok a' ?cs H"
      unfolding conts_ok_def w
    proof (intro conjI allI impI)
      fix t n
      show "t \<in> set (?w (Mutex_head n)) \<Longrightarrow> ?cs t = In_lock n"
        using d(1) [of t n] nw [of "Mutex_head n"] by (auto split: if_splits)
      show "t \<in> set (?w (Dev_head n)) \<Longrightarrow> ?cs t = In_wait"
        using d(2) [of t n] nw [of "Dev_head n"] by auto
      show "?cs t = In_lock n \<Longrightarrow> t \<in> set (?w (Mutex_head n)) \<or> owner a n = Some t"
        using d(3) [of t n] by (auto split: if_splits)
      show "((t, n) \<in> H) = (owner a n = Some t \<and> ?cs t \<noteq> In_lock n)"
        using d(4) [of t n] 3 user by auto
    qed
    then show ?thesis using out by simp
  qed
qed

lemma conts_ok_unlock:
  assumes ok: "spec_ok a" "conts_ok a cs H" and user: "cs (current a) = User"
    and unlock: "spec_unlock m a = (out, a')"
  shows "conts_ok a' cs (if out = Return 0 then H - {(current a, m)} else H)"
proof -
  let ?c = "current a"
  note s = spec_okD [OF ok(1)]
  consider "\<not> created a m \<or> owner a m \<noteq> Some ?c" | "created a m" "owner a m = Some ?c" "waiting a (Mutex_head m) = []"
    | t ts where "created a m" "owner a m = Some ?c" "waiting a (Mutex_head m) = t # ts"
    by (cases "waiting a (Mutex_head m)") auto
  then show ?thesis
  proof cases
    case 1
    then have "out \<noteq> Return 0" "a' = a" using unlock by (auto simp: spec_unlock_def split: if_splits)
    then show ?thesis using ok by simp
  next
    case 2
    then have out: "out = Return 0" "a' = a\<lparr>owner := (owner a)(m := None)\<rparr>"
      using unlock by (simp_all add: spec_unlock_def spec_wake_def)
    note d = conts_okD [OF ok(2)]
    have "conts_ok a' cs (H - {(?c, m)})"
      unfolding conts_ok_def
    proof (intro conjI allI impI)
      fix u n
      show "u \<in> set (waiting a' (Mutex_head n)) \<Longrightarrow> cs u = In_lock n"
        "u \<in> set (waiting a' (Dev_head n)) \<Longrightarrow> cs u = In_wait"
        using d(1,2) [of u n] out(2) by auto
      show "cs u = In_lock n \<Longrightarrow> u \<in> set (waiting a' (Mutex_head n)) \<or> owner a' n = Some u"
        using d(3) [of u n] 2 user out(2) by auto
      show "((u, n) \<in> H - {(?c, m)}) = (owner a' n = Some u \<and> cs u \<noteq> In_lock n)"
        using d(4) [of u n] 2 out(2) by auto
    qed
    then show ?thesis using out(1) by simp
  next
    case (3 t ts)
    then have out: "out = Return 0" "waiting a' = (waiting a)(Mutex_head m := ts)" "owner a' = (owner a)(m \<mapsto> t)"
      using unlock by (auto simp: spec_unlock_def spec_wake_def)
    note d = conts_okD [OF ok(2)]
    have t: "cs t = In_lock m" using d(1) [of t m] 3(3) by simp
    have "conts_ok a' cs (H - {(?c, m)})"
      unfolding conts_ok_def
    proof (intro conjI allI impI)
      fix u n
      show "u \<in> set (waiting a' (Mutex_head n)) \<Longrightarrow> cs u = In_lock n"
        "u \<in> set (waiting a' (Dev_head n)) \<Longrightarrow> cs u = In_wait"
        using d(1,2) [of u n] 3(3) out(2) by (auto split: if_splits)
      show "cs u = In_lock n \<Longrightarrow> u \<in> set (waiting a' (Mutex_head n)) \<or> owner a' n = Some u"
        using d(3) [of u n] 3 user out(2,3) by auto
      show "((u, n) \<in> H - {(?c, m)}) = (owner a' n = Some u \<and> cs u \<noteq> In_lock n)"
        using d(4) [of u n] 3(2) t out(3) by auto
    qed
    then show ?thesis using out(1) by simp
  qed
qed

lemma conts_ok_event_wait:
  assumes ok: "spec_ok a" "conts_ok a cs H" and user: "cs (current a) = User"
    and wait: "spec_event_wait d a = (out, a')"
  shows "conts_ok a' (cs(current a := cont_after In_wait out)) H"
proof (cases "NUM_DEVICES \<le> d")
  case True
  then have "out = Return EINVAL" "a' = a" using wait by (simp_all add: spec_event_wait_def)
  then show ?thesis using ok user by (simp add: fun_upd_idem)
next
  case False
  let ?c = "current a" and ?w = "(waiting a)(Dev_head d := waiting a (Dev_head d) @ [current a])"
  have out: "out = Switched" "waiting a' = ?w" "owner a' = owner a"
    using wait False by (auto simp: spec_event_wait_def spec_dispatch_def spec_sleep_def)
  have nw: "?c \<notin> set (waiting a l)" for l using spec_okD(1) [OF ok(1)] by blast
  note d = conts_okD [OF ok(2)]
  let ?cs = "cs(?c := In_wait)"
  have "conts_ok a' ?cs H"
    unfolding conts_ok_def out
  proof (intro conjI allI impI)
    fix t n
    show "t \<in> set (?w (Mutex_head n)) \<Longrightarrow> ?cs t = In_lock n"
      using d(1) [of t n] nw [of "Mutex_head n"] by auto
    show "t \<in> set (?w (Dev_head n)) \<Longrightarrow> ?cs t = In_wait"
      using d(2) [of t n] by (auto split: if_splits)
    show "?cs t = In_lock n \<Longrightarrow> t \<in> set (?w (Mutex_head n)) \<or> owner a n = Some t"
      using d(3) [of t n] by (auto split: if_splits)
    show "((t, n) \<in> H) = (owner a n = Some t \<and> ?cs t \<noteq> In_lock n)"
      using d(4) [of t n] user by auto
  qed
  then show ?thesis using out(1) by simp
qed

text \<open>Steps that leave the mutex lists and owners alone, and only remove sleepers of devices.\<close>

lemma conts_ok_mono:
  assumes "conts_ok a cs H" "owner a' = owner a"
    and "\<And>m. waiting a' (Mutex_head m) = waiting a (Mutex_head m)"
    and "\<And>d. set (waiting a' (Dev_head d)) \<subseteq> set (waiting a (Dev_head d))"
  shows "conts_ok a' cs H"
  using assms unfolding conts_ok_def by fastforce

lemma spec_signal_frame:
  "owner (spec_signal D a) = owner a" "waiting (spec_signal D a) (Mutex_head m) = waiting a (Mutex_head m)"
  "set (waiting (spec_signal D a) (Dev_head d)) \<subseteq> set (waiting a (Dev_head d))"
  by (auto simp: spec_signal_def Let_def spec_dispatch_def)

text \<open>A task that is in user code, sleeps or waits may move between these.\<close>

lemma conts_ok_cont:
  assumes "spec_ok a" "conts_ok a cs H" "\<And>m. cs (current a) \<noteq> In_lock m" "\<And>m. x \<noteq> In_lock m"
  shows "conts_ok a (cs(current a := x)) H"
proof -
  have nw: "current a \<notin> set (waiting a l)" for l using spec_okD(1) [OF assms(1)] by blast
  note d = conts_okD [OF assms(2)]
  show ?thesis
    unfolding conts_ok_def
  proof (intro conjI allI impI)
    fix t n
    show "t \<in> set (waiting a (Mutex_head n)) \<Longrightarrow> (cs(current a := x)) t = In_lock n"
      "t \<in> set (waiting a (Dev_head n)) \<Longrightarrow> (cs(current a := x)) t = In_wait"
      using d(1,2) [of t n] nw by auto
    show "(cs(current a := x)) t = In_lock n \<Longrightarrow> t \<in> set (waiting a (Mutex_head n)) \<or> owner a n = Some t"
      using d(3) [of t n] assms(4) by (auto split: if_splits)
    show "((t, n) \<in> H) = (owner a n = Some t \<and> (cs(current a := x)) t \<noteq> In_lock n)"
      using d(4) [of t n] assms(3,4) by auto
  qed
qed

section \<open>Resuming in \<open>mutex_lock_syscall\<close>\<close>

text \<open>A task that is switched to inside of \<open>mutex_lock_syscall\<close> has been handed the mutex.\<close>

lemma lock_resume_wf:
  assumes wf: "kernel_wf k" and c: "cur_tcb k = Some c" and ok: "conts_ok (abs_state k) cs H"
    and blocked: "cs c = In_lock m"
  shows "owner (abs_state k) m = Some c \<and>
    (\<exists>k'. mutex_lock_resume (int m) k = Some (Return 0, k') \<and> kernel_wf k' \<and> abs_state k' = abs_state k)"
proof -
  note s = spec_okD [OF wf_spec_ok [OF wf]]
  have cur: "current (abs_state k) = c" using c by (simp add: abs_state_def)
  have o: "owner (abs_state k) m = Some c" using conts_okD(3) [OF ok blocked] s(1) cur by blast
  then have m: "m < 32" "created (abs_state k) m" using s(4) by (auto simp: abs_state_def split: if_splits)
  obtain Q where inv: "kernel_inv k Q" and r: "ready (kq k) c = Some c"
    using wf c by (auto simp: kernel_wf_def)
  have "\<exists>k'. mutex_lock_take (int m) (disable_interrupts k) = Some (Return 0, k') \<and> kernel_inv k' Q \<and>
      kq k' = kq k \<and> cur_tcb k' = Some c \<and> irq_enabled k' \<and>
      abs_state k' = (abs_state k)\<lparr>owner := (owner (abs_state k))(m \<mapsto> c)\<rparr>"
    using mutex_lock_take_eq [of "disable_interrupts k" Q m c] inv m c o by simp
  then obtain k' where k': "mutex_lock_take (int m) (disable_interrupts k) = Some (Return 0, k')"
      "kernel_inv k' Q" "kq k' = kq k" "cur_tcb k' = Some c"
      "abs_state k' = (abs_state k)\<lparr>owner := (owner (abs_state k))(m \<mapsto> c)\<rparr>" by blast
  have "(owner (abs_state k))(m \<mapsto> c) = owner (abs_state k)" using o by (rule fun_upd_idem)
  then have "abs_state k' = abs_state k" using k'(5) by simp
  moreover have "kernel_wf k'" using k' r by (auto simp: kernel_wf_def)
  ultimately show ?thesis using k'(1) o by (simp add: mutex_lock_resume_def)
qed

lemma conts_ok_resume:
  assumes ok: "conts_ok a cs H" and c: "cs c = In_lock m" "owner a m = Some c"
    and nw: "\<And>l. c \<notin> set (waiting a l)"
  shows "conts_ok a (cs(c := User)) (insert (c, m) H)"
proof -
  note d = conts_okD [OF ok]
  show ?thesis
    unfolding conts_ok_def
  proof (intro conjI allI impI)
    fix t n
    show "t \<in> set (waiting a (Mutex_head n)) \<Longrightarrow> (cs(c := User)) t = In_lock n"
      "t \<in> set (waiting a (Dev_head n)) \<Longrightarrow> (cs(c := User)) t = In_wait"
      using d(1,2) [of t n] nw by auto
    show "(cs(c := User)) t = In_lock n \<Longrightarrow> t \<in> set (waiting a (Mutex_head n)) \<or> owner a n = Some t"
      using d(3) [of t n] by (auto split: if_splits)
    show "((t, n) \<in> insert (c, m) H) = (owner a n = Some t \<and> (cs(c := User)) t \<noteq> In_lock n)"
      using d(4) [of t n] c by auto
  qed
qed

section \<open>Reachable states\<close>

definition machine_inv :: "machine \<Rightarrow> bool" where
  "machine_inv s \<longleftrightarrow> kernel_wf (mk s) \<and> conts_ok (abs_state (mk s)) (conts s) (holds s)"

lemma fresh_inv: "fresh s \<Longrightarrow> machine_inv s"
  by (simp add: fresh_def machine_inv_def conts_ok_def)

inductive_cases mstepE: "mstep s s'"

lemma current_abs: "cur_tcb k = Some c \<Longrightarrow> current (abs_state k) = c"
  by (simp add: abs_state_def)

lemma mstep_inv:
  assumes inv: "machine_inv s" and step: "mstep s s'"
  shows "machine_inv s'"
proof -
  have wf: "kernel_wf (mk s)" and ok: "conts_ok (abs_state (mk s)) (conts s) (holds s)"
    using inv by (simp_all add: machine_inv_def)
  note sok = wf_spec_ok [OF wf]
  from step show ?thesis
  proof (cases rule: mstep.cases)
    case (lock c m out k)
    obtain out' k' where r: "mutex_lock_syscall (int m) (mk s) = Some (out', k')" "kernel_wf k'"
        "spec_lock m (abs_state (mk s)) = (out', abs_state k')"
      using mutex_lock_wf [OF wf, of m] lock(2,3) by auto
    with lock(5) have [simp]: "out' = out" "k' = k" by simp_all
    show ?thesis
      using conts_ok_lock [OF sok ok _ r(3)] r(2) lock(1,4) current_abs [OF lock(2)]
      by (simp add: machine_inv_def split: if_splits)
  next
    case (lock_resume c m out k)
    obtain k' where r: "owner (abs_state (mk s)) m = Some c" "mutex_lock_resume (int m) (mk s) = Some (Return 0, k')"
        "kernel_wf k'" "abs_state k' = abs_state (mk s)"
      using lock_resume_wf [OF wf lock_resume(2) ok lock_resume(3)] by blast
    with lock_resume(4) have [simp]: "out = Return 0" "k' = k" by simp_all
    have "c \<notin> set (waiting (abs_state (mk s)) l)" for l
      using spec_okD(1) [OF sok] current_abs [OF lock_resume(2)] by blast
    then show ?thesis
      using conts_ok_resume [OF ok lock_resume(3) r(1)] r(3,4) lock_resume(1) by (simp add: machine_inv_def)
  next
    case (unlock c m out k)
    obtain out' k' where r: "mutex_unlock_syscall (int m) (mk s) = Some (out', k')" "kernel_wf k'"
        "spec_unlock m (abs_state (mk s)) = (out', abs_state k')"
      using mutex_unlock_wf [OF wf, of m] by auto
    with unlock(5) have [simp]: "out' = out" "k' = k" by simp_all
    show ?thesis
      using conts_ok_unlock [OF sok ok _ r(3)] r(2) unlock(1,4) current_abs [OF unlock(2)]
      by (simp add: machine_inv_def split: if_splits)
  next
    case (create c out k)
    obtain out' k' where r: "mutex_create_syscall (mk s) = Some (out', k')" "kernel_wf k'"
        "spec_create (abs_state (mk s)) = (out', abs_state k')"
      using mutex_create_wf [OF wf] by auto
    with create(5) have [simp]: "k' = k" by simp
    have "owner (abs_state k) = owner (abs_state (mk s))" "waiting (abs_state k) = waiting (abs_state (mk s))"
    proof -
      have eq: "abs_state k = snd (spec_create (abs_state (mk s)))" using r(3) by simp
      show "owner (abs_state k) = owner (abs_state (mk s))" "waiting (abs_state k) = waiting (abs_state (mk s))"
        unfolding eq by (simp_all add: spec_create_def split: list.split)
    qed
    then show ?thesis
      using conts_ok_mono [OF ok] r(2) create(1) by (simp add: machine_inv_def)
  next
    case (event_wait c d out k)
    obtain out' k' where r: "event_wait_syscall d (mk s) = Some (out', k')" "kernel_wf k'"
        "spec_event_wait (unat d) (abs_state (mk s)) = (out', abs_state k')"
      using event_wait_wf [OF wf, of d] event_wait(2,3) by auto
    with event_wait(5) have [simp]: "out' = out" "k' = k" by simp_all
    show ?thesis
      using conts_ok_event_wait [OF sok ok _ r(3)] r(2) event_wait(1,4) current_abs [OF event_wait(2)]
      by (simp add: machine_inv_def)
  next
    case (wait_resume c)
    then show ?thesis
      using conts_ok_cont [OF sok ok, of User] wf current_abs [OF wait_resume(2)]
      by (simp add: machine_inv_def)
  next
    case (sleep c msec)
    have "cont_after User (sleep_enter msec (mk s)) \<noteq> In_lock m" for m
      by (simp add: sleep_enter_def Let_def)
    then show ?thesis
      using conts_ok_cont [OF sok ok] wf sleep current_abs [OF sleep(2)] by (simp add: machine_inv_def)
  next
    case (sleep_done c target)
    then show ?thesis
      using conts_ok_cont [OF sok ok, of User] wf current_abs [OF sleep_done(2)]
      by (simp add: machine_inv_def)
  next
    case (tick rd b b' k)
    obtain k' where r: "kernel_wf k'" "k' = k"
        "abs_state k' = spec_signal (matching (system_time (mk s) + 1) (mk s)) (abs_state (mk s))"
      using C_IRQ_Handler_wf [OF wf, of rd b] tick(2) by auto
    then show ?thesis
      using conts_ok_mono [OF ok spec_signal_frame] tick(1) by (simp add: machine_inv_def)
  qed
qed

lemma reachable_inv: "reachable s0 s \<Longrightarrow> machine_inv s0 \<Longrightarrow> machine_inv s"
  by (induction rule: reachable.induct) (simp_all add: mstep_inv)

end
