(* ===== verification/Threads.thy ===== *)
theory Threads
  imports System
begin

text \<open>
  User programs on the running system. A program is a transition table: in each local state a task
  makes a request (a system call, or a computation on the shared variables), and the value that
  the call returns takes it to its next local state. The steps of an application are those of the
  machine of theory \<open>System\<close>; they are proved to implement an abstract semantics without a
  scheduler, in which the tasks are threads that interleave at every point and a mutex is a
  variable that names its holder.
\<close>

section \<open>Programs\<close>

text \<open>
  The arguments of a call are in the local state (they have been loaded before the call).
  \<open>Send\<close> is a \<open>write\<close>, the characters of which go to the console one at a time.
\<close>

datatype request = Lock int | Unlock int | Create | Wait u32 | Sleep u32 | Now | Send "u8 list" | Compute

record ('g, 'l) program =
  request_of :: "'l \<Rightarrow> request"
  returns :: "u32 \<Rightarrow> 'g \<Rightarrow> 'l \<Rightarrow> 'g \<times> 'l"

record ('g, 'l) threads =
  globals :: 'g
  locals :: "nat \<Rightarrow> 'l"
  pending :: "nat \<Rightarrow> u8 list"
  console :: "u8 list"

text \<open>The program goes on when the call has returned.\<close>

definition return_to :: "('g, 'l) program \<Rightarrow> nat \<Rightarrow> outcome \<Rightarrow> ('g, 'l, 'z) threads_scheme \<Rightarrow> ('g, 'l, 'z) threads_scheme" where
  "return_to P c out s = (case out of
     Return r \<Rightarrow> (case returns P r (globals s) (locals s c) of
       (g, l) \<Rightarrow> s\<lparr>globals := g, locals := (locals s)(c := l)\<rparr>)
   | _ \<Rightarrow> s)"

definition send_char :: "nat \<Rightarrow> ('g, 'l, 'z) threads_scheme \<Rightarrow> ('g, 'l, 'z) threads_scheme" where
  "send_char c s = s\<lparr>pending := (pending s)(c := tl (pending s c)), console := console s @ [hd (pending s c)]\<rparr>"

definition start_send :: "nat \<Rightarrow> u8 list \<Rightarrow> ('g, 'l, 'z) threads_scheme \<Rightarrow> ('g, 'l, 'z) threads_scheme" where
  "start_send c bs s = s\<lparr>pending := (pending s)(c := bs)\<rparr>"

section \<open>Applications on the machine\<close>

record ('g, 'l) app = "('g, 'l) threads" +
  mach :: machine

definition calling :: "('g, 'l) app \<Rightarrow> nat \<Rightarrow> bool" where
  "calling s c \<longleftrightarrow> cur_tcb (mk (mach s)) = Some c \<and> c \<noteq> IDLE_PRIO \<and> conts (mach s) c = User"

inductive astep :: "('g, 'l) program \<Rightarrow> ('g, 'l) app \<Rightarrow> ('g, 'l) app \<Rightarrow> bool" for P where
  a_send: "astep P s (send_char c s)"
    if "calling s c" "pending s c \<noteq> []"
| a_write: "astep P s (return_to P c (Return (of_nat (length bs))) (start_send c bs s))"
    if "calling s c" "pending s c = []" "request_of P (locals s c) = Send bs"
| a_compute: "astep P s (return_to P c (Return 0) s)"
    if "calling s c" "pending s c = []" "request_of P (locals s c) = Compute"
| a_now: "astep P s (return_to P c (Return (time_syscall (mk (mach s)))) s)"
    if "calling s c" "pending s c = []" "request_of P (locals s c) = Now"
| a_lock: "astep P s (return_to P c out (s\<lparr>mach := \<lparr>mk = k,
        conts = (conts (mach s))(c := cont_after (In_lock (nat i)) out),
        holds = (if out = Return 0 then insert (c, nat i) (holds (mach s)) else holds (mach s))\<rparr>\<rparr>))"
    if "calling s c" "pending s c = []" "request_of P (locals s c) = Lock i"
      "mutex_lock_syscall i (mk (mach s)) = Some (out, k)"
| a_lock_resume: "astep P s (return_to P c out (s\<lparr>mach := \<lparr>mk = k, conts = (conts (mach s))(c := User),
        holds = (if out = Return 0 then insert (c, m) (holds (mach s)) else holds (mach s))\<rparr>\<rparr>))"
    if "cur_tcb (mk (mach s)) = Some c" "conts (mach s) c = In_lock m"
      "mutex_lock_resume (int m) (mk (mach s)) = Some (out, k)"
| a_unlock: "astep P s (return_to P c out (s\<lparr>mach := \<lparr>mk = k, conts = conts (mach s),
        holds = (if out = Return 0 then holds (mach s) - {(c, nat i)} else holds (mach s))\<rparr>\<rparr>))"
    if "calling s c" "pending s c = []" "request_of P (locals s c) = Unlock i"
      "mutex_unlock_syscall i (mk (mach s)) = Some (out, k)"
| a_create: "astep P s (return_to P c out (s\<lparr>mach := (mach s)\<lparr>mk := k\<rparr>\<rparr>))"
    if "calling s c" "pending s c = []" "request_of P (locals s c) = Create"
      "mutex_create_syscall (mk (mach s)) = Some (out, k)"
| a_wait: "astep P s (return_to P c out (s\<lparr>mach := (mach s)\<lparr>mk := k,
        conts := (conts (mach s))(c := cont_after In_wait out)\<rparr>\<rparr>))"
    if "calling s c" "pending s c = []" "request_of P (locals s c) = Wait d"
      "event_wait_syscall d (mk (mach s)) = Some (out, k)"
| a_wait_resume: "astep P s (return_to P c (Return 0) (s\<lparr>mach := (mach s)\<lparr>conts := (conts (mach s))(c := User)\<rparr>\<rparr>))"
    if "cur_tcb (mk (mach s)) = Some c" "conts (mach s) c = In_wait"
| a_sleep: "astep P s (return_to P c (sleep_enter msec (mk (mach s))) (s\<lparr>mach := (mach s)\<lparr>
        conts := (conts (mach s))(c := cont_after User (sleep_enter msec (mk (mach s))))\<rparr>\<rparr>))"
    if "calling s c" "pending s c = []" "request_of P (locals s c) = Sleep msec"
| a_sleep_done: "astep P s (return_to P c (Return 0) (s\<lparr>mach := (mach s)\<lparr>conts := (conts (mach s))(c := User)\<rparr>\<rparr>))"
    if "cur_tcb (mk (mach s)) = Some c" "conts (mach s) c = Sleeping target"
      "\<not> target > system_time (mk (mach s))"
| a_tick: "astep P s (s\<lparr>mach := (mach s)\<lparr>mk := k\<rparr>\<rparr>)"
    if "C_IRQ_Handler rd (b, mk (mach s)) = Some (b', k)"

inductive areach :: "('g, 'l) program \<Rightarrow> ('g, 'l) app \<Rightarrow> ('g, 'l) app \<Rightarrow> bool" for P s0 where
  a_start: "areach P s0 s0"
| a_step: "areach P s0 s \<Longrightarrow> astep P s s' \<Longrightarrow> areach P s0 s'"

section \<open>The abstract semantics\<close>

text \<open>\<open>own\<close> names the holder of each mutex, \<open>made\<close> are the mutexes that were created.\<close>

record ('g, 'l) thread_spec = "('g, 'l) threads" +
  own :: "nat \<Rightarrow> nat option"
  made :: "nat set"

text \<open>The mutex that the next \<open>mutex_create\<close> hands out.\<close>

definition next_mutex :: "nat set \<Rightarrow> nat option" where
  "next_mutex M = (case filter (\<lambda>m. m \<notin> M) [0..<OS_NUM_MUTEX] of [] \<Rightarrow> None | m # _ \<Rightarrow> Some m)"

inductive tstep :: "('g, 'l) program \<Rightarrow> nat set \<Rightarrow> ('g, 'l) thread_spec \<Rightarrow> ('g, 'l) thread_spec \<Rightarrow> bool" for P T where
  t_send: "tstep P T s (send_char t s)"
    if "t \<in> T" "pending s t \<noteq> []"
| t_write: "tstep P T s (return_to P t (Return (of_nat (length bs))) (start_send t bs s))"
    if "t \<in> T" "pending s t = []" "request_of P (locals s t) = Send bs"
| t_value: "tstep P T s (return_to P t (Return r) s)"
    if "t \<in> T" "pending s t = []"
      "request_of P (locals s t) = Compute \<and> r = 0 \<or> request_of P (locals s t) = Now \<or>
       request_of P (locals s t) = Sleep msec \<and> r = 0 \<or>
       request_of P (locals s t) = Wait d \<and> r = (if d > 62 then EINVAL else 0)"
| t_lock: "tstep P T s (return_to P t (Return 0) (s\<lparr>own := (own s)(m \<mapsto> t)\<rparr>))"
    if "t \<in> T" "pending s t = []" "request_of P (locals s t) = Lock (int m)" "m \<in> made s" "own s m = None"
| t_unlock: "tstep P T s (return_to P t (Return 0) (s\<lparr>own := (own s)(m := None)\<rparr>))"
    if "t \<in> T" "pending s t = []" "request_of P (locals s t) = Unlock (int m)" "own s m = Some t"
| t_refused: "tstep P T s (return_to P t (Return r) s)"
    if "t \<in> T" "pending s t = []"
      "request_of P (locals s t) = Lock (int m) \<and> (m \<notin> made s \<and> r = EINVAL \<or> own s m = Some t \<and> r = EDEADLOCK) \<or>
       request_of P (locals s t) = Unlock (int m) \<and>
         (m \<notin> made s \<and> r = EINVAL \<or> m \<in> made s \<and> own s m \<noteq> Some t \<and> r = EPERM)"
| t_create: "tstep P T s (return_to P t (Return (of_nat m)) (s\<lparr>made := insert m (made s)\<rparr>))"
    if "t \<in> T" "pending s t = []" "request_of P (locals s t) = Create" "next_mutex (made s) = Some m"
| t_create_fails: "tstep P T s (return_to P t (Return (- ENOMEM)) s)"
    if "t \<in> T" "pending s t = []" "request_of P (locals s t) = Create" "next_mutex (made s) = None"

inductive treach :: "('g, 'l) program \<Rightarrow> nat set \<Rightarrow> ('g, 'l) thread_spec \<Rightarrow> ('g, 'l) thread_spec \<Rightarrow> bool" for P T s0 where
  t_start: "treach P T s0 s0"
| t_step: "treach P T s0 s \<Longrightarrow> tstep P T s s' \<Longrightarrow> treach P T s0 s'"

text \<open>The abstraction. A task that was handed a mutex but has not run since does not own it yet.\<close>

definition own_of :: "machine \<Rightarrow> nat \<Rightarrow> nat option" where
  "own_of s m = (case owner (abs_state (mk s)) m of
     Some t \<Rightarrow> if (t, m) \<in> holds s then Some t else None | None \<Rightarrow> None)"

definition made_of :: "machine \<Rightarrow> nat set" where
  "made_of s = {m. created (abs_state (mk s)) m}"

definition spec_of :: "('g, 'l) app \<Rightarrow> ('g, 'l) thread_spec" where
  "spec_of s = \<lparr>globals = globals s, locals = locals s, pending = pending s, console = console s,
     own = own_of (mach s), made = made_of (mach s)\<rparr>"

section \<open>The tasks of the system\<close>

definition population :: "sched_spec \<Rightarrow> nat set" where
  "population a = runnable a \<union> (\<Union>l. set (waiting a l))"

lemma population_sleep: "current a \<in> runnable a \<Longrightarrow> population (spec_sleep l a) \<subseteq> population a"
  by (auto simp: population_def spec_sleep_def split: if_splits)

lemma population_wake: "population (spec_wake l a) \<subseteq> population a"
proof (cases "waiting a l")
  case (Cons t ts)
  then have "t \<in> set (waiting a l)" "\<And>u. u \<in> set ts \<Longrightarrow> u \<in> set (waiting a l)" by auto
  then have "t \<in> population a" "\<And>u. u \<in> set ts \<Longrightarrow> u \<in> population a" unfolding population_def by blast+
  moreover have "u \<in> population a" if "u \<in> runnable a \<or> u \<in> set (waiting a x)" for u x
    using that by (auto simp: population_def)
  moreover have "population (spec_wake l a) = insert t (runnable a) \<union> (\<Union>x. set (if x = l then ts else waiting a x))"
    using Cons by (simp add: population_def spec_wake_def)
  ultimately show ?thesis by (auto split: if_splits) blast
qed (simp add: spec_wake_def)

lemma population_simps [simp]:
  "population (spec_dispatch a) = population a" "population (a\<lparr>owner := ow\<rparr>) = population a"
  "population (a\<lparr>created := cr\<rparr>) = population a"
  by (simp_all add: population_def spec_dispatch_def)

lemma population_signal: "population (spec_signal D a) \<subseteq> population a"
  by (auto simp: population_def spec_signal_def spec_dispatch_def Let_def split: if_splits)

lemma population_lock: "spec_lock m a = (out, a') \<Longrightarrow> current a \<in> runnable a \<Longrightarrow> population a' \<subseteq> population a"
  using population_sleep [of a "Mutex_head m"] by (auto simp: spec_lock_def split: if_splits option.splits)

lemma population_unlock: "spec_unlock m a = (out, a') \<Longrightarrow> population a' \<subseteq> population a"
  using population_wake [of "Mutex_head m" a] by (auto simp: spec_unlock_def split: if_splits)

lemma population_event_wait:
  "spec_event_wait d a = (out, a') \<Longrightarrow> current a \<in> runnable a \<Longrightarrow> population a' \<subseteq> population a"
  using population_sleep [of a "Dev_head d"] by (auto simp: spec_event_wait_def split: if_splits)

lemma population_create: "spec_create a = (out, a') \<Longrightarrow> population a' = population a"
  by (auto simp: spec_create_def split: list.splits)

text \<open>Which mutexes exist changes with \<open>mutex_create\<close> only.\<close>

lemma created_lock: "spec_lock m a = (out, a') \<Longrightarrow> created a' = created a"
  by (auto simp: spec_lock_def spec_dispatch_def spec_sleep_def split: if_splits option.splits)

lemma created_unlock: "spec_unlock m a = (out, a') \<Longrightarrow> created a' = created a"
  by (auto simp: spec_unlock_def spec_wake_def split: if_splits list.splits)

lemma created_event_wait: "spec_event_wait d a = (out, a') \<Longrightarrow> created a' = created a"
  by (auto simp: spec_event_wait_def spec_dispatch_def spec_sleep_def split: if_splits)

lemma created_signal: "created (spec_signal D a) = created a"
  by (simp add: spec_signal_def spec_dispatch_def Let_def)

section \<open>What the abstraction keeps\<close>

lemma return_to_simps [simp]:
  "pending (return_to P c out s) = pending s" "console (return_to P c out s) = console s"
  "threads.more (return_to P c out s) = threads.more s"
  "return_to P c Switched s = s" "return_to P c Hang s = s" "return_to P c (Spin x) s = s"
  by (simp_all add: return_to_def split: outcome.split prod.split)

lemma return_to_locals:
  "locals (return_to P c out s) x = (if x = c \<and> (\<exists>r. out = Return r) then locals (return_to P c out s) c else locals s x)"
  by (auto simp: return_to_def split: outcome.split prod.split)

lemma mach_return [simp]: "mach (return_to P c out s) = mach s"
  by (simp add: return_to_def split: outcome.split prod.split)

lemma mach_send [simp]: "mach (send_char c s) = mach s" "mach (start_send c bs s) = mach s"
  by (simp_all add: send_char_def start_send_def)

lemma send_simps [simp]:
  "locals (send_char c s) = locals s" "locals (start_send c bs s) = locals s"
  "globals (send_char c s) = globals s" "globals (start_send c bs s) = globals s"
  by (simp_all add: send_char_def start_send_def)

lemma spec_of_simps [simp]:
  "globals (spec_of s) = globals s" "locals (spec_of s) = locals s" "pending (spec_of s) = pending s"
  "console (spec_of s) = console s" "own (spec_of s) = own_of (mach s)" "made (spec_of s) = made_of (mach s)"
  by (simp_all add: spec_of_def)

lemma spec_of_return: "spec_of (return_to P c out s) = return_to P c out (spec_of s)"
  by (simp add: return_to_def spec_of_def split: outcome.split prod.split)

lemma spec_of_send:
  "spec_of (send_char c s) = send_char c (spec_of s)" "spec_of (start_send c bs s) = start_send c bs (spec_of s)"
  by (simp_all add: send_char_def start_send_def spec_of_def)

lemma spec_of_mach: "spec_of (s\<lparr>mach := m\<rparr>) = (spec_of s)\<lparr>own := own_of m, made := made_of m\<rparr>"
  by (simp add: spec_of_def)

lemma spec_of_keep [simp]:
  "(spec_of s)\<lparr>own := own_of (mach s), made := made_of (mach s)\<rparr> = spec_of s"
  "(spec_of s)\<lparr>own := f, made := made_of (mach s)\<rparr> = (spec_of s)\<lparr>own := f\<rparr>"
  "(spec_of s)\<lparr>own := own_of (mach s), made := M\<rparr> = (spec_of s)\<lparr>made := M\<rparr>"
  by (simp_all add: spec_of_def)

lemma option_eqI: "(\<And>t. x = Some t \<longleftrightarrow> y = Some t) \<Longrightarrow> x = y"
  by (cases x; cases y) auto

lemma own_of_holds: "machine_inv s \<Longrightarrow> own_of s m = Some t \<longleftrightarrow> (t, m) \<in> holds s"
  using conts_okD(4) [of "abs_state (mk s)" "conts s" "holds s" _ m]
  by (auto simp: own_of_def machine_inv_def split: option.splits)

lemma own_of_same: "machine_inv s \<Longrightarrow> machine_inv s' \<Longrightarrow> holds s' = holds s \<Longrightarrow> own_of s' = own_of s"
  by (intro ext option_eqI) (simp add: own_of_holds)

lemma own_of_lock:
  assumes "machine_inv s" "machine_inv s'" "holds s' = insert (c, m) (holds s)"
  shows "own_of s' = (own_of s)(m \<mapsto> c)"
proof (rule ext)
  fix n
  have "own_of s' m = Some c" using assms own_of_holds [OF assms(2), of m c] by simp
  moreover have "own_of s' n = own_of s n" if "n \<noteq> m"
    using that assms by (intro option_eqI) (simp add: own_of_holds)
  ultimately show "own_of s' n = ((own_of s)(m \<mapsto> c)) n" by simp
qed

lemma own_of_unlock:
  assumes "machine_inv s" "machine_inv s'" "holds s' = holds s - {(c, m)}" "(c, m) \<in> holds s"
  shows "own_of s' = (own_of s)(m := None)"
proof (rule ext)
  fix n
  have "own_of s' m \<noteq> Some t" for t
    using assms own_of_holds [OF assms(2), of m t] own_of_holds [OF assms(1), of m t]
      own_of_holds [OF assms(1), of m c] by auto
  then have "own_of s' m = None" using not_None_eq by blast
  moreover have "own_of s' n = own_of s n" if "n \<noteq> m"
    using that assms by (intro option_eqI) (simp add: own_of_holds)
  ultimately show "own_of s' n = ((own_of s)(m := None)) n" by simp
qed

lemma made_of_simp [simp]: "m \<in> made_of s \<longleftrightarrow> created (abs_state (mk s)) m"
  by (simp add: made_of_def)

lemma made_of_same: "created (abs_state (mk s')) = created (abs_state (mk s)) \<Longrightarrow> made_of s' = made_of s"
  by (simp add: made_of_def)

section \<open>The machine implements the threads\<close>

text \<open>A task inside of a call has the request that the call serves, and nothing left to send.\<close>

fun cont_serves :: "cont \<Rightarrow> request \<Rightarrow> u8 list \<Rightarrow> bool" where
  "cont_serves User _ _ \<longleftrightarrow> True"
| "cont_serves (In_lock m) req p \<longleftrightarrow> req = Lock (int m) \<and> p = []"
| "cont_serves In_wait req p \<longleftrightarrow> (\<exists>d. req = Wait d \<and> \<not> d > 62) \<and> p = []"
| "cont_serves (Sleeping _) req p \<longleftrightarrow> (\<exists>d. req = Sleep d) \<and> p = []"

definition app_inv :: "('g, 'l) program \<Rightarrow> nat set \<Rightarrow> ('g, 'l) app \<Rightarrow> bool" where
  "app_inv P T s \<longleftrightarrow> machine_inv (mach s) \<and> population (abs_state (mk (mach s))) \<subseteq> insert IDLE_PRIO T \<and>
     conts (mach s) IDLE_PRIO = User \<and>
     (\<forall>c. cont_serves (conts (mach s) c) (request_of P (locals s c)) (pending s c))"

definition simulated :: "('g, 'l) program \<Rightarrow> nat set \<Rightarrow> ('g, 'l) app \<Rightarrow> ('g, 'l) app \<Rightarrow> bool" where
  "simulated P T s s' \<longleftrightarrow> app_inv P T s' \<and> (spec_of s' = spec_of s \<or> tstep P T (spec_of s) (spec_of s'))"

lemma app_invD:
  assumes "app_inv P T s"
  shows "machine_inv (mach s)" "kernel_wf (mk (mach s))" "population (abs_state (mk (mach s))) \<subseteq> insert IDLE_PRIO T"
    "conts (mach s) IDLE_PRIO = User" "cont_serves (conts (mach s) c) (request_of P (locals s c)) (pending s c)"
    "spec_ok (abs_state (mk (mach s)))" "current (abs_state (mk (mach s))) \<in> runnable (abs_state (mk (mach s)))"
  using assms wf_spec_ok [of "mk (mach s)"] unfolding app_inv_def machine_inv_def spec_ok_def by blast+

lemma running_task:
  assumes "app_inv P T s" "cur_tcb (mk (mach s)) = Some c" "c \<noteq> IDLE_PRIO \<or> conts (mach s) c \<noteq> User"
  shows "c \<in> T"
proof -
  have "c \<in> population (abs_state (mk (mach s)))"
    using app_invD(7) [OF assms(1)] current_abs [OF assms(2)] by (simp add: population_def)
  then show ?thesis using assms app_invD(3,4) [OF assms(1)] by auto
qed

lemma callingD:
  assumes "calling s c" "app_inv P T s"
  shows "cur_tcb (mk (mach s)) = Some c" "c \<noteq> IDLE_PRIO" "conts (mach s) c = User" "c \<in> T"
    "cur_tcb (mk (mach s)) \<noteq> Some IDLE_PRIO" "current (abs_state (mk (mach s))) = c"
  using assms running_task [OF assms(2)] current_abs [of "mk (mach s)" c] by (auto simp: calling_def)

text \<open>Steps of the task alone leave the machine as it is.\<close>

lemma app_inv_local:
  assumes "app_inv P T s" "conts (mach s) c = User" "mach s' = mach s"
    and "\<And>x. x \<noteq> c \<Longrightarrow> locals s' x = locals s x \<and> pending s' x = pending s x"
  shows "app_inv P T s'"
  unfolding app_inv_def
proof (intro conjI allI)
  fix x
  show "cont_serves (conts (mach s') x) (request_of P (locals s' x)) (pending s' x)"
    using assms app_invD(5) [OF assms(1), of x] by (cases "x = c") simp_all
qed (use assms app_invD [OF assms(1)] in simp_all)

text \<open>Steps of the machine, behind which the call of task \<open>c\<close> may return.\<close>

lemma app_inv_call:
  assumes inv: "app_inv P T s" and step: "mstep (mach s) m'"
    and pop: "population (abs_state (mk m')) \<subseteq> population (abs_state (mk (mach s)))"
    and c: "c \<noteq> IDLE_PRIO" "conts m' = (conts (mach s))(c := x)"
    and ret: "cont_serves x (request_of P (locals s c)) (pending s c)" "\<exists>r. out = Return r \<Longrightarrow> x = User"
  shows "app_inv P T (return_to P c out (s\<lparr>mach := m'\<rparr>))"
  unfolding app_inv_def
proof (intro conjI allI)
  let ?s = "return_to P c out (s\<lparr>mach := m'\<rparr>)"
  show "machine_inv (mach ?s)" using mstep_inv [OF app_invD(1) [OF inv] step] by simp
  show "population (abs_state (mk (mach ?s))) \<subseteq> insert IDLE_PRIO T" using pop app_invD(3) [OF inv] by simp
  show "conts (mach ?s) IDLE_PRIO = User" using c app_invD(4) [OF inv] by simp
  fix y
  show "cont_serves (conts (mach ?s) y) (request_of P (locals ?s y)) (pending ?s y)"
  proof (cases "y = c")
    case True
    show ?thesis
    proof (cases "\<exists>r. out = Return r")
      case False
      then have "locals ?s c = locals s c" by (subst return_to_locals) simp
      then show ?thesis using True c(2) ret(1) by simp
    qed (use True c(2) ret(2) in simp)
  next
    case False
    then have "locals ?s y = locals s y" by (subst return_to_locals) simp
    then show ?thesis using False c(2) app_invD(5) [OF inv, of y] by simp
  qed
qed

lemma sim_lock:
  assumes inv: "app_inv P T s" and call: "calling s c" "pending s c = []" "request_of P (locals s c) = Lock (int m)"
    and lock: "mutex_lock_syscall (int m) (mk (mach s)) = Some (out, k)"
  defines "m' \<equiv> \<lparr>mk = k, conts = (conts (mach s))(c := cont_after (In_lock m) out),
      holds = (if out = Return 0 then insert (c, m) (holds (mach s)) else holds (mach s))\<rparr>"
  shows "simulated P T s (return_to P c out (s\<lparr>mach := m'\<rparr>))"
proof -
  note d = callingD [OF call(1) inv] and i = app_invD [OF inv]
  let ?a = "abs_state (mk (mach s))"
  have r: "spec_lock m ?a = (out, abs_state k)" using mutex_lock_wf [OF i(2) d(5), of m] lock by auto
  have step: "mstep (mach s) m'" unfolding m'_def by (rule mstep.lock [OF d(1-3) lock])
  have pop: "population (abs_state (mk m')) \<subseteq> population ?a"
    using population_lock [OF r i(7)] by (simp add: m'_def)
  have made: "made_of m' = made_of (mach s)" using created_lock [OF r] by (intro made_of_same) (simp add: m'_def)
  have inv': "machine_inv m'" using mstep_inv [OF i(1) step] .
  consider (refused) e where "out = Return e" "e \<noteq> 0" "abs_state k = ?a"
      "\<not> created ?a m \<and> e = EINVAL \<or> owner ?a m = Some c \<and> e = EDEADLOCK"
    | (free) "out = Return 0" "created ?a m" "owner ?a m = None"
    | (blocks) "out = Switched"
  proof -
    consider "\<not> created ?a m" | "created ?a m" "owner ?a m = None" | "created ?a m" "owner ?a m = Some c"
      | t where "created ?a m" "owner ?a m = Some t" "t \<noteq> c" by fastforce
    then show thesis
    proof cases
      case 1
      then show thesis using r refused [of EINVAL] by (simp add: spec_lock_def)
    next
      case 2
      then show thesis using r free by (simp add: spec_lock_def)
    next
      case 3
      then show thesis using r d(6) refused [of EDEADLOCK] by (simp add: spec_lock_def)
    next
      case (4 t)
      then show thesis using r d(6) blocks by (simp add: spec_lock_def)
    qed
  qed
  then show ?thesis
  proof cases
    case (refused e)
    have "own_of m' = own_of (mach s)" using refused by (intro own_of_same i(1) inv') (simp add: m'_def)
    moreover have "owner ?a m = Some c \<Longrightarrow> own_of (mach s) m = Some c"
      using i(1) d(3) conts_okD(4) [of ?a "conts (mach s)" "holds (mach s)" c m] own_of_holds [OF i(1)]
      by (simp add: machine_inv_def)
    ultimately have "tstep P T (spec_of s) (spec_of (return_to P c out (s\<lparr>mach := m'\<rparr>)))"
      using tstep.t_refused [of c T "spec_of s" P m e] refused d(4) call made
      by (auto simp: spec_of_return spec_of_mach)
    moreover have "app_inv P T (return_to P c out (s\<lparr>mach := m'\<rparr>))"
      using refused by (intro app_inv_call [OF inv step pop d(2), of User]) (simp_all add: m'_def)
    ultimately show ?thesis by (simp add: simulated_def)
  next
    case free
    have own: "own_of m' = (own_of (mach s))(m \<mapsto> c)"
      using free by (intro own_of_lock i(1) inv') (simp add: m'_def)
    have "own_of (mach s) m = None" using free by (simp add: own_of_def)
    then have "tstep P T (spec_of s) (spec_of (return_to P c out (s\<lparr>mach := m'\<rparr>)))"
      using tstep.t_lock [of c T "spec_of s" P m] free d(4) call made own
      by (simp add: spec_of_return spec_of_mach)
    moreover have "app_inv P T (return_to P c out (s\<lparr>mach := m'\<rparr>))"
      using free by (intro app_inv_call [OF inv step pop d(2), of User]) (simp_all add: m'_def)
    ultimately show ?thesis by (simp add: simulated_def)
  next
    case blocks
    have "own_of m' = own_of (mach s)" using blocks by (intro own_of_same i(1) inv') (simp add: m'_def)
    then have "spec_of (return_to P c out (s\<lparr>mach := m'\<rparr>)) = spec_of s"
      using blocks made by (simp add: spec_of_def)
    moreover have "app_inv P T (return_to P c out (s\<lparr>mach := m'\<rparr>))"
      using blocks call by (intro app_inv_call [OF inv step pop d(2), of "In_lock m"]) (simp_all add: m'_def)
    ultimately show ?thesis by (simp add: simulated_def)
  qed
qed

lemma sim_lock_resume:
  assumes inv: "app_inv P T s" and cur: "cur_tcb (mk (mach s)) = Some c" and cont: "conts (mach s) c = In_lock m"
    and lock: "mutex_lock_resume (int m) (mk (mach s)) = Some (out, k)"
  defines "m' \<equiv> \<lparr>mk = k, conts = (conts (mach s))(c := User),
      holds = (if out = Return 0 then insert (c, m) (holds (mach s)) else holds (mach s))\<rparr>"
  shows "simulated P T s (return_to P c out (s\<lparr>mach := m'\<rparr>))"
proof -
  note i = app_invD [OF inv]
  let ?a = "abs_state (mk (mach s))"
  have ok: "conts_ok ?a (conts (mach s)) (holds (mach s))" using i(1) by (simp add: machine_inv_def)
  have r: "owner ?a m = Some c" "out = Return 0" "abs_state k = ?a"
    using lock_resume_wf [OF i(2) cur ok cont] lock by auto
  have idle: "c \<noteq> IDLE_PRIO" using cont i(4) by auto
  have T: "c \<in> T" using running_task [OF inv cur] idle by simp
  have step: "mstep (mach s) m'" unfolding m'_def by (rule mstep.lock_resume [OF cur cont lock])
  have made: "made_of m' = made_of (mach s)" using r by (intro made_of_same) (simp add: m'_def)
  have own: "own_of m' = (own_of (mach s))(m \<mapsto> c)"
    using r by (intro own_of_lock i(1) mstep_inv [OF i(1) step]) (simp add: m'_def)
  have "(c, m) \<notin> holds (mach s)" using conts_okD(4) [OF ok] cont by simp
  then have "own_of (mach s) m = None" using r by (simp add: own_of_def)
  moreover have "m \<in> made_of (mach s)" using spec_okD(4) [OF i(6) r(1)] by simp
  ultimately have "tstep P T (spec_of s) (spec_of (return_to P c out (s\<lparr>mach := m'\<rparr>)))"
    using tstep.t_lock [of c T "spec_of s" P m] r(2) T i(5) [of c] cont made own
    by (simp add: spec_of_return spec_of_mach)
  moreover have "app_inv P T (return_to P c out (s\<lparr>mach := m'\<rparr>))"
    using r by (intro app_inv_call [OF inv step _ idle, of User]) (simp_all add: m'_def)
  ultimately show ?thesis by (simp add: simulated_def)
qed

lemma sim_unlock:
  assumes inv: "app_inv P T s" and call: "calling s c" "pending s c = []" "request_of P (locals s c) = Unlock (int m)"
    and unlock: "mutex_unlock_syscall (int m) (mk (mach s)) = Some (out, k)"
  defines "m' \<equiv> \<lparr>mk = k, conts = conts (mach s),
      holds = (if out = Return 0 then holds (mach s) - {(c, m)} else holds (mach s))\<rparr>"
  shows "simulated P T s (return_to P c out (s\<lparr>mach := m'\<rparr>))"
proof -
  note d = callingD [OF call(1) inv] and i = app_invD [OF inv]
  let ?a = "abs_state (mk (mach s))"
  have ok: "conts_ok ?a (conts (mach s)) (holds (mach s))" using i(1) by (simp add: machine_inv_def)
  have holds: "owner ?a m = Some c \<longleftrightarrow> (c, m) \<in> holds (mach s)" using conts_okD(4) [OF ok] d(3) by simp
  have r: "spec_unlock m ?a = (out, abs_state k)" using mutex_unlock_wf [OF i(2), of m] unlock by auto
  have step: "mstep (mach s) m'" unfolding m'_def by (rule mstep.unlock [OF d(1-3) unlock])
  have pop: "population (abs_state (mk m')) \<subseteq> population ?a"
    using population_unlock [OF r] by (simp add: m'_def)
  have made: "made_of m' = made_of (mach s)" using created_unlock [OF r] by (intro made_of_same) (simp add: m'_def)
  have inv': "machine_inv m'" using mstep_inv [OF i(1) step] .
  have same: "conts m' = (conts (mach s))(c := User)" using d(3) by (simp add: m'_def fun_eq_iff)
  have app: "app_inv P T (return_to P c out (s\<lparr>mach := m'\<rparr>))"
    using d(3) by (intro app_inv_call [OF inv step pop d(2) same]) simp_all
  consider (refused) e where "out = Return e" "e \<noteq> 0"
      "\<not> created ?a m \<and> e = EINVAL \<or> created ?a m \<and> owner ?a m \<noteq> Some c \<and> e = EPERM"
    | (released) "out = Return 0" "owner ?a m = Some c"
    using r d(6) by (auto simp: spec_unlock_def split: if_splits)
  then have "tstep P T (spec_of s) (spec_of (return_to P c out (s\<lparr>mach := m'\<rparr>)))"
  proof cases
    case (refused e)
    have "own_of m' = own_of (mach s)" using refused by (intro own_of_same i(1) inv') (simp add: m'_def)
    then show ?thesis
      using tstep.t_refused [of c T "spec_of s" P m e] refused d(4) call made holds own_of_holds [OF i(1), of m c]
      by (auto simp: spec_of_return spec_of_mach)
  next
    case released
    have "own_of m' = (own_of (mach s))(m := None)"
      using released holds by (intro own_of_unlock i(1) inv') (simp_all add: m'_def)
    then show ?thesis
      using tstep.t_unlock [of c T "spec_of s" P m] released d(4) call made holds own_of_holds [OF i(1), of m c]
      by (simp add: spec_of_return spec_of_mach)
  qed
  with app show ?thesis by (simp add: simulated_def)
qed

lemma sim_create:
  assumes inv: "app_inv P T s" and call: "calling s c" "pending s c = []" "request_of P (locals s c) = Create"
    and create: "mutex_create_syscall (mk (mach s)) = Some (out, k)"
  shows "simulated P T s (return_to P c out (s\<lparr>mach := (mach s)\<lparr>mk := k\<rparr>\<rparr>))"
proof -
  note d = callingD [OF call(1) inv] and i = app_invD [OF inv]
  let ?a = "abs_state (mk (mach s))" and ?m = "(mach s)\<lparr>mk := k\<rparr>"
  have r: "spec_create ?a = (out, abs_state k)" using mutex_create_wf [OF i(2)] create by auto
  have step: "mstep (mach s) ?m" by (rule mstep.create [OF d(1-3) create])
  have app: "app_inv P T (return_to P c out (s\<lparr>mach := ?m\<rparr>))"
    using population_create [OF r] d(3) by (intro app_inv_call [OF inv step _ d(2), of User]) (auto simp: fun_upd_idem)
  have own: "own_of ?m = own_of (mach s)" by (intro own_of_same i(1) mstep_inv [OF i(1) step]) simp
  have next_eq: "next_mutex (made_of (mach s)) =
      (case filter (\<lambda>m. \<not> created ?a m) [0..<OS_NUM_MUTEX] of [] \<Rightarrow> None | m # _ \<Rightarrow> Some m)"
    by (simp add: next_mutex_def)
  have "tstep P T (spec_of s) (spec_of (return_to P c out (s\<lparr>mach := ?m\<rparr>)))"
  proof (cases "filter (\<lambda>m. \<not> created ?a m) [0..<OS_NUM_MUTEX]")
    case Nil
    then have out: "out = Return (- ENOMEM)" "abs_state k = ?a" using r by (simp_all add: spec_create_def)
    then have "made_of ?m = made_of (mach s)" by (intro made_of_same) simp
    then show ?thesis
      using tstep.t_create_fails [of c T "spec_of s" P] Nil out d(4) call own next_eq
      by (simp add: spec_of_return spec_of_mach)
  next
    case (Cons m ms)
    then have out: "out = Return (of_nat m)" "abs_state k = ?a\<lparr>created := (created ?a)(m := True)\<rparr>"
      using r by (simp_all add: spec_create_def)
    then have "made_of ?m = insert m (made_of (mach s))" by (auto simp: made_of_def)
    then show ?thesis
      using tstep.t_create [of c T "spec_of s" P m] Cons out d(4) call own next_eq
      by (simp add: spec_of_return spec_of_mach)
  qed
  with app show ?thesis by (simp add: simulated_def)
qed

lemma sim_wait:
  assumes inv: "app_inv P T s" and call: "calling s c" "pending s c = []" "request_of P (locals s c) = Wait d"
    and wait: "event_wait_syscall d (mk (mach s)) = Some (out, k)"
  shows "simulated P T s (return_to P c out (s\<lparr>mach := (mach s)\<lparr>mk := k,
        conts := (conts (mach s))(c := cont_after In_wait out)\<rparr>\<rparr>))"
proof -
  note ca = callingD [OF call(1) inv] and i = app_invD [OF inv]
  let ?a = "abs_state (mk (mach s))" and ?m = "(mach s)\<lparr>mk := k, conts := (conts (mach s))(c := cont_after In_wait out)\<rparr>"
  have r: "spec_event_wait (unat d) ?a = (out, abs_state k)" using event_wait_wf [OF i(2) ca(5), of d] wait by auto
  have step: "mstep (mach s) ?m" by (rule mstep.event_wait [OF ca(1-3) wait])
  have pop: "population (abs_state (mk ?m)) \<subseteq> population ?a" using population_event_wait [OF r i(7)] by simp
  have own: "own_of ?m = own_of (mach s)" by (intro own_of_same i(1) mstep_inv [OF i(1) step]) simp
  have made: "made_of ?m = made_of (mach s)" using created_event_wait [OF r] by (intro made_of_same) simp
  show ?thesis
  proof (cases "d > 62")
    case True
    then have out: "out = Return EINVAL" using r by (simp add: spec_event_wait_def word_less_nat_alt)
    have "app_inv P T (return_to P c out (s\<lparr>mach := ?m\<rparr>))"
      using out by (intro app_inv_call [OF inv step pop ca(2), of User]) simp_all
    moreover have "tstep P T (spec_of s) (spec_of (return_to P c out (s\<lparr>mach := ?m\<rparr>)))"
      using tstep.t_value [of c T "spec_of s" P EINVAL _ d] True out call ca(4) own made
      by (simp add: spec_of_return spec_of_mach)
    ultimately show ?thesis by (simp add: simulated_def)
  next
    case False
    then have out: "out = Switched" using r by (simp add: spec_event_wait_def word_less_nat_alt split: if_splits)
    have "app_inv P T (return_to P c out (s\<lparr>mach := ?m\<rparr>))"
      using out call False by (intro app_inv_call [OF inv step pop ca(2), of In_wait]) simp_all
    moreover have "spec_of (return_to P c out (s\<lparr>mach := ?m\<rparr>)) = spec_of s"
      using out own made by (simp add: spec_of_mach)
    ultimately show ?thesis by (simp add: simulated_def)
  qed
qed

text \<open>The rest of a call that waited or slept.\<close>

lemma sim_resume:
  assumes inv: "app_inv P T s" and cur: "cur_tcb (mk (mach s)) = Some c"
    and cont: "conts (mach s) c = In_wait \<or> (\<exists>t. conts (mach s) c = Sleeping t)"
    and step: "mstep (mach s) ((mach s)\<lparr>conts := (conts (mach s))(c := User)\<rparr>)"
  shows "simulated P T s (return_to P c (Return 0) (s\<lparr>mach := (mach s)\<lparr>conts := (conts (mach s))(c := User)\<rparr>\<rparr>))"
proof -
  note i = app_invD [OF inv]
  let ?m = "(mach s)\<lparr>conts := (conts (mach s))(c := User)\<rparr>"
  have idle: "c \<noteq> IDLE_PRIO" using cont i(4) by auto
  have T: "c \<in> T" using running_task [OF inv cur] idle by simp
  have own: "own_of ?m = own_of (mach s)" by (intro own_of_same i(1) mstep_inv [OF i(1) step]) simp
  have made: "made_of ?m = made_of (mach s)" by (intro made_of_same) simp
  have req: "pending s c = []" "(\<exists>d. request_of P (locals s c) = Wait d \<and> \<not> d > 62) \<or>
      (\<exists>d. request_of P (locals s c) = Sleep d)"
    using i(5) [of c] cont by auto
  have app: "app_inv P T (return_to P c (Return 0) (s\<lparr>mach := ?m\<rparr>))"
    by (intro app_inv_call [OF inv step _ idle, of User]) simp_all
  have "tstep P T (spec_of s) (return_to P c (Return 0) (spec_of s))"
    using req T by (auto intro: tstep.t_value)
  with app show ?thesis by (simp add: simulated_def spec_of_return spec_of_mach own made)
qed

lemma sim_sleep:
  assumes inv: "app_inv P T s" and call: "calling s c" "pending s c = []" "request_of P (locals s c) = Sleep msec"
  shows "simulated P T s (return_to P c (sleep_enter msec (mk (mach s))) (s\<lparr>mach := (mach s)\<lparr>
        conts := (conts (mach s))(c := cont_after User (sleep_enter msec (mk (mach s))))\<rparr>\<rparr>))"
proof -
  note ca = callingD [OF call(1) inv] and i = app_invD [OF inv]
  let ?o = "sleep_enter msec (mk (mach s))"
  let ?m = "(mach s)\<lparr>conts := (conts (mach s))(c := cont_after User ?o)\<rparr>"
  have step: "mstep (mach s) ?m" by (rule mstep.sleep [OF ca(1-3)])
  have own: "own_of ?m = own_of (mach s)" by (intro own_of_same i(1) mstep_inv [OF i(1) step]) simp
  have made: "made_of ?m = made_of (mach s)" by (intro made_of_same) simp
  have "?o = Return 0 \<or> (\<exists>t. ?o = Spin t)" by (auto simp: sleep_enter_def Let_def)
  then consider "?o = Return 0" | t where "?o = Spin t" by blast
  then show ?thesis
  proof cases
    case 1
    have "app_inv P T (return_to P c ?o (s\<lparr>mach := ?m\<rparr>))"
      using 1 by (intro app_inv_call [OF inv step _ ca(2), of User]) simp_all
    moreover have "tstep P T (spec_of s) (return_to P c (Return 0) (spec_of s))"
      using call ca(4) by (auto intro: tstep.t_value)
    ultimately show ?thesis using 1 own made by (simp add: simulated_def spec_of_return spec_of_mach)
  next
    case (2 t)
    have "app_inv P T (return_to P c ?o (s\<lparr>mach := ?m\<rparr>))"
      using 2 call by (intro app_inv_call [OF inv step _ ca(2), of "Sleeping t"]) simp_all
    then show ?thesis using 2 own made by (simp add: simulated_def spec_of_mach)
  qed
qed

lemma sim_tick:
  assumes inv: "app_inv P T s" and irq: "C_IRQ_Handler rd (b, mk (mach s)) = Some (b', k)"
  shows "simulated P T s (s\<lparr>mach := (mach s)\<lparr>mk := k\<rparr>\<rparr>)"
proof -
  note i = app_invD [OF inv]
  let ?m = "(mach s)\<lparr>mk := k\<rparr>"
  have step: "mstep (mach s) ?m" by (rule mstep.tick [OF irq])
  obtain D where r: "abs_state k = spec_signal D (abs_state (mk (mach s)))"
    using C_IRQ_Handler_wf [OF i(2), of rd b] irq by auto
  have own: "own_of ?m = own_of (mach s)" by (intro own_of_same i(1) mstep_inv [OF i(1) step]) simp
  have made: "made_of ?m = made_of (mach s)" using r created_signal by (intro made_of_same) simp
  have "app_inv P T (s\<lparr>mach := ?m\<rparr>)"
    unfolding app_inv_def
  proof (intro conjI allI)
    show "machine_inv (mach (s\<lparr>mach := ?m\<rparr>))" using mstep_inv [OF i(1) step] by simp
    show "population (abs_state (mk (mach (s\<lparr>mach := ?m\<rparr>)))) \<subseteq> insert IDLE_PRIO T"
      using r population_signal i(3) by fastforce
  qed (use i(4,5) in simp_all)
  then show ?thesis by (simp add: simulated_def spec_of_mach own made)
qed

text \<open>One step. A mutex number must not be negative, for which the kernel's behaviour is undefined.\<close>

definition request_ok :: "request \<Rightarrow> bool" where
  "request_ok req \<longleftrightarrow> (case req of Lock i \<Rightarrow> 0 \<le> i | Unlock i \<Rightarrow> 0 \<le> i | _ \<Rightarrow> True)"

lemma sim_local:
  assumes inv: "app_inv P T s" and call: "calling s c" and same: "mach s' = mach s"
    and others: "\<And>x. x \<noteq> c \<Longrightarrow> locals s' x = locals s x \<and> pending s' x = pending s x"
    and step: "c \<in> T \<Longrightarrow> tstep P T (spec_of s) (spec_of s')"
  shows "simulated P T s s'"
  using app_inv_local [OF inv callingD(3) [OF call inv] same others] step callingD(4) [OF call inv]
  by (simp add: simulated_def)

lemma astep_simulated:
  assumes inv: "app_inv P T s" and ok: "\<forall>t\<in>T. request_ok (request_of P (locals s t))" and step: "astep P s s'"
  shows "simulated P T s s'"
  using step
proof (cases rule: astep.cases)
  case (a_send c)
  have "pending (send_char c s) x = pending s x" if "x \<noteq> c" for x using that by (simp add: send_char_def)
  then show ?thesis
    by (intro sim_local [OF inv a_send(2)])
      (use a_send tstep.t_send [of c T "spec_of s"] in \<open>simp_all add: spec_of_send\<close>)
next
  case (a_write c bs)
  have "locals s' x = locals s x \<and> pending s' x = pending s x" if "x \<noteq> c" for x
    using that a_write by (simp add: return_to_locals [of P c _ _ x]) (simp add: start_send_def)
  then show ?thesis
    by (intro sim_local [OF inv a_write(2)])
      (use a_write tstep.t_write [of c T "spec_of s" P bs] in \<open>simp_all add: spec_of_return spec_of_send\<close>)
next
  case (a_compute c)
  then show ?thesis
    by (intro sim_local [OF inv a_compute(2)])
      (use tstep.t_value [of c T "spec_of s" P 0] in \<open>simp_all add: return_to_locals [of P c] spec_of_return\<close>)
next
  case (a_now c)
  then show ?thesis
    by (intro sim_local [OF inv a_now(2)])
      (use tstep.t_value [of c T "spec_of s" P] in \<open>simp_all add: return_to_locals [of P c] spec_of_return\<close>)
next
  case (a_lock c i out k)
  then have "0 \<le> i" using ok callingD(4) [OF a_lock(2) inv] by (force simp: request_ok_def)
  then obtain m where m: "i = int m" by (metis nonneg_int_cases)
  show ?thesis
    unfolding a_lock(1) m nat_int by (rule sim_lock [OF inv a_lock(2,3)]) (use a_lock(4,5) m in simp_all)
next
  case (a_lock_resume c m out k)
  show ?thesis unfolding a_lock_resume(1) by (rule sim_lock_resume [OF inv a_lock_resume(2-4)])
next
  case (a_unlock c i out k)
  then have "0 \<le> i" using ok callingD(4) [OF a_unlock(2) inv] by (force simp: request_ok_def)
  then obtain m where m: "i = int m" by (metis nonneg_int_cases)
  show ?thesis
    unfolding a_unlock(1) m nat_int by (rule sim_unlock [OF inv a_unlock(2,3)]) (use a_unlock(4,5) m in simp_all)
next
  case (a_create c out k)
  show ?thesis unfolding a_create(1) by (rule sim_create [OF inv a_create(2-5)])
next
  case (a_wait c d out k)
  show ?thesis unfolding a_wait(1) by (rule sim_wait [OF inv a_wait(2-5)])
next
  case (a_wait_resume c)
  then show ?thesis
    unfolding a_wait_resume(1) by (intro sim_resume [OF inv]) (auto intro: mstep.wait_resume)
next
  case (a_sleep c msec)
  show ?thesis unfolding a_sleep(1) by (rule sim_sleep [OF inv a_sleep(2-4)])
next
  case (a_sleep_done c target)
  then show ?thesis
    unfolding a_sleep_done(1) by (intro sim_resume [OF inv]) (auto intro: mstep.sleep_done)
next
  case (a_tick rd b b' k)
  show ?thesis unfolding a_tick(1) by (rule sim_tick [OF inv a_tick(2)])
qed

lemma areach_simulated:
  assumes "app_inv P T s0"
    and "\<And>a. treach P T (spec_of s0) a \<Longrightarrow> \<forall>t\<in>T. request_ok (request_of P (locals a t))"
  shows "areach P s0 s \<Longrightarrow> app_inv P T s \<and> treach P T (spec_of s0) (spec_of s)"
proof (induction rule: areach.induct)
  case a_start
  then show ?case using assms(1) treach.t_start by simp
next
  case (a_step s s')
  then have "\<forall>t\<in>T. request_ok (request_of P (locals s t))" using assms(2) by fastforce
  then have "simulated P T s s'" using astep_simulated a_step by blast
  then show ?case using a_step.IH treach.t_step unfolding simulated_def by metis
qed

end
