(* ===== verification/Launch.thy ===== *)
theory Launch
  imports Threads
begin

text \<open>
  From the boot to a running application: \<open>main\<close> creates mutexes and a task set before any task
  runs. The application then starts with the functions and arguments that \<open>task_create\<close> stored in
  the TCBs, and its abstraction starts with the created mutexes, none of them held. The wrappers
  of the system calls (libc/swi) and \<open>putchar\<close>, \<open>puts\<close> are here, too.
\<close>

section \<open>Creating mutexes before the tasks start\<close>

lemma mutex_create_quiet:
  assumes q: "quiet k"
  shows "\<exists>out k'. mutex_create_syscall k = Some (out, k') \<and> quiet k' \<and>
    spec_create (abs_state k) = (out, abs_state k') \<and> system_time k' = system_time k"
proof -
  have sz: "sized k" and len: "length (gtMutex k) = 32" using q by (auto simp: quiet_def sized_def)
  have avail: "filter (\<lambda>m. \<not> created (abs_state k) m) [0..<32] = filter (\<lambda>m. bAvailable (gtMutex k ! m)) [0..<32]"
    by (rule filter_cong) (auto simp: abs_state_def)
  show ?thesis
  proof (cases "filter (\<lambda>m. bAvailable (gtMutex k ! m)) [0..<32]")
    case Nil
    then show ?thesis
      using mutex_create_loop_eq [OF len, of 0] q avail by (simp add: mutex_create_syscall_def spec_create_def)
  next
    case (Cons m ms)
    then have "m \<in> set (filter (\<lambda>m. bAvailable (gtMutex k ! m)) [0..<32])" by simp
    then have m: "m < 32" "bAvailable (gtMutex k ! m)" by auto
    let ?x = "(gtMutex k ! m)\<lparr>bAvailable := False\<rparr>" and ?k = "k\<lparr>gtMutex := (gtMutex k)[m := (gtMutex k ! m)\<lparr>bAvailable := False\<rparr>]\<rparr>"
    have "gtMutex k ! m \<in> set (gtMutex k)" using m len by simp
    then have "pSleep_queue ?x = None \<and> mutex_ok ?x []" using q by (auto simp: quiet_def mutex_ok_def)
    then have "\<forall>x \<in> set ((gtMutex k)[m := ?x]). pSleep_queue x = None \<and> mutex_ok x []"
      using q set_update_subset_insert [of "gtMutex k" m ?x] unfolding quiet_def by blast
    then have "quiet ?k" using q by (simp add: quiet_def sized_def)
    moreover have "abs_state ?k = (abs_state k)\<lparr>created := (created (abs_state k))(m := True)\<rparr>"
      using m by (subst abs_set_mutex [OF sz]) (simp_all add: abs_state_def fun_eq_iff)
    ultimately show ?thesis
      using mutex_create_loop_eq [OF len, of 0] avail Cons
      by (simp add: mutex_create_syscall_def spec_create_def)
  qed
qed

text \<open>The first free mutex when none exists, or exactly the first ones.\<close>

lemma spec_create_next:
  assumes "\<forall>i<32. created a i \<longleftrightarrow> i < n" "n < 32"
  shows "spec_create a = (Return (of_nat n), a\<lparr>created := (created a)(n := True)\<rparr>)"
proof -
  have "[0..<32] = [0..<n] @ n # [Suc n..<32]" using assms(2) by (metis less_imp_add_positive upt_add_eq_append upt_conv_Cons zero_le less_imp_le_nat le_add_diff_inverse)
  moreover have "filter (\<lambda>m. \<not> created a m) [0..<n] = []" using assms by (simp add: filter_empty_conv)
  ultimately show ?thesis using assms by (simp add: spec_create_def)
qed

section \<open>The start of the tasks\<close>

text \<open>
  \<open>launch_task\<close> calls the function whose address is in \<open>r4\<close> with the argument of \<open>r5\<close>; \<open>entry\<close> maps
  both to the local state the function starts in.
\<close>

definition launched :: "(u32 \<Rightarrow> u32 \<Rightarrow> 'l) \<Rightarrow> 'g \<Rightarrow> u8 list \<Rightarrow> kernel \<Rightarrow> ('g, 'l) app" where
  "launched entry g out k = \<lparr>globals = g,
     locals = (\<lambda>t. let c = tcb_context (system_tcb k ! t) in entry (r4 c) (r5 c)),
     pending = (\<lambda>_. []), console = out, mach = \<lparr>mk = k, conts = (\<lambda>_. User), holds = {}\<rparr>\<rparr>"

text \<open>
  What \<open>main\<close> comes to: the tasks run, or \<open>task_create\<close> has failed and \<open>main\<close> has returned, with this text on the
  console.
\<close>

datatype 's main_result = Running 's | Finished "u8 list"

definition started :: "outcome \<Rightarrow> 's \<Rightarrow> u8 list \<Rightarrow> 's main_result option" where
  "started r s out = (case r of Switched \<Rightarrow> Some (Running s) | Return _ \<Rightarrow> Some (Finished out) | _ \<Rightarrow> None)"

lemma started_simps [simp]:
  "started Switched s out = Some (Running s)" "started (Return r) s out = Some (Finished out)"
  by (simp_all add: started_def)

lemma launched_simps [simp]:
  "globals (launched entry g out k) = g" "pending (launched entry g out k) = (\<lambda>_. [])"
  "console (launched entry g out k) = out"
  by (simp_all add: launched_def)

lemma launched_start:
  fixes num_tasks :: u32
  defines "num \<equiv> unat num_tasks"
  assumes k: "quiet k" and free: "owner (abs_state k) = (\<lambda>_. None)" and num: "0 < num" "num < 64" "num \<le> length tasks"
    and addr: "\<not> bad_user_addr tasks_addr" and ok: "\<forall>i<num. task_ok (tasks ! i)"
    and ratio: "last_ratio tasks num \<le> 1" and sorted: "sort_tasks num tasks = Some tasks'"
  shows "\<exists>k'. task_create_syscall launch_task idle tasks_addr tasks num_tasks k = Some (Switched, tasks', k') \<and>
    app_inv P {..<num} (launched entry g out k') \<and>
    own (spec_of (launched entry g out k')) = (\<lambda>_. None) \<and>
    made (spec_of (launched entry g out k')) = {m. created (abs_state k) m} \<and>
    (\<forall>t<num. locals (launched entry g out k') t = entry (lambda (tasks' ! t)) (data (tasks' ! t)))"
proof -
  have "num \<le> 64" using num by simp
  from task_create_wf [of k num_tasks tasks tasks_addr launch_task idle, folded num_def, OF k this num(3) addr ok ratio]
  obtain ts k' where r: "task_create_syscall launch_task idle tasks_addr tasks num_tasks k = Some (Switched, ts, k')"
      "kernel_wf k'" "abs_state k' = \<lparr>current = (if num = 0 then IDLE_PRIO else 0),
        runnable = insert IDLE_PRIO {..<num}, waiting = (\<lambda>_. []), created = created (abs_state k),
        owner = owner (abs_state k)\<rparr>"
      "system_tcb k' = new_tcbs launch_task idle ts num (system_tcb k)" by blast
  have ts: "ts = tasks'"
    using r(1) sorted check_tasks_ok [of num tasks] num ok ratio addr
    by (auto simp: task_create_syscall_def num_def split: if_splits bind_splits)
  let ?s = "launched entry g out k'"
  have "fresh (mach ?s)" using r free by (simp add: fresh_def launched_def)
  then have inv: "app_inv P {..<num} ?s"
    using fresh_inv r(3) by (auto simp: app_inv_def launched_def population_def)
  have "own (spec_of ?s) = (\<lambda>_. None)" using r(3) free by (simp add: own_of_def launched_def fun_eq_iff)
  moreover have "made (spec_of ?s) = {m. created (abs_state k) m}" using r(3) by (simp add: made_of_def launched_def)
  moreover have "locals ?s t = entry (lambda (tasks' ! t)) (data (tasks' ! t))" if "t < num" for t
    using that num r(4) ts by (simp add: launched_def nth_new_tcbs task_tcb_def task_context_def)
  ultimately show ?thesis using r(1) ts inv by blast
qed

text \<open>
  A boot state: no mutex exists, no task runs. The functions are in user memory and different.
\<close>

definition booted :: "kernel \<Rightarrow> bool" where
  "booted k \<longleftrightarrow> quiet k \<and> (\<forall>m<32. \<not> created (abs_state k) m) \<and> owner (abs_state k) = (\<lambda>_. None)"

definition functions_ok :: "u32 list \<Rightarrow> bool" where
  "functions_ok fs \<longleftrightarrow> distinct fs \<and> (\<forall>f \<in> set fs. \<not> bad_user_addr f)"

lemma sort_tasks_ascending:
  assumes "sorted_wrt (<) (map task_T ts)"
  shows "sort_tasks (length ts) ts = Some ts"
proof -
  obtain ts' where ts': "sort_tasks (length ts) ts = Some ts'" "periods_sorted (length ts) ts'"
      "mset ts' = mset ts" "length ts' = length ts"
    using sort_tasks_sorts [of "length ts" ts] by auto
  have "sorted (map task_T ts')"
    using ts'(2,4) by (auto simp: periods_sorted_def sorted_iff_nth_mono)
  moreover have "sorted (map task_T ts)" "distinct (map task_T ts)"
    using assms strict_sorted_iff by blast+
  moreover have "mset (map task_T ts') = mset (map task_T ts)" using ts'(3) by simp
  ultimately have "map task_T ts' = map task_T ts" by (metis properties_for_sort)
  moreover have "set ts' = set ts" using ts'(3) by (metis set_mset_mset)
  then have "inj_on task_T (set ts' \<union> set ts)" using \<open>distinct (map task_T ts)\<close> by (simp add: distinct_map)
  ultimately have "ts' = ts" by (rule map_inj_on)
  then show ?thesis using ts'(1) by simp
qed

lemma four_tasks: "t < (4 :: nat) \<longleftrightarrow> t = 0 \<or> t = 1 \<or> t = 2 \<or> t = 3"
  by auto

text \<open>Four tasks with the periods of the four devices, in the order in which both tests create them.\<close>

definition device_tasks :: "task list \<Rightarrow> bool" where
  "device_tasks ts \<longleftrightarrow> map task_T ts = [100, 200, 500, 50] \<and> map task_C ts = [1, 1, 1, 1] \<and>
     (\<forall>t \<in> set ts. \<not> bad_user_addr (stack_pos t) \<and> \<not> bad_user_addr (lambda t))"

lemma device_tasks_cases:
  assumes "device_tasks ts"
  obtains a b c d where "ts = [a, b, c, d]" "task_T a = 100" "task_T b = 200" "task_T c = 500" "task_T d = 50"
    "task_C d = 1" "task_ok a" "task_ok b" "task_ok c" "task_ok d"
proof -
  have "length (map task_T ts) = length [100, 200, 500, 50 :: u32]" using assms by (simp only: device_tasks_def)
  then have "length ts = 4" by simp
  then obtain a b c d where "ts = [a, b, c, d]" by (auto simp: length_Suc_conv eval_nat_numeral)
  with assms that show thesis by (simp add: device_tasks_def task_ok_def)
qed

lemma device_tasks_sorted:
  assumes "task_T a = 100" "task_T b = 200" "task_T c = 500" "task_T d = 50"
  shows "sort_tasks 4 [a, b, c, d] = Some [d, a, b, c]"
  using assms by (simp add: sort_tasks_def find_min_def for_range_step task_exchange_eq)

lemma device_tasks_start:
  assumes k: "quiet k" and free: "owner (abs_state k) = (\<lambda>_. None)" and ts: "device_tasks ts"
    and addr: "\<not> bad_user_addr tasks_addr"
  shows "\<exists>k' s. task_create_syscall launch_task idle tasks_addr ts 4 k = Some (Switched, map ((!) ts) [3, 0, 1, 2], k') \<and>
    s = launched entry g out k' \<and> app_inv P {..<4} s \<and> own (spec_of s) = (\<lambda>_. None) \<and>
    made (spec_of s) = {m. created (abs_state k) m} \<and>
    locals s 0 = entry (lambda (ts ! 3)) (data (ts ! 3)) \<and> locals s 1 = entry (lambda (ts ! 0)) (data (ts ! 0)) \<and>
    locals s 2 = entry (lambda (ts ! 1)) (data (ts ! 1)) \<and> locals s 3 = entry (lambda (ts ! 2)) (data (ts ! 2))"
proof -
  obtain a b c d where abcd: "ts = [a, b, c, d]" "task_T a = 100" "task_T b = 200" "task_T c = 500" "task_T d = 50"
    "task_C d = 1" "task_ok a" "task_ok b" "task_ok c" "task_ok d"
    using device_tasks_cases [OF ts] .
  have n: "unat (4 :: u32) = 4" by simp
  have len: "unat (4 :: u32) \<le> length ts" using abcd(1) by simp
  have "task_ok (ts ! i)" if "i < 4" for i
    using that nth_mem [of i ts] abcd by auto
  then have ok: "\<forall>i<unat (4 :: u32). task_ok (ts ! i)" by simp
  have ratio: "last_ratio ts (unat (4 :: u32)) \<le> 1" using abcd by (simp add: last_ratio_def)
  have sorted: "sort_tasks (unat (4 :: u32)) ts = Some [d, a, b, c]"
    using device_tasks_sorted [OF abcd(2-5)] abcd(1) by simp
  have pos: "0 < unat (4 :: u32)" "unat (4 :: u32) < 64" by simp_all
  note start = launched_start [of k 4 ts tasks_addr _ launch_task idle P entry g out,
    OF k free pos len addr ok ratio sorted, unfolded n]
  obtain k' where k': "task_create_syscall launch_task idle tasks_addr ts 4 k = Some (Switched, [d, a, b, c], k')"
      "app_inv P {..<4} (launched entry g out k')" "own (spec_of (launched entry g out k')) = (\<lambda>_. None)"
      "made (spec_of (launched entry g out k')) = {m. created (abs_state k) m}"
      "\<forall>t<4. locals (launched entry g out k') t = entry (lambda ([d, a, b, c] ! t)) (data ([d, a, b, c] ! t))"
    by (rule exE [OF start]) (elim conjE, rule that, assumption+)
  let ?s = "launched entry g out k'"
  have "map ((!) ts) [3, 0, 1, 2] = [d, a, b, c]" using abcd(1) by simp
  moreover have "locals ?s 0 = entry (lambda d) (data d)" "locals ?s 1 = entry (lambda a) (data a)"
      "locals ?s 2 = entry (lambda b) (data b)" "locals ?s 3 = entry (lambda c) (data c)"
    using k'(5) [rule_format, of 0] k'(5) [rule_format, of 1] k'(5) [rule_format, of 2] k'(5) [rule_format, of 3]
    by simp_all
  ultimately show ?thesis using k'(1-4) unfolding abcd(1) by (intro exI [of _ k'] exI [of _ ?s]) simp
qed

section \<open>The wrappers of the C library\<close>

text \<open>
  \<open>mutex_lock\<close>, \<open>mutex_unlock\<close> and \<open>event_wait\<close> store the result of the call in \<open>errno\<close> and return it;
  \<open>mutex_create\<close> turns a negative result into -1 and stores its negation.
\<close>

definition create_result :: "u32 \<Rightarrow> u32 \<Rightarrow> u32 \<times> u32" where
  "create_result r errno = (if r <s 0 then (- 1, - r) else (r, errno))"

text \<open>\<open>putchar\<close> writes the four bytes of its argument, \<open>puts\<close> the string and a newline.\<close>

definition int_bytes :: "u32 \<Rightarrow> u8 list" where
  "int_bytes c = [ucast c, ucast (drop_bit 8 c), ucast (drop_bit 16 c), ucast (drop_bit 24 c)]"

definition text_bytes :: "string \<Rightarrow> u8 list" where
  "text_bytes s = map of_char s"

end
