(* ===== verification/Memory.thy ===== *)
theory Memory
  imports Prelude
begin

text \<open>
  Byte-addressed memory of the 32-bit machine: the bytes of a region, little-endian words, and
  C strings. Address arithmetic wraps around.
\<close>

type_synonym memory = "u32 \<Rightarrow> u8"

section \<open>Regions\<close>

text \<open>The bytes of memory from an address on.\<close>

definition bytes :: "memory \<Rightarrow> u32 \<Rightarrow> nat \<Rightarrow> u8 list" where
  "bytes m a n = map (\<lambda>i. m (a + of_nat i)) [0..<n]"

lemma bytes_0 [simp]: "bytes m a 0 = []"
  by (simp add: bytes_def)

lemma length_bytes [simp]: "length (bytes m a n) = n"
  by (simp add: bytes_def)

lemma bytes_Suc: "bytes m a (Suc n) = bytes m a n @ [m (a + of_nat n)]"
  by (simp add: bytes_def)

lemma of_nat_u32_eq: "i < 2 ^ 32 \<Longrightarrow> j < 2 ^ 32 \<Longrightarrow> (of_nat i :: u32) = of_nat j \<longleftrightarrow> i = j"
  using word_of_nat_eq_iff [where 'a = 32, of i j] by (simp add: take_bit_nat_eq_self)

lemma bytes_upd_beyond:
  assumes "n \<le> j" "j < 2 ^ 32"
  shows "bytes (m(a + of_nat j := v)) a n = bytes m a n"
  unfolding bytes_def using assms by (intro map_cong) (auto simp: of_nat_u32_eq)

text \<open>Little-endian words.\<close>

definition load32 :: "memory \<Rightarrow> u32 \<Rightarrow> u32" where
  "load32 m a = ucast (m a) OR push_bit 8 (ucast (m (a + 1))) OR
     push_bit 16 (ucast (m (a + 2))) OR push_bit 24 (ucast (m (a + 3)))"

definition store32 :: "memory \<Rightarrow> u32 \<Rightarrow> u32 \<Rightarrow> memory" where
  "store32 m a w = m(a := ucast w, a + 1 := ucast (drop_bit 8 w),
     a + 2 := ucast (drop_bit 16 w), a + 3 := ucast (drop_bit 24 w))"

section \<open>Words\<close>

lemma load32_store32: "load32 (store32 m a w) a = w"
proof -
  have "a \<noteq> a + 1" "a \<noteq> a + 2" "a \<noteq> a + 3" "a + 1 \<noteq> a + 2" "a + 1 \<noteq> a + 3" "a + 2 \<noteq> a + 3"
    by (simp_all add: add_left_imp_eq)
  moreover have "ucast (ucast w :: u8) OR push_bit 8 (ucast (ucast (drop_bit 8 w) :: u8)) OR
      push_bit 16 (ucast (ucast (drop_bit 16 w) :: u8)) OR push_bit 24 (ucast (ucast (drop_bit 24 w) :: u8)) = w"
  proof (rule bit_word_eqI)
    fix n
    assume "n < LENGTH(32)"
    then consider "n < 8" | "8 \<le> n" "n < 16" | "16 \<le> n" "n < 24" | "24 \<le> n" "n < 32" by fastforce
    then show "bit (ucast (ucast w :: u8) OR push_bit 8 (ucast (ucast (drop_bit 8 w) :: u8)) OR
      push_bit 16 (ucast (ucast (drop_bit 16 w) :: u8)) OR
      push_bit 24 (ucast (ucast (drop_bit 24 w) :: u8)) :: u32) n \<longleftrightarrow> bit w n"
      by cases (simp_all add: bit_simps, auto)
  qed
  ultimately show ?thesis by (simp add: load32_def store32_def)
qed

lemma store32_other: "(\<And>i. i < 4 \<Longrightarrow> x \<noteq> a + of_nat i) \<Longrightarrow> store32 m a w x = m x"
proof -
  assume *: "\<And>i. i < 4 \<Longrightarrow> x \<noteq> a + of_nat i"
  have "x \<noteq> a" "x \<noteq> a + 1" "x \<noteq> a + 2" "x \<noteq> a + 3"
    using * [of 0] * [of 1] * [of 2] * [of 3] by simp_all
  then show ?thesis by (simp add: store32_def)
qed

lemma load32_cong: "(\<And>i. i < 4 \<Longrightarrow> m (a + of_nat i) = m' (a + of_nat i)) \<Longrightarrow> load32 m a = load32 m' a"
proof -
  assume *: "\<And>i. i < 4 \<Longrightarrow> m (a + of_nat i) = m' (a + of_nat i)"
  have "m a = m' a" "m (a + 1) = m' (a + 1)" "m (a + 2) = m' (a + 2)" "m (a + 3) = m' (a + 3)"
    using * [of 0] * [of 1] * [of 2] * [of 3] by simp_all
  then show ?thesis by (simp add: load32_def)
qed

text \<open>Writing a list of words one after the other.\<close>

fun store_words :: "u32 \<Rightarrow> u32 list \<Rightarrow> memory \<Rightarrow> memory" where
  "store_words a [] m = m"
| "store_words a (w # ws) m = store_words (a + 4) ws (store32 m a w)"

lemma store_words_append: "store_words a (us @ vs) m = store_words (a + 4 * of_nat (length us)) vs (store_words a us m)"
  by (induction us arbitrary: a m) (simp_all add: algebra_simps)

lemma store_words_other:
  "(\<And>i. i < 4 * length ws \<Longrightarrow> x \<noteq> a + of_nat i) \<Longrightarrow> store_words a ws m x = m x"
proof (induction ws arbitrary: a m)
  case (Cons w ws)
  have "x \<noteq> (a + 4) + of_nat i" if "i < 4 * length ws" for i
    using Cons.prems [of "i + 4"] that by (simp add: algebra_simps)
  moreover have "store32 m a w x = m x" using Cons.prems by (intro store32_other) simp
  ultimately show ?case using Cons.IH [of "a + 4" "store32 m a w"] by simp
qed simp

lemma load_store_words:
  assumes "4 * length ws \<le> 2 ^ 32" "j < length ws"
  shows "load32 (store_words a ws m) (a + 4 * of_nat j) = ws ! j"
  using assms
proof (induction ws arbitrary: a m j)
  case (Cons w ws)
  show ?case
  proof (cases j)
    case 0
    have "store_words (a + 4) ws (store32 m a w) (a + of_nat i) = store32 m a w (a + of_nat i)" if "i < 4" for i
    proof (rule store_words_other)
      fix n
      assume "n < 4 * length ws"
      then have "(of_nat i :: u32) \<noteq> of_nat (4 + n)" using Cons.prems(1) that by (subst of_nat_u32_eq) auto
      then show "a + of_nat i \<noteq> (a + 4) + of_nat n" by (simp add: add.assoc)
    qed
    then have "load32 (store_words (a + 4) ws (store32 m a w)) a = load32 (store32 m a w) a"
      by (rule load32_cong)
    then show ?thesis using 0 by (simp add: load32_store32)
  next
    case (Suc i)
    then show ?thesis using Cons.IH [of i "a + 4" "store32 m a w"] Cons.prems by (simp add: algebra_simps)
  qed
qed simp

end
