(* ===== verification/IO.thy ===== *)
theory IO
  imports Config Memory
begin

text \<open>
  kernel/syscall/io.c: the console calls. The line editor of \<open>read_syscall\<close> is proved against a
  specification on lists of characters, \<open>write_syscall\<close> against the bytes of its buffer.
\<close>

section \<open>State\<close>

text \<open>
  User memory, the characters that U-Boot's \<open>getc\<close> will deliver, and the trace of calls of the
  output functions that U-Boot exports (a call of \<open>printf\<close> with its format and arguments).
\<close>

datatype uboot_call = Putc u8 | Puts "u8 list" | Printf "u8 list" "u32 list"

record io =
  mem :: memory
  input :: "u8 list"
  calls :: "uboot_call list"

definition EOT_CHAR :: u8 where [simp]: "EOT_CHAR = 0x04"
definition DEL_CHAR :: u8 where [simp]: "DEL_CHAR = 0x7f"
definition BUF_SIZE :: u32 where [simp]: "BUF_SIZE = 10"
definition NEWLINE :: u8 where [simp]: "NEWLINE = 10"
definition CARRIAGE_RETURN :: u8 where [simp]: "CARRIAGE_RETURN = 13"
definition STDIN_FILENO :: u32 where [simp]: "STDIN_FILENO = 0"
definition STDOUT_FILENO :: u32 where [simp]: "STDOUT_FILENO = 1"
definition LEGEL_MEM_START_ADDR :: u32 where [simp]: "LEGEL_MEM_START_ADDR = 0xa0000000"
definition LEGEL_MEM_END_ADDR :: u32 where [simp]: "LEGEL_MEM_END_ADDR = 0xa4000000"
definition KERNEL_START_ADDR :: u32 where [simp]: "KERNEL_START_ADDR = 0xa3000000"
definition ABORT_STACK_END_ADDR :: u32 where [simp]: "ABORT_STACK_END_ADDR = 0xa3ededff"

definition call :: "uboot_call \<Rightarrow> io \<Rightarrow> io" where
  "call c s = s\<lparr>calls := calls s @ [c]\<rparr>"

section \<open>The code\<close>

text \<open>After the loop: a full buffer of \<open>BUF_SIZE\<close> characters without a newline gets one.\<close>

definition read_full :: "u32 \<Rightarrow> u32 \<Rightarrow> u32 \<Rightarrow> io \<Rightarrow> u32 \<times> io" where
  "read_full buf count i s =
     (i, if i = BUF_SIZE \<and> mem s (buf + (count - 1)) \<noteq> NEWLINE \<and>
           mem s (buf + (count - 1)) \<noteq> CARRIAGE_RETURN
         then call (Putc NEWLINE) s else s)"

text \<open>
  One iteration for each character of the input. Without a character \<open>tstc\<close> stays 0 and the call
  polls it for ever, which is \<open>None\<close>. The loop's increment is written out on every path that
  reaches it; the index is unsigned and wraps.
\<close>

fun read_loop :: "u32 \<Rightarrow> u32 \<Rightarrow> u32 \<Rightarrow> u8 list \<Rightarrow> io \<Rightarrow> (u32 \<times> io) option" where
  "read_loop buf count i [] s = (if i < count then None else Some (read_full buf count i s))"
| "read_loop buf count i (c # cs) s =
     (if i < count then
        let s = s\<lparr>mem := (mem s)(buf + i := c), input := cs\<rparr> in
        if mem s (buf + i) = EOT_CHAR then Some (i, s)
        else if mem s (buf + i) = DEL_CHAR then
          if i \<noteq> 0 then read_loop buf count ((i - 2) + 1) cs (call (Puts [8, 32, 8]) s)
          else read_loop buf count ((i - 1) + 1) cs s
        else if mem s (buf + i) = NEWLINE \<or> mem s (buf + i) = CARRIAGE_RETURN then
          Some (i + 1, call (Putc NEWLINE) s)
        else read_loop buf count (i + 1) cs (call (Putc (mem s (buf + i))) s)
      else Some (read_full buf count i s))"

definition read_syscall :: "u32 \<Rightarrow> u32 \<Rightarrow> u32 \<Rightarrow> io \<Rightarrow> (u32 \<times> io) option" where
  "read_syscall fd buf count s =
     (if fd \<noteq> STDIN_FILENO then Some (- EBADF, s)
      else if buf < LEGEL_MEM_START_ADDR \<or> buf + count > LEGEL_MEM_END_ADDR then Some (- EFAULT, s)
      else if buf + count > KERNEL_START_ADDR then Some (- EFAULT, s)
      else read_loop buf count 0 (input s) s)"

definition put_bytes :: "u32 \<Rightarrow> nat \<Rightarrow> io \<Rightarrow> io option" where
  "put_bytes buf n = for_range 0 n (\<lambda>i s. Some (call (Putc (mem s (buf + of_nat i))) s))"

definition write_syscall :: "u32 \<Rightarrow> u32 \<Rightarrow> u32 \<Rightarrow> io \<Rightarrow> (u32 \<times> io) option" where
  "write_syscall fd buf count s =
     (if fd \<noteq> STDOUT_FILENO then Some (- EBADF, s)
      else if buf < LEGEL_MEM_START_ADDR \<or> buf + count > LEGEL_MEM_END_ADDR then Some (- EFAULT, s)
      else if (buf < ABORT_STACK_END_ADDR \<and> buf + count > ABORT_STACK_END_ADDR) \<or>
              (buf < KERNEL_START_ADDR \<and> buf + count > KERNEL_START_ADDR) then Some (- EFAULT, s)
      else do {
        s \<leftarrow> (if mem s (buf + (count - 1)) = CARRIAGE_RETURN
              then map_option (call (Printf [NEWLINE] [])) (put_bytes buf (unat (count - 1)) s)
              else put_bytes buf (unat count) s);
        Some (count, s) })"

section \<open>Reading a line\<close>

text \<open>
  The line editor on lists: it stops at a full line, after a newline or carriage return, which
  the line keeps, and at an EOT, which it does not; a delete removes the last character. The
  result is the line and the input that is left.
\<close>

fun edit_line :: "nat \<Rightarrow> u8 list \<Rightarrow> u8 list \<Rightarrow> (u8 list \<times> u8 list) option" where
  "edit_line n line [] = (if length line < n then None else Some (line, []))"
| "edit_line n line (c # cs) =
     (if length line < n then
        if c = EOT_CHAR then Some (line, cs)
        else if c = DEL_CHAR then edit_line n (butlast line) cs
        else if c = NEWLINE \<or> c = CARRIAGE_RETURN then Some (line @ [c], cs)
        else edit_line n (line @ [c]) cs
      else Some (line, c # cs))"

text \<open>
  What the console shows meanwhile: every character, a newline for the end of the line, also for a
  full line of \<open>BUF_SIZE\<close> characters, and a rubout for a delete.
\<close>

definition full_echo :: "nat \<Rightarrow> u8 list \<Rightarrow> uboot_call list" where
  "full_echo n line =
     (if n = unat BUF_SIZE \<and> last line \<noteq> NEWLINE \<and> last line \<noteq> CARRIAGE_RETURN then [Putc NEWLINE] else [])"

fun echo_line :: "nat \<Rightarrow> u8 list \<Rightarrow> u8 list \<Rightarrow> uboot_call list" where
  "echo_line n line [] = full_echo n line"
| "echo_line n line (c # cs) =
     (if length line < n then
        if c = EOT_CHAR then []
        else if c = DEL_CHAR then (if line = [] then [] else [Puts [8, 32, 8]]) @ echo_line n (butlast line) cs
        else if c = NEWLINE \<or> c = CARRIAGE_RETURN then [Putc NEWLINE]
        else Putc c # echo_line n (line @ [c]) cs
      else full_echo n line)"

definition read_frame :: "io \<Rightarrow> io \<Rightarrow> u32 \<Rightarrow> nat \<Rightarrow> bool" where
  "read_frame s s' buf n \<longleftrightarrow> (\<forall>a. mem s' a \<noteq> mem s a \<longrightarrow> (\<exists>i<n. a = buf + of_nat i))"

lemma read_full_echo:
  assumes "length line = unat count" "bytes (mem s) buf (length line) = line"
  shows "read_full buf count (of_nat (length line)) s =
    (of_nat (length line), s\<lparr>calls := calls s @ full_echo (unat count) line\<rparr>)"
proof (cases "count = BUF_SIZE")
  case True
  then have "length line = Suc 9" using assms(1) by simp
  then have "line = bytes (mem s) buf 9 @ [mem s (buf + of_nat 9)]" using assms(2) bytes_Suc by metis
  moreover have "buf + of_nat 9 = buf + (count - 1)" using True by simp
  ultimately have "last line = mem s (buf + (count - 1))" by (metis last_snoc)
  then show ?thesis using True assms(1) by (simp add: read_full_def full_echo_def call_def)
next
  case False
  then have "unat count \<noteq> unat BUF_SIZE" by (simp add: word_unat_eq_iff)
  then show ?thesis using False assms(1) by (simp add: read_full_def full_echo_def)
qed

lemma read_loop_edits:
  assumes "length line \<le> unat count"
    and "bytes (mem s) buf (length line) = line" "edit_line (unat count) line cs = Some (line', rest)"
    and "input s = cs"
  shows "\<exists>s'. read_loop buf count (of_nat (length line)) cs s = Some (of_nat (length line'), s') \<and>
    length line' \<le> unat count \<and> bytes (mem s') buf (length line') = line' \<and> input s' = rest \<and>
    read_frame s s' buf (unat count) \<and> calls s' = calls s @ echo_line (unat count) line cs"
  using assms
proof (induction cs arbitrary: line s)
  case Nil
  have len: "unat (of_nat (length line) :: u32) = length line"
    using Nil.prems(1) unat_u32_less [of count] by (intro unat_lt_of_nat_iff) (simp del: unat_u32_less)
  then have "\<not> of_nat (length line) < count" "line' = line" "rest = []"
    using Nil.prems by (auto simp: word_less_nat_alt split: if_splits)
  moreover have "length line = unat count" using Nil.prems by (auto split: if_splits)
  ultimately show ?case
    using Nil.prems read_full_echo [of line count s buf] by (simp add: read_frame_def)
next
  case (Cons c cs)
  let ?i = "of_nat (length line) :: u32"
  have len: "unat ?i = length line" "length line < 2 ^ 32"
    using Cons.prems(1) unat_u32_less [of count] by (auto intro!: unat_lt_of_nat_iff simp del: unat_u32_less)
  show ?case
  proof (cases "length line < unat count")
    case False
    then have "\<not> ?i < count" "line' = line" "rest = c # cs"
      using Cons.prems len by (auto simp: word_less_nat_alt)
    moreover have "length line = unat count" using Cons.prems(1) False by simp
    ultimately show ?thesis
      using Cons.prems read_full_echo [of line count s buf] by (simp add: read_frame_def)
  next
    case True
    then have lt: "?i < count" using len by (simp add: word_less_nat_alt)
    define t where "t = s\<lparr>mem := (mem s)(buf + ?i := c), input := cs\<rparr>"
    have t: "mem t (buf + ?i) = c" "input t = cs" by (simp_all add: t_def)
    have old: "bytes (mem t) buf (length line) = line"
      using Cons.prems(2) len by (simp add: t_def bytes_upd_beyond)
    have new: "bytes (mem t) buf (length (line @ [c])) = line @ [c]"
      using old t by (simp add: bytes_Suc)
    have frame: "read_frame s u buf (unat count)"
      if "mem u = mem v" "read_frame t v buf (unat count)" for u v
      using that True by (auto simp: read_frame_def t_def split: if_splits)
    have upd: "read_frame s u buf (unat count)" if "mem u = mem t" for u
      using that True by (auto simp: read_frame_def t_def split: if_splits)
    have step: "read_loop buf count ?i (c # cs) s =
       (if c = 4 then Some (?i, t)
        else if c = 0x7f then
          if line \<noteq> [] then read_loop buf count ((?i - 2) + 1) cs (call (Puts [8, 32, 8]) t)
          else read_loop buf count ((?i - 1) + 1) cs t
        else if c = 10 \<or> c = 13 then Some (?i + 1, call (Putc 10) t)
        else read_loop buf count (?i + 1) cs (call (Putc c) t))"
      using lt len(1) by (simp add: Let_def t_def [symmetric] t(1) unat_eq_0 [symmetric])
    have calls: "mem (call x u) = mem u" "input (call x u) = input u" "calls (call x u) = calls u @ [x]" for x u
      by (simp_all add: call_def)
    have ct: "calls t = calls s" by (simp add: t_def)
    consider "c = 4" | "c = 0x7f" "line = []" | "c = 0x7f" "line \<noteq> []" | "c = 10 \<or> c = 13"
      | "c \<noteq> 4" "c \<noteq> 0x7f" "c \<noteq> 10" "c \<noteq> 13" by blast
    then show ?thesis
    proof cases
      case 1
      then show ?thesis using Cons.prems True step old t upd [of t] ct by auto
    next
      case 2
      then obtain s' where "read_loop buf count 0 cs t = Some (of_nat (length line'), s')"
          "length line' \<le> unat count" "bytes (mem s') buf (length line') = line'" "input s' = rest"
          "read_frame t s' buf (unat count)" "calls s' = calls t @ echo_line (unat count) [] cs"
        using Cons.IH [of "[]" t] Cons.prems True t(2) by auto
      with 2 step True show ?thesis using frame [of s' s'] ct by auto
    next
      case 3
      have "bytes (mem (call x t)) buf (length (butlast line)) = butlast line" for x
      proof -
        have "bytes (mem t) buf (length line) = bytes (mem t) buf (Suc (length (butlast line)))" using 3 by simp
        then have "line = bytes (mem t) buf (length (butlast line)) @ [mem t (buf + of_nat (length (butlast line)))]"
          using old by (simp only: bytes_Suc)
        then show ?thesis by (metis butlast_snoc calls(1))
      qed
      then obtain s' where "read_loop buf count (of_nat (length (butlast line))) cs (call (Puts [8, 32, 8]) t) =
            Some (of_nat (length line'), s')"
          "length line' \<le> unat count" "bytes (mem s') buf (length line') = line'" "input s' = rest"
          "read_frame (call (Puts [8, 32, 8]) t) s' buf (unat count)"
          "calls s' = calls (call (Puts [8, 32, 8]) t) @ echo_line (unat count) (butlast line) cs"
        using Cons.IH [of "butlast line" "call (Puts [8, 32, 8]) t"] Cons.prems 3 True t(2) calls(2)
        by (auto simp: less_imp_diff_less less_imp_le)
      moreover have "(?i - 2) + 1 = of_nat (length (butlast line))"
        using 3(2) by (cases line rule: rev_cases) simp_all
      ultimately show ?thesis using 3 True step frame [of s' s'] calls ct by (auto simp: read_frame_def)
    next
      case 4
      then have c: "c \<noteq> 4" "c \<noteq> 0x7f" by auto
      then have "read_loop buf count ?i (c # cs) s = Some (?i + 1, call (Putc 10) t)"
        using 4 by (simp only: step) simp
      moreover have "line' = line @ [c]" "rest = cs"
        using Cons.prems(3) True c 4 by (simp_all split: if_splits)
      ultimately show ?thesis
        using True new t(2) upd [of "call (Putc 10) t"] calls ct c 4 by (simp add: add.commute)
    next
      case 5
      then obtain s' where "read_loop buf count (of_nat (length (line @ [c]))) cs (call (Putc c) t) =
            Some (of_nat (length line'), s')"
          "length line' \<le> unat count" "bytes (mem s') buf (length line') = line'" "input s' = rest"
          "read_frame (call (Putc c) t) s' buf (unat count)"
          "calls s' = calls (call (Putc c) t) @ echo_line (unat count) (line @ [c]) cs"
        using Cons.IH [of "line @ [c]" "call (Putc c) t"] Cons.prems True t(2) calls new by auto
      then show ?thesis using 5 True step frame [of s' s'] calls ct by (auto simp: read_frame_def add.commute)
    qed
  qed
qed


text \<open>When the range checks of the two calls pass without the address arithmetic wrapping around.\<close>

lemma range_ok:
  assumes "LEGEL_MEM_START_ADDR \<le> buf" "unat buf + unat count \<le> unat KERNEL_START_ADDR"
  shows "\<not> buf < LEGEL_MEM_START_ADDR" "\<not> buf + count > LEGEL_MEM_END_ADDR" "\<not> buf + count > KERNEL_START_ADDR"
    "buf < KERNEL_START_ADDR \<or> count = 0"
proof -
  have "unat (buf + count) = unat buf + unat count"
    using assms(2) by (subst unat_add_lem [THEN iffD1]) simp_all
  with assms show "\<not> buf + count > LEGEL_MEM_END_ADDR" "\<not> buf + count > KERNEL_START_ADDR"
    by (simp_all add: word_less_nat_alt)
  show "\<not> buf < LEGEL_MEM_START_ADDR" using assms(1) by (simp add: not_less)
  show "buf < KERNEL_START_ADDR \<or> count = 0"
    using assms(2) by (auto simp: word_less_nat_alt unat_eq_0 [symmetric] simp del: unat_eq_0)
qed

lemma read_syscall_line:
  assumes "LEGEL_MEM_START_ADDR \<le> buf" "unat buf + unat n \<le> unat KERNEL_START_ADDR"
    and "edit_line (unat n) [] (input s) = Some (line, rest)"
  shows "\<exists>s'. read_syscall STDIN_FILENO buf n s = Some (of_nat (length line), s') \<and> length line \<le> unat n \<and>
    bytes (mem s') buf (length line) = line \<and> input s' = rest \<and> read_frame s s' buf (unat n) \<and>
    calls s' = calls s @ echo_line (unat n) [] (input s)"
  using read_loop_edits [of "[]" n s buf "input s" line rest] assms(3) range_ok(1-3) [OF assms(1,2)]
  by (auto simp: read_syscall_def)

section \<open>Writing\<close>

lemma put_bytes_eq:
  "put_bytes buf n s = Some (s\<lparr>calls := calls s @ map Putc (bytes (mem s) buf n)\<rparr>)"
proof -
  let ?P = "\<lambda>i t. t = s\<lparr>calls := calls s @ map Putc (bytes (mem s) buf i)\<rparr>"
  have "\<exists>t. put_bytes buf n s = Some t \<and> ?P n t"
    unfolding put_bytes_def
    by (rule for_range_inv [where P = ?P]) (simp_all add: call_def bytes_Suc)
  then show ?thesis by simp
qed

text \<open>What \<open>write_syscall\<close> sends to U-Boot for the bytes of its buffer.\<close>

definition write_calls :: "u8 list \<Rightarrow> uboot_call list" where
  "write_calls bs = (if bs \<noteq> [] \<and> last bs = CARRIAGE_RETURN
     then map Putc (butlast bs) @ [Printf [NEWLINE] []] else map Putc bs)"

lemma write_syscall_ok:
  assumes "LEGEL_MEM_START_ADDR \<le> buf" "unat buf + unat count \<le> unat KERNEL_START_ADDR" "count \<noteq> 0"
  shows "write_syscall STDOUT_FILENO buf count s =
    Some (count, s\<lparr>calls := calls s @ write_calls (bytes (mem s) buf (unat count))\<rparr>)"
proof -
  note r = range_ok [OF assms(1,2)]
  obtain n where n: "unat count = Suc n"
    using assms(3) by (cases "unat count") (auto simp: unat_eq_0)
  have c1: "count - 1 = of_nat n"
  proof -
    have "count = of_nat (unat count)" by simp
    then show ?thesis unfolding n by simp
  qed
  have un: "unat (count - 1) = n" using n assms(3) by (simp add: unat_minus_one)
  have bs: "bytes (mem s) buf (unat count) = bytes (mem s) buf n @ [mem s (buf + (count - 1))]"
    unfolding n c1 by (rule bytes_Suc)
  have abort: "\<not> buf + count > ABORT_STACK_END_ADDR"
    using r(3) by (simp add: not_less) (erule order.trans, simp add: word_le_nat_alt)
  have "write_syscall STDOUT_FILENO buf count s = do {
        s \<leftarrow> (if mem s (buf + (count - 1)) = CARRIAGE_RETURN
              then map_option (call (Printf [NEWLINE] [])) (put_bytes buf n s)
              else put_bytes buf (unat count) s);
        Some (count, s) }"
    unfolding write_syscall_def un using r(1-3) abort by (simp only: if_False simp_thms)
  then show ?thesis
    unfolding put_bytes_eq bs by (simp add: write_calls_def call_def)
qed

end
