(* ===== verification/Syscall.thy ===== *)
theory Syscall
  imports Proc IO
begin

text \<open>
  kernel/syscall/sys.c: the dispatcher of the system calls, over a state made of the kernel and
  of user memory with the console, and the representation of the user's task array in memory.
\<close>

section \<open>State and memory\<close>

record sys =
  kern :: kernel
  con :: io

text \<open>A \<open>task_t\<close> is five words.\<close>

definition load_task :: "memory \<Rightarrow> u32 \<Rightarrow> task" where
  "load_task m a = \<lparr>lambda = load32 m a, data = load32 m (a + 4), stack_pos = load32 m (a + 8),
     task_C = load32 m (a + 12), task_T = load32 m (a + 16)\<rparr>"

definition store_task :: "u32 \<Rightarrow> task \<Rightarrow> memory \<Rightarrow> memory" where
  "store_task a t m = store32 (store32 (store32 (store32 (store32 m a (lambda t)) (a + 4) (data t))
     (a + 8) (stack_pos t)) (a + 12) (task_C t)) (a + 16) (task_T t)"

definition load_tasks :: "memory \<Rightarrow> u32 \<Rightarrow> nat \<Rightarrow> task list" where
  "load_tasks m a n = map (\<lambda>i. load_task m (a + 20 * of_nat i)) [0..<n]"

fun store_tasks :: "u32 \<Rightarrow> task list \<Rightarrow> memory \<Rightarrow> memory" where
  "store_tasks a [] m = m"
| "store_tasks a (t # ts) m = store_tasks (a + 20) ts (store_task a t m)"

section \<open>The code\<close>

definition SWI_BASE :: u32 where [simp]: "SWI_BASE = 0x900000"
definition READ_SWI :: u32 where [simp]: "READ_SWI = SWI_BASE + 3"
definition WRITE_SWI :: u32 where [simp]: "WRITE_SWI = SWI_BASE + 4"
definition TIME_SWI :: u32 where [simp]: "TIME_SWI = SWI_BASE + 6"
definition SLEEP_SWI :: u32 where [simp]: "SLEEP_SWI = SWI_BASE + 7"
definition CREATE_SWI :: u32 where [simp]: "CREATE_SWI = SWI_BASE + 10"
definition MUTEX_CREATE :: u32 where [simp]: "MUTEX_CREATE = SWI_BASE + 15"
definition MUTEX_LOCK :: u32 where [simp]: "MUTEX_LOCK = SWI_BASE + 16"
definition MUTEX_UNLOCK :: u32 where [simp]: "MUTEX_UNLOCK = SWI_BASE + 17"
definition EVENT_WAIT :: u32 where [simp]: "EVENT_WAIT = SWI_BASE + 20"

text \<open>\<open>invalid_syscall\<close> of proc.c: it prints a message and spins with interrupts disabled.\<close>

definition invalid_syscall :: "u32 \<Rightarrow> sys \<Rightarrow> outcome \<times> sys" where
  "invalid_syscall call_num s = (Hang,
     s\<lparr>con := call (Printf (map of_char ''Kernel panic: invalid syscall -- 0x%08x'' @ [NEWLINE]) [call_num]) (con s),
       kern := disable_interrupts (kern s)\<rparr>)"

definition on_con :: "(u32 \<times> io) option \<Rightarrow> sys \<Rightarrow> (outcome \<times> sys) option" where
  "on_con r s = map_option (\<lambda>(v, c). (Return v, s\<lparr>con := c\<rparr>)) r"

definition on_kern :: "(outcome \<times> kernel) option \<Rightarrow> sys \<Rightarrow> (outcome \<times> sys) option" where
  "on_kern r s = map_option (\<lambda>(out, k). (out, s\<lparr>kern := k\<rparr>)) r"

text \<open>\<open>sp\<close> is the address of the saved registers: the arguments of the call are the first words there.\<close>

definition getSWI :: "u32 \<Rightarrow> u32 \<Rightarrow> u32 \<Rightarrow> u32 \<Rightarrow> sys \<Rightarrow> (outcome \<times> sys) option" where
  "getSWI launch_task idle num sp s =
     (let k = kern s; c = con s;
          arg0 = load32 (mem c) sp; arg1 = load32 (mem c) (sp + 4); arg2 = load32 (mem c) (sp + 8)
      in if num = READ_SWI then on_con (read_syscall arg0 arg1 arg2 c) s
      else if num = WRITE_SWI then on_con (write_syscall arg0 arg1 arg2 c) s
      else if num = TIME_SWI then Some (Return (time_syscall k), s)
      else if num = SLEEP_SWI then Some (sleep_enter arg0 k, s)
      else if num = CREATE_SWI then
        map_option (\<lambda>(out, tasks, k). (out, s\<lparr>kern := k, con := c\<lparr>mem := store_tasks arg0 tasks (mem c)\<rparr>\<rparr>))
          (task_create_syscall launch_task idle arg0 (load_tasks (mem c) arg0 (unat arg1)) arg1 k)
      else if num = EVENT_WAIT then on_kern (event_wait_syscall arg0 k) s
      else if num = MUTEX_CREATE then on_kern (mutex_create_syscall k) s
      else if num = MUTEX_LOCK then on_kern (mutex_lock_syscall (sint arg0) k) s
      else if num = MUTEX_UNLOCK then on_kern (mutex_unlock_syscall (sint arg0) k) s
      else Some (invalid_syscall num s))"

section \<open>Tasks in memory\<close>

definition task_words :: "task \<Rightarrow> u32 list" where
  "task_words t = [lambda t, data t, stack_pos t, task_C t, task_T t]"

lemma length_task_words [simp]: "length (task_words t) = 5"
  by (simp add: task_words_def)

lemma store_tasks_words: "store_tasks a ts m = store_words a (concat (map task_words ts)) m"
  by (induction ts arbitrary: a m)
    (simp_all add: store_task_def store_words_append task_words_def [of "_ :: task"] add.assoc)

lemma nth_concat_words:
  "i < length ts \<Longrightarrow> r < 5 \<Longrightarrow> concat (map task_words ts) ! (5 * i + r) = task_words (ts ! i) ! r"
proof (induction ts arbitrary: i)
  case (Cons t ts)
  then show ?case by (cases i) (simp_all add: nth_append)
qed simp

lemma length_concat_words [simp]: "length (concat (map task_words ts)) = 5 * length ts"
  by (induction ts) simp_all

lemma load_store_tasks:
  assumes "20 * length ts \<le> 2 ^ 32"
  shows "load_tasks (store_tasks a ts m) a (length ts) = ts"
proof (rule nth_equalityI)
  fix i
  assume i: "i < length (load_tasks (store_tasks a ts m) a (length ts))"
  then have i: "i < length ts" by (simp add: load_tasks_def)
  let ?m = "store_tasks a ts m" and ?a = "a + 20 * of_nat i"
  have word: "load32 ?m (?a + 4 * of_nat r) = task_words (ts ! i) ! r" if "r < 5" for r
  proof -
    have "load32 ?m (a + 4 * of_nat (5 * i + r)) = concat (map task_words ts) ! (5 * i + r)"
      unfolding store_tasks_words by (rule load_store_words) (use assms i that in simp_all)
    then show ?thesis using nth_concat_words [OF i that] by (simp add: algebra_simps)
  qed
  have "load_task ?m ?a = ts ! i"
    using word [of 0] word [of 1] word [of 2] word [of 3] word [of 4] by (simp add: load_task_def task_words_def)
  then show "load_tasks ?m a (length ts) ! i = ts ! i" using i by (simp add: load_tasks_def)
qed (simp add: load_tasks_def)

section \<open>System calls and the kernel invariant\<close>

lemma write_syscall_defined: "\<exists>v c'. write_syscall fd buf cnt c = Some (v, c')"
  by (auto simp: write_syscall_def put_bytes_eq)

text \<open>
  Every call but \<open>task_create\<close> keeps the kernel well-formed. A mutex number must not be negative,
  and the console must deliver enough input for a read to end.
\<close>

lemma getSWI_wf:
  assumes wf: "kernel_wf (kern s)" and idle: "cur_tcb (kern s) \<noteq> Some IDLE_PRIO"
    and create: "num \<noteq> CREATE_SWI"
    and mutex: "num \<in> {MUTEX_LOCK, MUTEX_UNLOCK} \<Longrightarrow> 0 \<le> sint (load32 (mem (con s)) sp)"
    and read: "num = READ_SWI \<Longrightarrow> read_syscall (load32 (mem (con s)) sp) (load32 (mem (con s)) (sp + 4))
      (load32 (mem (con s)) (sp + 8)) (con s) \<noteq> None"
  shows "\<exists>out s'. getSWI launch_task idle num sp s = Some (out, s') \<and> kernel_wf (kern s')"
proof -
  let ?a = "load32 (mem (con s)) sp"
  consider "num = READ_SWI" | "num = WRITE_SWI" | "num = TIME_SWI" | "num = SLEEP_SWI" | "num = EVENT_WAIT"
    | "num = MUTEX_CREATE" | "num = MUTEX_LOCK" | "num = MUTEX_UNLOCK"
    | "num \<notin> {READ_SWI, WRITE_SWI, TIME_SWI, SLEEP_SWI, CREATE_SWI, EVENT_WAIT, MUTEX_CREATE, MUTEX_LOCK, MUTEX_UNLOCK}"
    using create by blast
  then show ?thesis
  proof cases
    case 1
    then show ?thesis using read wf by (auto simp: getSWI_def Let_def on_con_def)
  next
    case 2
    obtain v c' where "write_syscall ?a (load32 (mem (con s)) (sp + 4)) (load32 (mem (con s)) (sp + 8)) (con s) = Some (v, c')"
      using write_syscall_defined by blast
    then show ?thesis using 2 wf by (auto simp: getSWI_def Let_def on_con_def)
  next
    case 3
    then show ?thesis using wf by (auto simp: getSWI_def Let_def)
  next
    case 4
    then show ?thesis using wf by (auto simp: getSWI_def Let_def)
  next
    case 5
    obtain out k' where "event_wait_syscall ?a (kern s) = Some (out, k')" "kernel_wf k'"
      using event_wait_wf [OF wf idle] by blast
    then show ?thesis using 5 by (auto simp: getSWI_def Let_def on_kern_def)
  next
    case 6
    obtain out k' where "mutex_create_syscall (kern s) = Some (out, k')" "kernel_wf k'"
      using mutex_create_wf [OF wf] by blast
    then show ?thesis using 6 by (auto simp: getSWI_def Let_def on_kern_def)
  next
    case 7
    then have "sint ?a = int (nat (sint ?a))" using mutex by simp
    then obtain out k' where "mutex_lock_syscall (sint ?a) (kern s) = Some (out, k')" "kernel_wf k'"
      using mutex_lock_wf [OF wf idle, of "nat (sint ?a)"] by metis
    then show ?thesis using 7 by (auto simp: getSWI_def Let_def on_kern_def)
  next
    case 8
    then have "sint ?a = int (nat (sint ?a))" using mutex by simp
    then obtain out k' where "mutex_unlock_syscall (sint ?a) (kern s) = Some (out, k')" "kernel_wf k'"
      using mutex_unlock_wf [OF wf, of "nat (sint ?a)"] by metis
    then show ?thesis using 8 by (auto simp: getSWI_def Let_def on_kern_def)
  next
    case 9
    then show ?thesis using wf by (simp add: getSWI_def Let_def invalid_syscall_def)
  qed
qed

end
