(* ===== verification/Hijack.thy ===== *)
theory Hijack
  imports Syscall
begin

text \<open>
  kernel/hijack.c and \<open>kmain\<close> of kernel/main.c: redirecting U-Boot's SWI and IRQ handlers to those
  of the kernel, and the boot sequence. The vector table and U-Boot's handlers are words of memory.
\<close>

section \<open>The code\<close>

definition VECTORTABLE_SWI_ENTRY :: u32 where [simp]: "VECTORTABLE_SWI_ENTRY = 0x08"
definition VECTORTABLE_IRQ_ENTRY :: u32 where [simp]: "VECTORTABLE_IRQ_ENTRY = 0x18"
definition PC_CURRENTADDR_OFFSET :: u32 where [simp]: "PC_CURRENTADDR_OFFSET = 8"
definition LOAD_PC_PC_4_ENCODING :: u32 where [simp]: "LOAD_PC_PC_4_ENCODING = 0xe51ff004"
definition LOAD_PC_PC_PLUS_OFFSET_MASK :: u32 where [simp]: "LOAD_PC_PC_PLUS_OFFSET_MASK = 0xe59ff000"
definition LOAD_PC_PC_MINUS_OFFSET_MASK :: u32 where [simp]: "LOAD_PC_PC_MINUS_OFFSET_MASK = 0xe51ff000"

record boot =
  words :: "u32 \<Rightarrow> u32"
  iaddr_1 :: u32
  iaddr_2 :: u32
  instruction1 :: u32
  instruction2 :: u32
  irq_iaddr_1 :: u32
  irq_iaddr_2 :: u32
  irq_instruction1 :: u32
  irq_instruction2 :: u32
  boot_kernel :: kernel
  boot_calls :: "uboot_call list"

text \<open>\<open>S_Handler\<close> and \<open>IRQ_Handler\<close> are the link addresses of the two assembly handlers.\<close>

definition install_handler :: "u32 \<Rightarrow> boot \<Rightarrow> u32 \<times> boot" where
  "install_handler S_Handler b =
     (let swi_entry = words b VECTORTABLE_SWI_ENTRY
      in if (swi_entry XOR LOAD_PC_PC_PLUS_OFFSET_MASK) AND 0xfffff000 \<noteq> 0 \<and>
            (swi_entry XOR LOAD_PC_PC_MINUS_OFFSET_MASK) AND 0xfffff000 \<noteq> 0
         then (0x0badc0de, b)
         else let offset = swi_entry AND 0x0fff;
                  jump_entry = VECTORTABLE_SWI_ENTRY + PC_CURRENTADDR_OFFSET + offset;
                  iaddrptr = words b jump_entry;
                  b = b\<lparr>iaddr_1 := iaddrptr, iaddr_2 := iaddrptr + 4\<rparr>;
                  b = b\<lparr>instruction1 := words b (iaddr_1 b), instruction2 := words b (iaddr_2 b)\<rparr>;
                  b = b\<lparr>words := (words b)(iaddrptr := LOAD_PC_PC_4_ENCODING)\<rparr>;
                  b = b\<lparr>words := (words b)(iaddrptr + 4 := S_Handler)\<rparr>
              in (0, b))"

definition install_irqhandler :: "u32 \<Rightarrow> boot \<Rightarrow> u32 \<times> boot" where
  "install_irqhandler IRQ_Handler b =
     (let swi_entry = words b VECTORTABLE_IRQ_ENTRY
      in if (swi_entry XOR LOAD_PC_PC_PLUS_OFFSET_MASK) AND 0xfffff000 \<noteq> 0 \<and>
            (swi_entry XOR LOAD_PC_PC_MINUS_OFFSET_MASK) AND 0xfffff000 \<noteq> 0
         then (0x0badc0de, b)
         else let offset = swi_entry AND 0x0fff;
                  jump_entry = VECTORTABLE_IRQ_ENTRY + PC_CURRENTADDR_OFFSET + offset;
                  iaddrptr = words b jump_entry;
                  b = b\<lparr>irq_iaddr_1 := iaddrptr, irq_iaddr_2 := iaddrptr + 4\<rparr>;
                  b = b\<lparr>irq_instruction1 := words b (irq_iaddr_1 b), irq_instruction2 := words b (irq_iaddr_2 b)\<rparr>;
                  b = b\<lparr>words := (words b)(iaddrptr := LOAD_PC_PC_4_ENCODING)\<rparr>;
                  b = b\<lparr>words := (words b)(iaddrptr + 4 := IRQ_Handler)\<rparr>
              in (0, b))"

text \<open>
  \<open>kmain\<close> after \<open>app_startup\<close> cleared the BSS. A vector that is no load of the program counter ends in
  an endless loop after a message; otherwise the result is the state in which \<open>Usermode\<close> is entered.
\<close>

definition kmain :: "u32 \<Rightarrow> u32 \<Rightarrow> boot \<Rightarrow> (bool \<times> boot) option" where
  "kmain S_Handler IRQ_Handler b0 = do {
     k \<leftarrow> mutex_init bss_kernel;
     let (r, b) = install_handler S_Handler (b0\<lparr>boot_kernel := k\<rparr>);
     if r \<noteq> 0 then Some (False, b\<lparr>boot_calls := boot_calls b @ [Puts (map of_char ''Bad Code!'' @ [NEWLINE])]\<rparr>)
     else let (r, b) = install_irqhandler IRQ_Handler b
          in if r \<noteq> 0 then Some (False, b\<lparr>boot_calls := boot_calls b @ [Puts (map of_char ''Bad Code!'' @ [NEWLINE])]\<rparr>)
             else Some (True, b) }"

section \<open>Taking an exception\<close>

text \<open>
  ARM's \<open>ldr pc, [pc, #+-offset]\<close> (the encodings that the code looks for) jumps to the word at its
  own address plus 8 plus or minus its offset. \<open>None\<close> is any other instruction.
\<close>

definition ldr_pc :: "(u32 \<Rightarrow> u32) \<Rightarrow> u32 \<Rightarrow> u32 option" where
  "ldr_pc m a =
     (let w = m a; offset = w AND 0xfff
      in if w AND 0xfffff000 = 0xe59ff000 then Some (m (a + 8 + offset))
         else if w AND 0xfffff000 = 0xe51ff000 then Some (m (a + 8 - offset))
         else None)"

lemma xor_and_zero: "((a XOR b) AND c = 0) = (a AND c = b AND (c :: u32))"
proof -
  have "((a XOR b) AND c = 0) = (\<forall>n<32. bit c n \<longrightarrow> bit a n = bit b n)"
    by (auto simp: bit_eq_iff bit_simps dest: bit_imp_le_length)
  also have "\<dots> = (a AND c = b AND c)"
    by (auto simp: bit_eq_iff bit_simps dest: bit_imp_le_length)
  finally show ?thesis .
qed

text \<open>
  The two patched words, for a vector at \<open>v\<close> that adds its offset: the exception first jumps to
  the patched handler and from there to the kernel's.
\<close>

definition patched :: "(u32 \<Rightarrow> u32) \<Rightarrow> u32 \<Rightarrow> u32 \<Rightarrow> (u32 \<Rightarrow> u32)" where
  "patched m u h = m(u := LOAD_PC_PC_4_ENCODING, u + 4 := h)"

definition jump_slot :: "(u32 \<Rightarrow> u32) \<Rightarrow> u32 \<Rightarrow> u32" where
  "jump_slot m v = v + 8 + (m v AND 0xfff)"

lemma ldr_pc_minus4: "m u = 0xe51ff004 \<Longrightarrow> ldr_pc m u = Some (m (u + 4))"
  by (simp add: ldr_pc_def Let_def) (simp add: add.commute)

text \<open>The vector and its jump table entry are not among the two words.\<close>

definition slots_apart :: "(u32 \<Rightarrow> u32) \<Rightarrow> u32 \<Rightarrow> bool" where
  "slots_apart m v \<longleftrightarrow> {v, jump_slot m v} \<inter> {m (jump_slot m v), m (jump_slot m v) + 4} = {}"

lemma patched_redirects:
  assumes vec: "m v AND 0xfffff000 = 0xe59ff000" and "slots_apart m v"
  defines "u \<equiv> m (jump_slot m v)"
  shows "ldr_pc (patched m u h) v = Some u" "ldr_pc (patched m u h) u = Some h"
    "patched m u h v = m v" "(patched m u h)(u := m u, u + 4 := m (u + 4)) = m"
proof -
  have ne: "u \<noteq> u + 4" "u \<noteq> v" "u + 4 \<noteq> v" "u \<noteq> jump_slot m v" "u + 4 \<noteq> jump_slot m v"
    using assms(2) by (auto simp: slots_apart_def u_def)
  then have "patched m u h v = m v" "patched m u h (jump_slot m v) = u" by (auto simp: patched_def u_def)
  then show "ldr_pc (patched m u h) v = Some u" "patched m u h v = m v"
    using vec by (simp_all add: ldr_pc_def Let_def jump_slot_def)
  show "ldr_pc (patched m u h) u = Some h" using ne by (simp add: ldr_pc_def Let_def patched_def)
  show "(patched m u h)(u := m u, u + 4 := m (u + 4)) = m" using ne by (auto simp: patched_def fun_eq_iff)
qed

definition vector_ok :: "u32 \<Rightarrow> bool" where
  "vector_ok w \<longleftrightarrow> w AND 0xfffff000 = 0xe59ff000 \<or> w AND 0xfffff000 = 0xe51ff000"

lemma install_handler_eq:
  "install_handler h b =
     (if \<not> vector_ok (words b 8) then (0x0badc0de, b)
      else let u = words b (jump_slot (words b) 8) in (0, b\<lparr>iaddr_1 := u, iaddr_2 := u + 4,
        instruction1 := words b u, instruction2 := words b (u + 4), words := patched (words b) u h\<rparr>))"
  by (simp add: install_handler_def Let_def vector_ok_def patched_def jump_slot_def xor_and_zero)

lemma install_irqhandler_eq:
  "install_irqhandler h b =
     (if \<not> vector_ok (words b 0x18) then (0x0badc0de, b)
      else let u = words b (jump_slot (words b) 0x18) in (0, b\<lparr>irq_iaddr_1 := u, irq_iaddr_2 := u + 4,
        irq_instruction1 := words b u, irq_instruction2 := words b (u + 4), words := patched (words b) u h\<rparr>))"
  by (simp add: install_irqhandler_def Let_def vector_ok_def patched_def jump_slot_def xor_and_zero)

text \<open>Both vectors, one after the other, when their handlers do not overlap either.\<close>

lemma kmain_ok:
  assumes vec: "words b 8 AND 0xfffff000 = 0xe59ff000" "words b 0x18 AND 0xfffff000 = 0xe59ff000"
  defines "u \<equiv> words b (jump_slot (words b) 8)" and "w \<equiv> words b (jump_slot (words b) 0x18)"
  assumes apart: "slots_apart (words b) 8" "slots_apart (words b) 0x18"
    "{8, jump_slot (words b) 8, u, u + 4} \<inter> {w, w + 4} = {}" "{0x18, jump_slot (words b) 0x18} \<inter> {u, u + 4} = {}"
  shows "\<exists>b'. kmain S_Handler IRQ_Handler b = Some (True, b') \<and>
    ldr_pc (words b') 8 = Some u \<and> ldr_pc (words b') u = Some S_Handler \<and>
    ldr_pc (words b') 0x18 = Some w \<and> ldr_pc (words b') w = Some IRQ_Handler \<and>
    gtMutex (boot_kernel b') = replicate 32
      \<lparr>bAvailable = True, pHolding_Tcb = None, bLock = False, pSleep_queue = None\<rparr>"
proof -
  let ?ms = "replicate 32 \<lparr>bAvailable = True, pHolding_Tcb = None, bLock = False, pSleep_queue = None\<rparr>"
  have init: "mutex_init bss_kernel = Some (bss_kernel\<lparr>gtMutex := ?ms\<rparr>)"
    by (rule mutex_init_eq) (simp add: bss_kernel_def)
  define m1 where "m1 = patched (words b) u S_Handler"
  define m2 where "m2 = patched m1 w IRQ_Handler"
  have other: "m1 a = words b a" if "a \<noteq> u" "a \<noteq> u + 4" for a
    using that by (simp add: m1_def patched_def)
  have m1: "ldr_pc m1 8 = Some u" "ldr_pc m1 u = Some S_Handler" "m1 8 = words b 8"
    using patched_redirects(1-3) [OF vec(1) apart(1), of S_Handler] by (simp_all add: m1_def u_def)
  have v: "m1 0x18 = words b 0x18" "m1 (jump_slot (words b) 0x18) = w"
    unfolding w_def using apart(4) by (auto intro!: other)
  have j: "jump_slot m1 0x18 = jump_slot (words b) 0x18" by (simp add: jump_slot_def v(1))
  have "slots_apart m1 0x18" using apart(2) v(2) j by (simp add: slots_apart_def w_def)
  then have m2: "ldr_pc m2 0x18 = Some w" "ldr_pc m2 w = Some IRQ_Handler"
    using patched_redirects(1,2) [where m = m1 and v = "0x18" and h = IRQ_Handler] vec(2) v j by (simp_all add: m2_def)
  have same: "m2 a = m1 a" if "a \<notin> {w, w + 4}" for a using that by (auto simp: m2_def patched_def)
  have j8: "8 + 8 + (m1 8 AND 0xfff) = jump_slot (words b) 8" by (simp add: jump_slot_def m1(3))
  have keep: "m2 8 = m1 8" "m2 (jump_slot (words b) 8) = m1 (jump_slot (words b) 8)" "m2 u = m1 u" "m2 (u + 4) = m1 (u + 4)"
    using apart(3) by (auto intro!: same)
  have "ldr_pc m2 8 = ldr_pc m1 8"
    using keep(1,2) j8 vec(1) m1(3) by (simp add: ldr_pc_def Let_def)
  then have m2': "ldr_pc m2 8 = Some u" using m1 by simp
  have "m1 u = LOAD_PC_PC_4_ENCODING" "m1 (u + 4) = S_Handler" by (simp_all add: m1_def patched_def)
  then have m2'': "ldr_pc m2 u = Some S_Handler" using keep(3,4) by (simp add: ldr_pc_minus4)
  show ?thesis
    using init vec v j m2 m2' m2''
    by (simp add: kmain_def install_handler_eq install_irqhandler_eq vector_ok_def Let_def
      u_def [symmetric] m1_def [symmetric] m2_def [symmetric])
qed

end
