(* ===== verification/KMath.thy ===== *)
theory KMath
  imports Prelude
begin

text \<open>
  kernel/math.c and kernel/memcheck.c: the sum of a memory region, the two implementations of the
  integer logarithm (the loop of the debug build and the table of the release build) with their
  equivalence, and the address range check.
\<close>

section \<open>The code\<close>

definition sum_region :: "u32 list \<Rightarrow> u32 \<Rightarrow> u32 option" where
  "sum_region buf num_words = for_range 0 (unat num_words) (\<lambda>i result. do {
     b \<leftarrow> aget buf i;
     Some (result + b) }) 0"

function ilog2_loop :: "u32 \<Rightarrow> u32 \<Rightarrow> u32" where
  "ilog2_loop x r = (let x = drop_bit 1 x in if x \<noteq> 0 then ilog2_loop x (r + 1) else r)"
  by pat_completeness auto
termination
proof (relation "measure (\<lambda>(x, r). unat x)")
  fix x r y :: u32
  assume "y = drop_bit 1 x" "y \<noteq> 0"
  then have "unat y = unat x div 2" "x \<noteq> 0" by (auto simp: unat_div drop_bit_Suc)
  moreover from this have "unat x \<noteq> 0" by (simp add: unat_eq_0)
  ultimately show "((y, r + 1), (x, r)) \<in> measure (\<lambda>(x, r). unat x)" by simp
qed simp

declare ilog2_loop.simps [simp del]

text \<open>The version of a build without \<open>NDEBUG\<close>, and the one of a build with it.\<close>

definition ilog2 :: "u32 \<Rightarrow> u32" where
  "ilog2 x = ilog2_loop x 0"

definition ilog2_b :: "u32 list" where
  "ilog2_b = [0x2, 0xC, 0xF0, 0xFF00, 0xFFFF0000]"

definition ilog2_S :: "nat list" where
  "ilog2_S = [1, 2, 4, 8, 16]"

definition ilog2_step :: "nat \<Rightarrow> u32 \<times> u32 \<Rightarrow> u32 \<times> u32" where
  "ilog2_step i = (\<lambda>(v, r).
     if v AND (ilog2_b ! i) \<noteq> 0 then (drop_bit (ilog2_S ! i) v, r OR of_nat (ilog2_S ! i)) else (v, r))"

definition ilog2_ndebug :: "u32 \<Rightarrow> u32" where
  "ilog2_ndebug v = snd (fold ilog2_step [4, 3, 2, 1, 0] (v, 0))"

definition valid_addr :: "u32 \<Rightarrow> u32 \<Rightarrow> u32 \<Rightarrow> u32 \<Rightarrow> u32" where
  "valid_addr start count base bound =
     (let mem_start = start; mem_end = start + count
      in if mem_start < base \<or> mem_start \<ge> bound then 0
         else if mem_end < mem_start \<or> mem_end > bound then 0
         else 1)"

section \<open>Sum\<close>

lemma sum_region_eq:
  assumes "unat num_words \<le> length buf"
  shows "sum_region buf num_words = Some (sum_list (take (unat num_words) buf))"
proof -
  let ?P = "\<lambda>i r. r = sum_list (take i buf)"
  have "\<exists>r. sum_region buf num_words = Some r \<and> ?P (unat num_words) r"
    unfolding sum_region_def
    by (rule for_range_inv [where P = ?P]) (use assms in \<open>auto simp: take_Suc_conv_app_nth\<close>)
  then show ?thesis by simp
qed

section \<open>Logarithm\<close>

definition is_log2 :: "nat \<Rightarrow> nat \<Rightarrow> bool" where
  "is_log2 n r \<longleftrightarrow> (if n = 0 then r = 0 else 2 ^ r \<le> n \<and> n < 2 ^ Suc r)"

lemma is_log2_unique:
  assumes "is_log2 n r" "is_log2 n s"
  shows "r = s"
proof (cases "n = 0")
  case False
  then have "(2::nat) ^ r < 2 ^ Suc s" "(2::nat) ^ s < 2 ^ Suc r"
    using assms unfolding is_log2_def by (auto intro: le_less_trans)
  then have "r < Suc s" "s < Suc r"
    by (simp_all only: power_strict_increasing_iff one_less_numeral_iff semiring_norm)
  then show ?thesis by simp
qed (use assms in \<open>simp add: is_log2_def\<close>)

lemma is_log2_div:
  assumes "n div 2 ^ s \<noteq> 0" "is_log2 (n div 2 ^ s) r"
  shows "is_log2 n (r + s)"
proof -
  have "2 ^ r \<le> n div 2 ^ s" "n div 2 ^ s < 2 ^ Suc r" using assms by (simp_all add: is_log2_def)
  then have "2 ^ r * 2 ^ s \<le> n" "n < 2 ^ Suc r * 2 ^ s"
    by (simp_all only: less_eq_div_iff_mult_less_eq zero_less_power zero_less_numeral div_less_iff_less_mult)
  then show ?thesis using assms(1) by (auto simp: is_log2_def power_add)
qed

lemma unat_drop_bit: "unat (drop_bit n x :: 'a::len word) = unat x div 2 ^ n"
  by (subst unat_drop_bit_eq) (rule drop_bit_eq_div)

lemma ilog2_loop_log2:
  "is_log2 (unat x) n \<Longrightarrow> ilog2_loop x r = r + of_nat n"
proof (induction x r arbitrary: n rule: ilog2_loop.induct)
  case (1 x r)
  let ?y = "drop_bit 1 x"
  have y: "unat ?y = unat x div 2 ^ 1" by (rule unat_drop_bit)
  show ?case
  proof (cases "?y = 0")
    case True
    then have "unat x div 2 = 0" using y by simp
    then have "unat x < 2" by simp
    then have "is_log2 (unat x) 0" by (auto simp: is_log2_def less_2_cases_iff)
    then have "n = 0" using 1(2) is_log2_unique by blast
    then show ?thesis using True by (subst ilog2_loop.simps) simp
  next
    case False
    then have nz: "unat x div 2 \<noteq> 0" using y by (metis power_one_right unat_eq_0)
    then have "2 ^ n \<le> unat x" "unat x < 2 ^ Suc n" "2 \<le> unat x"
      using 1(2) by (auto simp: is_log2_def split: if_splits)
    then obtain m where m: "n = Suc m" by (cases n) auto
    then have "is_log2 (unat ?y) m"
      using \<open>2 ^ n \<le> unat x\<close> \<open>unat x < 2 ^ Suc n\<close> nz y by (auto simp: is_log2_def)
    then have "ilog2_loop ?y (r + 1) = (r + 1) + of_nat m" using 1(1) [OF refl False] by blast
    then show ?thesis using False m by (subst ilog2_loop.simps) (simp add: Let_def algebra_simps)
  qed
qed

text \<open>One table step halves the number of bits that the value can have.\<close>

lemma and_push_mask:
  fixes v :: u32
  assumes "unat v < 2 ^ (2 * s)"
  shows "v AND push_bit s (mask s) \<noteq> 0 \<longleftrightarrow> unat v div 2 ^ s \<noteq> 0"
proof -
  have "v AND push_bit s (mask s) = push_bit s (take_bit s (drop_bit s v))"
    by (rule bit_word_eqI) (use bit_imp_le_length [of v] in \<open>auto simp: bit_simps less_imp_diff_less\<close>)
  moreover have "take_bit s (drop_bit s v) = drop_bit s v"
  proof -
    have "unat v div 2 ^ s < 2 ^ s"
      using assms by (simp add: div_less_iff_less_mult power_add [symmetric] mult_2)
    then have "unat (take_bit s (drop_bit s v)) = unat (drop_bit s v)"
      by (simp add: unsigned_take_bit_eq unat_drop_bit take_bit_nat_eq_self)
    then show ?thesis by (simp only: unsigned_word_eqI)
  qed
  ultimately have *: "v AND push_bit s (mask s) = push_bit s (drop_bit s v)" by simp
  have "push_bit s (drop_bit s v) = 0 \<longleftrightarrow> drop_bit s v = 0"
  proof
    assume "push_bit s (drop_bit s v) = 0"
    then have "drop_bit s (push_bit s (drop_bit s v)) = 0" by simp
    moreover have "drop_bit s (push_bit s (drop_bit s v)) = drop_bit s v"
      by (rule bit_word_eqI) (use bit_imp_le_length [of v] in \<open>auto simp: bit_simps\<close>)
    ultimately show "drop_bit s v = 0" by simp
  qed simp
  then show ?thesis using * unat_drop_bit [of s v] unat_eq_0 [of "drop_bit s v"] by simp
qed

lemma ilog2_step_log2:
  assumes step: "ilog2_step i (v, r) = (v', r')" and tab: "ilog2_b ! i = push_bit s (mask s)" "ilog2_S ! i = s"
    and v: "unat v < 2 ^ (2 * s)"
    and r: "r OR of_nat s = r + of_nat s" "unat (r + of_nat s) = unat r + s"
  shows "unat v' < 2 ^ s" "r' = r \<or> r' = r + of_nat s"
    "is_log2 (unat v') q \<Longrightarrow> is_log2 (unat v) (q + (unat r' - unat r))" "unat r \<le> unat r'"
proof -
  have div: "unat v div 2 ^ s < 2 ^ s"
    using v by (simp add: div_less_iff_less_mult power_add [symmetric] mult_2)
  have "(unat v div 2 ^ s \<noteq> 0 \<and> v' = drop_bit s v \<and> r' = r + of_nat s) \<or>
      (unat v div 2 ^ s = 0 \<and> v' = v \<and> r' = r)"
    using step and_push_mask [OF v] by (auto simp: ilog2_step_def tab r(1) split: if_splits)
  then consider "unat v div 2 ^ s \<noteq> 0" "v' = drop_bit s v" "r' = r + of_nat s"
    | "unat v < 2 ^ s" "v' = v" "r' = r"
    by (auto simp: div_eq_0_iff)
  then show "unat v' < 2 ^ s" "r' = r \<or> r' = r + of_nat s"
    "is_log2 (unat v') q \<Longrightarrow> is_log2 (unat v) (q + (unat r' - unat r))" "unat r \<le> unat r'"
    using div is_log2_div [of "unat v" s q] r(2) by (cases; simp add: unat_drop_bit)+
qed

lemma ilog2_ndebug_log2: "is_log2 (unat v) (unat (ilog2_ndebug v))"
proof -
  obtain v4 r4 where s4: "ilog2_step 4 (v, 0) = (v4, r4)" by fastforce
  obtain v3 r3 where s3: "ilog2_step 3 (v4, r4) = (v3, r3)" by fastforce
  obtain v2 r2 where s2: "ilog2_step 2 (v3, r3) = (v2, r2)" by fastforce
  obtain v1 r1 where s1: "ilog2_step 1 (v2, r2) = (v1, r1)" by fastforce
  obtain v0 r0 where s0: "ilog2_step 0 (v1, r1) = (v0, r0)" by fastforce
  have tab: "ilog2_b ! 4 = push_bit 16 (mask 16)" "ilog2_b ! 3 = push_bit 8 (mask 8)"
      "ilog2_b ! 2 = push_bit 4 (mask 4)" "ilog2_b ! 1 = push_bit 2 (mask 2)"
      "ilog2_b ! 0 = push_bit 1 (mask 1)"
      "ilog2_S ! 4 = 16" "ilog2_S ! 3 = 8" "ilog2_S ! 2 = 4" "ilog2_S ! 1 = 2" "ilog2_S ! 0 = 1"
    by (simp_all add: ilog2_b_def ilog2_S_def mask_eq_exp_minus_1)
  have l4: "unat v4 < 2 ^ 16" "r4 = 0 \<or> r4 = 16" "\<And>q. is_log2 (unat v4) q \<Longrightarrow> is_log2 (unat v) (q + unat r4)"
    using ilog2_step_log2 [OF s4 tab(1,6)] by auto
  have l3: "unat v3 < 2 ^ 8" "r3 = r4 \<or> r3 = r4 + 8" "unat r4 \<le> unat r3"
      "\<And>q. is_log2 (unat v3) q \<Longrightarrow> is_log2 (unat v4) (q + (unat r3 - unat r4))"
    using ilog2_step_log2 [OF s3 tab(2,7)] l4(1,2) by auto
  have r3: "r3 \<in> {0, 8, 16, 24}" using l3(2) l4(2) by auto
  have l2: "unat v2 < 2 ^ 4" "r2 = r3 \<or> r2 = r3 + 4" "unat r3 \<le> unat r2"
      "\<And>q. is_log2 (unat v2) q \<Longrightarrow> is_log2 (unat v3) (q + (unat r2 - unat r3))"
    using ilog2_step_log2 [OF s2 tab(3,8)] l3(1) r3 by auto
  have r2: "r2 \<in> {0, 4, 8, 12, 16, 20, 24, 28}" using l2(2) r3 by auto
  have l1: "unat v1 < 2 ^ 2" "r1 = r2 \<or> r1 = r2 + 2" "unat r2 \<le> unat r1"
      "\<And>q. is_log2 (unat v1) q \<Longrightarrow> is_log2 (unat v2) (q + (unat r1 - unat r2))"
    using ilog2_step_log2 [OF s1 tab(4,9)] l2(1) r2 by auto
  have r1: "r1 \<in> {0, 2, 4, 6, 8, 10, 12, 14, 16, 18, 20, 22, 24, 26, 28, 30}" using l1(2) r2 by auto
  have l0: "unat v0 < 2 ^ 1" "unat r1 \<le> unat r0"
      "\<And>q. is_log2 (unat v0) q \<Longrightarrow> is_log2 (unat v1) (q + (unat r0 - unat r1))"
    using ilog2_step_log2 [OF s0 tab(5,10)] l1(1) r1 by auto
  have "is_log2 (unat v0) 0" using l0(1) by (auto simp: is_log2_def less_2_cases_iff)
  from l4(3) [OF l3(4) [OF l2(4) [OF l1(4) [OF l0(3) [OF this]]]]]
  have "is_log2 (unat v) (unat r0)" using l0(2) l1(3) l2(3) l3(3) by simp
  moreover have "ilog2_ndebug v = r0" by (simp add: ilog2_ndebug_def s4 s3 s2 s1 [unfolded One_nat_def] s0)
  ultimately show ?thesis by simp
qed

lemma ilog2_log2: "is_log2 (unat x) (unat (ilog2 x))" "ilog2 x = ilog2_ndebug x"
proof -
  have "ilog2 x = of_nat (unat (ilog2_ndebug x))"
    using ilog2_loop_log2 [OF ilog2_ndebug_log2, of x 0] by (simp add: ilog2_def)
  then show "ilog2 x = ilog2_ndebug x" by simp
  then show "is_log2 (unat x) (unat (ilog2 x))" using ilog2_ndebug_log2 by simp
qed

section \<open>Address ranges\<close>

lemma valid_addr_iff:
  "valid_addr start count base bound = 1 \<longleftrightarrow>
     unat base \<le> unat start \<and> unat start < unat bound \<and> unat start + unat count \<le> unat bound"
proof -
  have "unat (start + count) = unat start + unat count \<or>
      (unat start + unat count \<ge> 2 ^ 32 \<and> start + count < start)"
  proof (cases "unat start + unat count < 2 ^ 32")
    case True
    then show ?thesis by (simp add: unat_add_lem [THEN iffD1])
  next
    case False
    then have "unat (start + count) = unat start + unat count - 2 ^ 32"
      using unat_u32_less [of start] unat_u32_less [of count]
      by (simp add: unat_word_ariths mod_if del: unat_u32_less)
    then have "unat (start + count) < unat start" "2 ^ 32 \<le> unat start + unat count"
      using False unat_u32_less [of count] by (simp_all del: unat_u32_less)
    then show ?thesis by (simp add: word_less_nat_alt)
  qed
  then show ?thesis
    using unat_u32_less [of bound]
    by (auto simp: valid_addr_def Let_def word_less_nat_alt word_le_nat_alt not_less not_le simp del: unat_u32_less)
qed

end
