(* ===== verification/Examples.thy ===== *)
theory Examples
  imports Launch Syscall Hijack KMath
begin

text \<open>
  Concrete states: the kernel as \<open>kmain\<close> leaves it, two tasks, and the kernel that
  \<open>task_create\<close> makes of them. The instances of the properties are stated for these.
\<close>

definition free_mutex :: mutex where
  "free_mutex = \<lparr>bAvailable = True, pHolding_Tcb = None, bLock = False, pSleep_queue = None\<rparr>"

definition free_kernel :: kernel where
  "free_kernel = bss_kernel\<lparr>gtMutex := replicate 32 free_mutex\<rparr>"

lemma free_kernel_init: "mutex_init bss_kernel = Some free_kernel"
  by (simp add: mutex_init_eq bss_kernel_def free_kernel_def free_mutex_def)

lemma quiet_free: "quiet free_kernel"
  by (auto simp: quiet_def sized_def runq_sized_def mutex_ok_def free_kernel_def bss_kernel_def free_mutex_def
    zero_tcb_def empty_runq_def)

lemma booted_free: "booted free_kernel"
  using quiet_free by (auto simp: booted_def abs_state_def free_kernel_def free_mutex_def fun_eq_iff)

lemma demo_functions: "functions_ok [0xa0000100, 0xa0000200, 0xa0000300, 0xa0000400]" "functions_ok [0xa0000100]"
  "\<not> bad_user_addr 0xa0001000" "functions_ok [0xa0000100, 0xa0000200, 0xa0000300]"
  by (simp_all add: functions_ok_def bad_user_addr_def)

text \<open>A slow task and a fast one.\<close>

definition slow_task :: task where
  "slow_task = \<lparr>lambda = 0xa0000100, data = 1, stack_pos = 0xa1000000, task_C = 10, task_T = 200\<rparr>"

definition fast_task :: task where
  "fast_task = \<lparr>lambda = 0xa0000200, data = 2, stack_pos = 0xa2000000, task_C = 10, task_T = 100\<rparr>"

definition demo_kernel :: kernel where
  "demo_kernel = (case task_create_syscall 0xa3000100 0xa3000200 0xa0001000 [slow_task, fast_task] 2 free_kernel of
     Some (out, tasks, k) \<Rightarrow> k | None \<Rightarrow> free_kernel)"

lemma demo_tasks_ok: "task_ok slow_task" "task_ok fast_task"
  by (simp_all add: task_ok_def bad_user_addr_def slow_task_def fast_task_def)

lemma demo_kernel:
  "kernel_wf demo_kernel" "quiet demo_kernel" "on_schedule 0 0 demo_kernel"
  "abs_state demo_kernel = \<lparr>current = 0, runnable = {0, 1, 63}, waiting = (\<lambda>_. []),
     created = (\<lambda>_. False), owner = (\<lambda>_. None)\<rparr>"
  "cur_tcb demo_kernel = Some 0"
proof -
  have "\<exists>tasks' k'. task_create_syscall 0xa3000100 0xa3000200 0xa0001000 [slow_task, fast_task] 2 free_kernel =
      Some (Switched, tasks', k') \<and> kernel_wf k' \<and> quiet k' \<and> on_schedule (system_time free_kernel) 0 k' \<and>
    abs_state k' = \<lparr>current = (if unat (2 :: u32) = 0 then IDLE_PRIO else 0),
      runnable = insert IDLE_PRIO {..<unat (2 :: u32)}, waiting = (\<lambda>_. []),
      created = created (abs_state free_kernel), owner = owner (abs_state free_kernel)\<rparr>"
  proof -
    have "last_ratio [slow_task, fast_task] (unat (2 :: u32)) \<le> 1"
      by (simp add: last_ratio_def fast_task_def)
    moreover have "\<forall>i<unat (2 :: u32). task_ok ([slow_task, fast_task] ! i)"
      using demo_tasks_ok by (auto simp: less_2_cases_iff)
    ultimately show ?thesis
      using task_create_wf [of free_kernel 2 "[slow_task, fast_task]" "0xa0001000" "0xa3000100" "0xa3000200"] quiet_free
      by (auto simp: bad_user_addr_def)
  qed
  then obtain tasks' k' where run: "task_create_syscall 0xa3000100 0xa3000200 0xa0001000 [slow_task, fast_task] 2 free_kernel =
      Some (Switched, tasks', k')" and r: "kernel_wf k'" "quiet k'" "on_schedule (system_time free_kernel) 0 k'"
    "abs_state k' = \<lparr>current = (if unat (2 :: u32) = 0 then IDLE_PRIO else 0),
      runnable = insert IDLE_PRIO {..<unat (2 :: u32)}, waiting = (\<lambda>_. []),
      created = created (abs_state free_kernel), owner = owner (abs_state free_kernel)\<rparr>"
    by blast
  have k': "demo_kernel = k'" by (simp add: demo_kernel_def run)
  have two: "insert IDLE_PRIO {..<unat (2 :: u32)} = {0, 1, 63}" by auto
  have t: "system_time free_kernel = 0" by (simp add: free_kernel_def bss_kernel_def)
  have m: "created (abs_state free_kernel) = (\<lambda>_. False)" "owner (abs_state free_kernel) = (\<lambda>_. None)"
    by (auto simp: abs_state_def free_kernel_def free_mutex_def fun_eq_iff)
  show k: "kernel_wf demo_kernel" "quiet demo_kernel" "on_schedule 0 0 demo_kernel"
    "abs_state demo_kernel = \<lparr>current = 0, runnable = {0, 1, 63}, waiting = (\<lambda>_. []),
       created = (\<lambda>_. False), owner = (\<lambda>_. None)\<rparr>"
    using r(1-3) t unfolding k' r(4) two m by simp_all
  obtain c where "cur_tcb demo_kernel = Some c" using k(1) by (auto simp: kernel_wf_def)
  then show "cur_tcb demo_kernel = Some 0" using current_abs [of demo_kernel c] k(4) by simp
qed

definition demo_machine :: machine where
  "demo_machine = \<lparr>mk = demo_kernel, conts = (\<lambda>_. User), holds = {}\<rparr>"

lemma demo_fresh: "fresh demo_machine"
  by (simp add: fresh_def demo_machine_def demo_kernel)

text \<open>After the first task created a mutex and locked it.\<close>

definition locked_machine :: "machine \<Rightarrow> bool" where
  "locked_machine s \<longleftrightarrow> reachable demo_machine s \<and> holds s = {(0, 0)} \<and> conts s = (\<lambda>_. User) \<and>
     kernel_wf (mk s) \<and> cur_tcb (mk s) = Some 0 \<and>
     abs_state (mk s) = \<lparr>current = 0, runnable = {0, 1, 63}, waiting = (\<lambda>_. []),
       created = (\<lambda>_. False)(0 := True), owner = [0 \<mapsto> 0]\<rparr>"

lemma demo_locked: "\<exists>s. locked_machine s"
proof -
  have cur: "cur_tcb (mk demo_machine) = Some 0" "conts demo_machine 0 = User"
    by (simp_all add: demo_machine_def demo_kernel)
  obtain out k1 where k1: "mutex_create_syscall demo_kernel = Some (out, k1)" "kernel_wf k1"
      "spec_create (abs_state demo_kernel) = (out, abs_state k1)"
    using mutex_create_wf [OF demo_kernel(1)] by blast
  have "filter (\<lambda>m. True) [0..<32] = 0 # [1..<32]" by (simp add: upt_rec [of 0])
  then have a1: "abs_state k1 = (abs_state demo_kernel)\<lparr>created := (\<lambda>_. False)(0 := True)\<rparr>"
    using k1(3) by (simp add: spec_create_def demo_kernel(4))
  let ?s1 = "demo_machine\<lparr>mk := k1\<rparr>"
  have "mstep demo_machine ?s1"
    by (rule mstep.create [OF cur(1) _ cur(2), of out]) (use k1(1) in \<open>simp_all add: demo_machine_def\<close>)
  then have r1: "reachable demo_machine ?s1" by (rule reachable.step [OF reachable.start])
  obtain c where "cur_tcb k1 = Some c" using k1(2) by (auto simp: kernel_wf_def)
  then have c1: "cur_tcb k1 = Some 0" using current_abs [of k1 c] a1 by (simp add: demo_kernel(4))
  obtain out2 k2 where k2: "mutex_lock_syscall (int 0) k1 = Some (out2, k2)" "kernel_wf k2"
      "spec_lock 0 (abs_state k1) = (out2, abs_state k2)"
    using mutex_lock_wf [OF k1(2), of 0] c1 by auto
  have o2: "out2 = Return 0" and a2: "abs_state k2 = (abs_state k1)\<lparr>owner := [0 \<mapsto> 0]\<rparr>"
    using k2(3) by (simp_all add: spec_lock_def a1 demo_kernel(4))
  obtain c where "cur_tcb k2 = Some c" using k2(2) by (auto simp: kernel_wf_def)
  then have c2: "cur_tcb k2 = Some 0" using current_abs [of k2 c] a1 a2 by (simp add: demo_kernel(4))
  have "mstep ?s1 \<lparr>mk = k2, conts = (conts ?s1)(0 := cont_after (In_lock 0) out2),
      holds = (if out2 = Return 0 then insert (0, 0) (holds ?s1) else holds ?s1)\<rparr>" (is "mstep _ ?s2")
    by (rule mstep.lock) (use c1 k2(1) cur(2) in simp_all)
  from reachable.step [OF r1 this] have r2: "reachable demo_machine ?s2" .
  have a3: "abs_state (mk ?s2) = \<lparr>current = 0, runnable = {0, 1, 63}, waiting = (\<lambda>_. []),
      created = (\<lambda>_. False)(0 := True), owner = [0 \<mapsto> 0]\<rparr>"
    unfolding machine.simps a2 a1 demo_kernel(4) by simp
  have h: "holds ?s2 = {(0, 0)}" "conts ?s2 = (\<lambda>_. User)" "kernel_wf (mk ?s2)" "cur_tcb (mk ?s2) = Some 0"
    using o2 k2(2) c2 by (simp_all add: demo_machine_def fun_eq_iff)
  show ?thesis unfolding locked_machine_def by (intro exI [of _ ?s2] conjI r2 a3 h)
qed

text \<open>The same task inside of its call, right before it takes the free mutex that it was handed.\<close>

lemma demo_handed: "\<exists>s. machine_inv s \<and> cur_tcb (mk s) = Some 0 \<and> conts s 0 = In_lock 0"
proof -
  obtain s where "locked_machine s" using demo_locked by blast
  then have s: "kernel_wf (mk s)" "cur_tcb (mk s) = Some 0"
      "abs_state (mk s) = \<lparr>current = 0, runnable = {0, 1, 63}, waiting = (\<lambda>_. []),
        created = (\<lambda>_. False)(0 := True), owner = [0 \<mapsto> 0]\<rparr>"
    by (simp_all add: locked_machine_def)
  let ?s = "\<lparr>mk = mk s, conts = (\<lambda>_. User)(0 := In_lock 0), holds = {}\<rparr>"
  have "machine_inv ?s" using s by (simp add: machine_inv_def conts_ok_def)
  then show ?thesis using s(2) by (intro exI [of _ ?s]) simp
qed

text \<open>Task 1 holds mutex 0 and runs, task 0 of higher priority waits for the mutex.\<close>

lemma run_other:
  assumes "kernel_wf k" "c \<in> runnable (abs_state k)"
  shows "kernel_wf (k\<lparr>cur_tcb := Some c\<rparr>)" "abs_state (k\<lparr>cur_tcb := Some c\<rparr>) = (abs_state k)\<lparr>current := c\<rparr>"
proof -
  obtain Q where inv: "kernel_inv k Q" using assms(1) by (auto simp: kernel_wf_def)
  obtain t where "ready (kq k) c = Some t" using assms(2) by (auto simp: abs_state_def)
  then have c: "ready (kq k) c = Some c" "c < 64" using inv_readyD [OF inv] by auto
  have p: "ptr (k\<lparr>cur_tcb := Some c\<rparr>) = ptr k" by (rule ext, case_tac x) (simp_all add: ptr.simps)
  have "kernel_inv (k\<lparr>cur_tcb := Some c\<rparr>) Q"
    using inv c p by (simp add: kernel_inv_def sized_def)
  then show "kernel_wf (k\<lparr>cur_tcb := Some c\<rparr>)" using c by (auto simp: kernel_wf_def)
  show "abs_state (k\<lparr>cur_tcb := Some c\<rparr>) = (abs_state k)\<lparr>current := c\<rparr>"
    by (simp add: abs_state_def queue_def p fun_eq_iff cong: if_cong)
qed

definition contended :: "kernel \<Rightarrow> bool" where
  "contended k \<longleftrightarrow> kernel_wf k \<and> abs_state k = \<lparr>current = 1, runnable = {1, 63},
     waiting = (\<lambda>_. [])(Mutex_head 0 := [0]), created = (\<lambda>_. False)(0 := True), owner = [0 \<mapsto> 1]\<rparr>"

lemma demo_contended: "\<exists>k. contended k"
proof -
  define k0 where "k0 = demo_kernel\<lparr>cur_tcb := Some 1\<rparr>"
  have k0: "kernel_wf k0" "abs_state k0 = (abs_state demo_kernel)\<lparr>current := 1\<rparr>"
    unfolding k0_def by (rule run_other [OF demo_kernel(1)], simp add: demo_kernel(4))+
  obtain out k1 where k1: "kernel_wf k1" "spec_create (abs_state k0) = (out, abs_state k1)"
    using mutex_create_wf [OF k0(1)] by blast
  have "filter (\<lambda>m. True) [0..<32] = 0 # [1..<32]" by (simp add: upt_rec [of 0])
  then have a1: "abs_state k1 = \<lparr>current = 1, runnable = {0, 1, 63}, waiting = (\<lambda>_. []),
      created = (\<lambda>_. False)(0 := True), owner = (\<lambda>_. None)\<rparr>"
    using k1(2) by (simp add: spec_create_def k0(2) demo_kernel(4))
  obtain c where c: "cur_tcb k1 = Some c" using k1(1) by (auto simp: kernel_wf_def)
  then have "cur_tcb k1 \<noteq> Some IDLE_PRIO" using current_abs [OF c] a1 by simp
  then obtain out2 k2 where k2: "kernel_wf k2" "spec_lock 0 (abs_state k1) = (out2, abs_state k2)"
    using mutex_lock_wf [OF k1(1)] by blast
  have a2: "abs_state k2 = \<lparr>current = 1, runnable = {0, 1, 63}, waiting = (\<lambda>_. []),
      created = (\<lambda>_. False)(0 := True), owner = [0 \<mapsto> 1]\<rparr>"
    using k2(2) by (simp add: spec_lock_def a1)
  define k3 where "k3 = k2\<lparr>cur_tcb := Some 0\<rparr>"
  have k3: "kernel_wf k3" "abs_state k3 = (abs_state k2)\<lparr>current := 0\<rparr>"
    unfolding k3_def by (rule run_other [OF k2(1)], simp add: a2)+
  have "cur_tcb k3 \<noteq> Some IDLE_PRIO" by (simp add: k3_def)
  then obtain out4 k4 where k4: "kernel_wf k4" "spec_lock 0 (abs_state k3) = (out4, abs_state k4)"
    using mutex_lock_wf [OF k3(1)] by blast
  have "Min {Suc 0, 63} = 1" by simp
  then have "abs_state k4 = \<lparr>current = 1, runnable = {1, 63},
     waiting = (\<lambda>_. [])(Mutex_head 0 := [0]), created = (\<lambda>_. False)(0 := True), owner = [0 \<mapsto> 1]\<rparr>"
    using k4(2) by (simp add: spec_lock_def k3(2) a2 spec_dispatch_def spec_sleep_def insert_Diff_if)
  with k4(1) show ?thesis unfolding contended_def by blast
qed

text \<open>Task 1 unlocks the mutex that task 0 waits for.\<close>

lemma demo_unlocked:
  "\<exists>s s'. machine_inv s \<and> reachable s s' \<and> s' \<noteq> s \<and> waiting (abs_state (mk s)) (Mutex_head 0) = [0]"
proof -
  obtain k where "contended k" using demo_contended by blast
  then have k: "kernel_wf k" "abs_state k = \<lparr>current = 1, runnable = {1, 63},
     waiting = (\<lambda>_. [])(Mutex_head 0 := [0]), created = (\<lambda>_. False)(0 := True), owner = [0 \<mapsto> 1]\<rparr>"
    by (simp_all add: contended_def)
  let ?s = "\<lparr>mk = k, conts = (\<lambda>_. User)(0 := In_lock 0), holds = {(1, 0)}\<rparr>"
  have inv: "machine_inv ?s" using k by (auto simp: machine_inv_def conts_ok_def)
  obtain c where c: "cur_tcb k = Some c" using k(1) by (auto simp: kernel_wf_def)
  then have c1: "cur_tcb k = Some 1" using current_abs [of k c] k(2) by simp
  obtain out k' where k': "mutex_unlock_syscall (int 0) k = Some (out, k')" "spec_unlock 0 (abs_state k) = (out, abs_state k')"
    using mutex_unlock_wf [OF k(1), of 0] by blast
  let ?s' = "\<lparr>mk = k', conts = conts ?s, holds = (if out = Return 0 then holds ?s - {(1, 0)} else holds ?s)\<rparr>"
  have "mstep ?s ?s'" by (rule mstep.unlock) (use c1 k'(1) in simp_all)
  then have "reachable ?s ?s'" by (rule reachable.step [OF reachable.start])
  moreover have "out = Return 0" using k'(2) k(2) by (simp add: spec_unlock_def)
  then have "?s' \<noteq> ?s" by simp
  ultimately show ?thesis using inv k(2) by (intro exI [of _ ?s] exI [of _ ?s']) simp
qed

text \<open>The first task waits on device 3.\<close>

lemma demo_waiting:
  "\<exists>s. machine_inv s \<and> on_schedule 0 0 (mk s) \<and> 0 \<in> set (waiting (abs_state (mk s)) (Dev_head 3))"
proof -
  obtain out k where k: "event_wait_syscall 3 demo_kernel = Some (out, k)"
      "spec_event_wait 3 (abs_state demo_kernel) = (out, abs_state k)" "system_time k = system_time demo_kernel"
      "\<forall>i. next_match (devices k ! i) = next_match (devices demo_kernel ! i)"
    using event_wait_wf [OF demo_kernel(1), of 3] demo_kernel(5) by auto
  let ?s = "demo_machine\<lparr>mk := k, conts := (conts demo_machine)(0 := cont_after In_wait out)\<rparr>"
  have "mstep demo_machine ?s"
    by (rule mstep.event_wait [of _ 0 3]) (use k(1) demo_kernel(5) in \<open>simp_all add: demo_machine_def\<close>)
  then have "machine_inv ?s" using mstep_inv fresh_inv [OF demo_fresh] by blast
  moreover have "on_schedule 0 0 k" using demo_kernel(3) k(3,4) by (simp add: on_schedule_def)
  moreover have "abs_state k = snd (spec_event_wait 3 (abs_state demo_kernel))" using k(2) by simp
  then have "0 \<in> set (waiting (abs_state k) (Dev_head 3))"
    by (simp add: spec_event_wait_def spec_dispatch_def spec_sleep_def demo_kernel(4))
  ultimately show ?thesis by (intro exI [of _ ?s]) simp
qed

text \<open>Two ready tasks.\<close>

definition five_runq :: runq where
  "five_runq = the (runqueue_add (Some 5) 5 (the (runqueue_add (Some 63) 63 empty_runq)))"

lemma five_runq: "rq_wf five_runq" "ready five_runq = [63 \<mapsto> 63, 5 \<mapsto> 5]"
proof -
  obtain q where q: "runqueue_add (Some 63) 63 empty_runq = Some q" "rq_wf q" "ready q = [63 \<mapsto> 63]"
    using rq.add_law [OF rq_wf_empty, of 63 63] by (auto simp: ready_empty)
  then obtain q' where "runqueue_add (Some 5) 5 q = Some q'" "rq_wf q'" "ready q' = [63 \<mapsto> 63, 5 \<mapsto> 5]"
    using rq.add_law [OF q(2), of 5 5] by auto
  then show "rq_wf five_runq" "ready five_runq = [63 \<mapsto> 63, 5 \<mapsto> 5]" using q(1) by (simp_all add: five_runq_def)
qed

text \<open>The first task waits on device 3, which the next timer interrupt signals; the second one runs.\<close>

lemma no_device_before: "n < 50 \<Longrightarrow> 0 < n \<Longrightarrow> due n = {}"
proof (rule ccontr)
  assume n: "n < 50" "0 < n" and "due n \<noteq> {}"
  then obtain d where d: "d \<in> due n" by blast
  then have "d < 4" using due_below_4 [of n d] n by simp
  then have "d = 0 \<or> d = 1 \<or> d = 2 \<or> d = 3" by auto
  then show False using d n by (auto simp: due_def dev_freq_def nat_dvd_not_less)
qed

lemma silent_ticks:
  assumes "kernel_wf k" "on_schedule t0 0 k"
  shows "n < 50 \<Longrightarrow> \<exists>b' k'. ticks rd n ([], k) = Some (b', k') \<and> kernel_wf k' \<and> on_schedule t0 n k' \<and>
    abs_state k' = abs_state k"
proof (induction n)
  case (Suc n)
  then obtain b' k' where k': "ticks rd n ([], k) = Some (b', k')" "kernel_wf k'" "on_schedule t0 n k'"
      "abs_state k' = abs_state k" by auto
  obtain b2 k2 where k2: "C_IRQ_Handler rd (b', k') = Some (b2, k2)" "kernel_wf k2"
    using C_IRQ_Handler_wf [OF k'(2), of rd b'] by blast
  have "spec_signal {} (abs_state k') = abs_state k'" by (simp add: spec_signal_def)
  then have "on_schedule t0 (Suc n) k2 \<and> abs_state k2 = abs_state k"
    using tick_schedule [OF k'(2,3) k2(1)] no_device_before [of "Suc n"] Suc.prems k'(4) by simp
  then show ?case using k'(1) k2 by simp
qed (use assms in simp)

lemma demo_due:
  "\<exists>s. machine_inv s \<and> cur_tcb (mk s) = Some 1 \<and> 1 \<in> runnable (abs_state (mk s)) \<and>
     3 \<in> matching (system_time (mk s) + 1) (mk s) \<and> waiting (abs_state (mk s)) (Dev_head 3) \<noteq> []"
proof -
  obtain out k where k: "event_wait_syscall 3 demo_kernel = Some (out, k)" "kernel_wf k"
      "spec_event_wait 3 (abs_state demo_kernel) = (out, abs_state k)" "system_time k = system_time demo_kernel"
      "\<forall>i. next_match (devices k ! i) = next_match (devices demo_kernel ! i)"
    using event_wait_wf [OF demo_kernel(1), of 3] demo_kernel(5) by auto
  have a: "abs_state k = \<lparr>current = 1, runnable = {1, 63}, waiting = (\<lambda>_. [])(Dev_head 3 := [0]),
      created = (\<lambda>_. False), owner = (\<lambda>_. None)\<rparr>"
    using k(3) by (auto simp: spec_event_wait_def spec_dispatch_def spec_sleep_def demo_kernel(4) insert_Diff_if)
  have "on_schedule 0 0 k" using demo_kernel(3) k(4,5) by (simp add: on_schedule_def)
  from silent_ticks [OF k(2) this, of 49 "\<lambda>_. 0"] obtain k' where k': "kernel_wf k'" "on_schedule 0 49 k'"
      "abs_state k' = abs_state k" by auto
  have "matching (system_time k' + 1) k' = due 50" using on_schedule_matching [OF k'(2)] by simp
  moreover have "3 \<in> due 50" by (simp add: due_def dev_freq_def)
  moreover have "cur_tcb k' = Some 1"
    using k'(1,3) a by (auto simp: kernel_wf_def abs_state_def)
  moreover have "machine_inv \<lparr>mk = k', conts = (\<lambda>_. User)(0 := In_wait), holds = {}\<rparr>"
    using k'(1,3) a by (simp add: machine_inv_def conts_ok_def)
  ultimately show ?thesis
    using k'(3) a by (intro exI [of _ "\<lparr>mk = k', conts = (\<lambda>_. User)(0 := In_wait), holds = {}\<rparr>"]) simp
qed

text \<open>The second one has just gone to sleep on device 0.\<close>

lemma demo_due_asleep:
  "\<exists>s k. machine_inv s \<and> cur_tcb (mk s) = Some 1 \<and>
     sleep_enqueue (Dev_head 0) (Dev_head 0) (mk s) = Some k \<and>
     3 \<in> matching (system_time k + 1) k \<and> waiting (abs_state k) (Dev_head 3) \<noteq> []"
proof -
  obtain s where s: "machine_inv s" "cur_tcb (mk s) = Some 1"
      "3 \<in> matching (system_time (mk s) + 1) (mk s)" "waiting (abs_state (mk s)) (Dev_head 3) \<noteq> []"
    using demo_due by blast
  obtain Q where Q: "kernel_inv (mk s) Q" "ready (kq (mk s)) 1 = Some 1"
    using s(1,2) by (auto simp: machine_inv_def kernel_wf_def)
  have "is_head (Dev_head 0)" "can_sleep (Dev_head 0) (mk s)" using s(2) by simp_all
  from inv_sleep [OF Q(1) s(2) Q(2) this] obtain k where k:
      "sleep_enqueue (Dev_head 0) (Dev_head 0) (mk s) = Some k" "same_but_lists (mk s) k"
      "abs_state k = spec_sleep (Dev_head 0) (abs_state (mk s))" by blast
  have "matching (system_time k + 1) k = matching (system_time (mk s) + 1) (mk s)"
    using k(2) by (simp add: same_but_lists_def matching_def)
  moreover have "waiting (abs_state k) (Dev_head 3) \<noteq> []" using s(4) unfolding k(3) by (simp add: spec_sleep_def)
  ultimately show ?thesis using s k(1) by blast
qed

end
