(* ===== verification/Progress.thy ===== *)
theory Progress
  imports System
begin

text \<open>
  Progress in the running system: the waiting tasks of a mutex are served in the order of their
  arrival, whatever else happens, and a task that waits on a device with a period is made ready
  within that many timer interrupts.
\<close>

section \<open>Calls and the clock\<close>

text \<open>Only the timer interrupt touches the time and the match values of the devices.\<close>

definition same_clock :: "kernel \<Rightarrow> kernel \<Rightarrow> bool" where
  "same_clock k k' \<longleftrightarrow> system_time k' = system_time k \<and>
     (\<forall>d. next_match (devices k' ! d) = next_match (devices k ! d))"

lemma same_clock_refl [simp]: "same_clock k k" "same_clock (disable_interrupts k) k' = same_clock k k'"
  "same_clock k (enable_interrupts k') = same_clock k k'"
  by (simp_all add: same_clock_def)

lemma same_clock_trans: "same_clock k k' \<Longrightarrow> same_clock k' k'' \<Longrightarrow> same_clock k k''"
  by (simp add: same_clock_def)

lemma same_clock_eq: "system_time k' = system_time k \<Longrightarrow> devices k' = devices k \<Longrightarrow> same_clock k k'"
  by (simp add: same_clock_def)

lemma store_clock: "store l v k = Some k' \<Longrightarrow> same_clock k k'"
  by (cases l) (auto simp: same_clock_def aset_def aget_def nth_list_update split: bind_splits if_splits)

lemma sleep_enqueue_clock:
  assumes "sleep_enqueue head cell k = Some k'"
  shows "same_clock k k'"
proof (rule sleep_enqueue.raw_induct [where P = "\<lambda>_ _ k k'. same_clock k k'", OF _ assms])
  fix f :: "lval \<Rightarrow> lval \<Rightarrow> kernel \<Rightarrow> kernel option" and head cell k k'
  assume IH: "\<And>h c k k'. f h c k = Some k' \<Longrightarrow> same_clock k k'"
    and body: "(load cell k \<bind> (\<lambda>p. case p of
        None \<Rightarrow> do { (t, k) \<leftarrow> runqueue_remove_cur k; store head t k }
      | Some i \<Rightarrow> load (Tcb_link i) k \<bind> (\<lambda>q. case q of
          None \<Rightarrow> do {
            (t, k) \<leftarrow> runqueue_remove_cur k;
            k \<leftarrow> store (Tcb_link i) t k;
            n \<leftarrow> t;
            store (Tcb_link n) None k }
        | Some _ \<Rightarrow> f head (Tcb_link i) k))) = Some k'"
  have rm: "same_clock k k1" if "runqueue_remove_cur k = Some (t, k1)" for t k1
    using that by (auto simp: runqueue_remove_cur_def same_clock_def split: bind_splits)
  show "same_clock k k'"
  proof (cases "load cell k")
    case (Some p)
    note cell = this
    show ?thesis
    proof (cases p)
      case None
      then obtain t k1 where "runqueue_remove_cur k = Some (t, k1)" "store head t k1 = Some k'"
        using body cell by (auto simp del: load.simps store.simps split: bind_splits)
      then show ?thesis using rm store_clock same_clock_trans by blast
    next
      case (Some i)
      note i = this
      obtain q where q: "load (Tcb_link i) k = Some q"
        using body cell i by (auto simp del: load.simps store.simps split: bind_splits)
      show ?thesis
      proof (cases q)
        case None
        then obtain t k1 k2 n where "runqueue_remove_cur k = Some (t, k1)" "store (Tcb_link i) t k1 = Some k2"
            "store (Tcb_link n) None k2 = Some k'"
          using body cell i q by (auto simp del: load.simps store.simps split: bind_splits)
        then show ?thesis using rm store_clock same_clock_trans by blast
      next
        case (Some j)
        then show ?thesis using IH body cell i q by (simp del: load.simps)
      qed
    qed
  qed (use body in simp)
qed

lemma mutex_clock:
  "mutex_lock_syscall m k = Some (out, k') \<Longrightarrow> same_clock k k'"
  "mutex_lock_resume m k = Some (out, k') \<Longrightarrow> same_clock k k'"
  "mutex_create_syscall k = Some (out, k') \<Longrightarrow> same_clock k k'"
  "mutex_unlock_syscall m k = Some (out, k') \<Longrightarrow> same_clock k k'"
proof -
  have take: "same_clock k k'" if "mutex_lock_take m k = Some (out, k')" for m k out k'
    using that by (auto simp: mutex_lock_take_def same_clock_def Let_def split: bind_splits)
  have dispatch: "same_clock k k'" if "dispatch_save k = Some k'" for k k'
    using that by (auto simp: dispatch_save_def ctx_switch_full_def same_clock_def Let_def split: bind_splits)
  show resume: "same_clock k k'" if "mutex_lock_resume m k = Some (out, k')" for m k out k'
    using take [of m "disable_interrupts k" out k'] that by (simp add: mutex_lock_resume_def)
  show "same_clock k k'" if "mutex_create_syscall k = Some (out, k')"
  proof -
    have "mutex_create_loop i k = Some (out, k') \<Longrightarrow> same_clock k k'" for i
      by (induction i k rule: mutex_create_loop.induct)
        (subst (asm) mutex_create_loop.simps, auto simp: same_clock_def split: bind_splits if_splits)
    then show ?thesis using that by (simp add: mutex_create_syscall_def)
  qed
  show "same_clock k k'" if lock: "mutex_lock_syscall m k = Some (out, k')"
  proof -
    have sleep: "same_clock k k2" if "sleep_enqueue l l (disable_interrupts k) = Some k1"
        "dispatch_save (enable_interrupts k1) = Some k2" for l k1 k2
      using same_clock_trans [of k k1 k2] sleep_enqueue_clock [OF that(1)] dispatch [OF that(2)]
      by (simp add: same_clock_def)
    have dis: "same_clock k (disable_interrupts k)" by (simp add: same_clock_def)
    show ?thesis
      using lock
      by (auto simp: mutex_lock_syscall_def Let_def dis split: bind_splits if_splits
          dest: take resume sleep intro: same_clock_trans [OF sleep resume])
  qed
  show "same_clock k k'" if "mutex_unlock_syscall m k = Some (out, k')"
    using that
    by (auto simp: mutex_unlock_syscall_def sleep_dequeue_def k_runqueue_add_def Let_def simp del: load.simps store.simps
        split: bind_splits if_splits option.splits dest!: store_clock)
      (auto simp: same_clock_def)
qed

text \<open>What the calls are for the abstract state.\<close>

inductive spec_call :: "sched_spec \<Rightarrow> sched_spec \<Rightarrow> bool" where
  "spec_lock m a = (out, a') \<Longrightarrow> spec_call a a'"
| "spec_unlock m a = (out, a') \<Longrightarrow> spec_call a a'"
| "spec_create a = (out, a') \<Longrightarrow> spec_call a a'"
| "spec_event_wait d a = (out, a') \<Longrightarrow> spec_call a a'"
| "spec_call a a"

text \<open>A step of the machine is a timer interrupt, or a call that leaves the clock alone.\<close>

lemma mstep_cases:
  assumes inv: "machine_inv s" and step: "mstep s s'"
  obtains (call) "spec_call (abs_state (mk s)) (abs_state (mk s'))" "same_clock (mk s) (mk s')"
    | (tick) rd b b' where "C_IRQ_Handler rd (b, mk s) = Some (b', mk s')"
proof -
  have wf: "kernel_wf (mk s)" and ok: "conts_ok (abs_state (mk s)) (conts s) (holds s)"
    using inv by (simp_all add: machine_inv_def)
  from step show thesis
  proof (cases rule: mstep.cases)
    case (lock c m out k)
    then have "spec_lock m (abs_state (mk s)) = (out, abs_state k)" using mutex_lock_wf [OF wf, of m] by auto
    then show thesis using lock that(1) mutex_clock(1) by (simp add: spec_call.intros(1))
  next
    case (lock_resume c m out k)
    then have "abs_state k = abs_state (mk s)" using lock_resume_wf [OF wf lock_resume(2) ok lock_resume(3)] by auto
    then show thesis using lock_resume that(1) mutex_clock(2) by (simp add: spec_call.intros(5))
  next
    case (unlock c m out k)
    then have "spec_unlock m (abs_state (mk s)) = (out, abs_state k)" using mutex_unlock_wf [OF wf, of m] by auto
    then show thesis using unlock that(1) mutex_clock(4) by (simp add: spec_call.intros(2))
  next
    case (create c out k)
    then have "spec_create (abs_state (mk s)) = (out, abs_state k)" using mutex_create_wf [OF wf] by auto
    then show thesis using create that(1) mutex_clock(3) by (simp add: spec_call.intros(3))
  next
    case (event_wait c d out k)
    then have "spec_event_wait (unat d) (abs_state (mk s)) = (out, abs_state k)" "same_clock (mk s) k"
      using event_wait_wf [OF wf, of d] by (auto simp: same_clock_def)
    then show thesis using event_wait that(1) by (simp add: spec_call.intros(4))
  next
    case (tick rd b b' k)
    then show thesis using that(2) by simp
  qed (use that(1) in \<open>simp_all add: spec_call.intros(5)\<close>)
qed

section \<open>Order of service\<close>

text \<open>
  \<open>w\<close> and \<open>h\<close> are the queue and the holder of mutex \<open>m\<close> at an earlier time. Since then the first \<open>j\<close>
  tasks have been handed the mutex one after the other, and newcomers have queued up behind.
\<close>

definition served :: "nat list \<Rightarrow> nat option \<Rightarrow> nat \<Rightarrow> sched_spec \<Rightarrow> bool" where
  "served w h m a \<longleftrightarrow> (\<exists>j new. j \<le> length w \<and> waiting a (Mutex_head m) = drop j w @ new \<and>
     (j < length w \<longrightarrow> owner a m = (if j = 0 then h else Some (w ! (j - 1)))))"

lemma served_same:
  "served w h m a \<Longrightarrow> waiting a' (Mutex_head m) = waiting a (Mutex_head m) \<Longrightarrow> owner a' m = owner a m \<Longrightarrow> served w h m a'"
  by (simp add: served_def)

lemma served_lock:
  assumes sv: "served w h m a" and ok: "spec_ok a" and lock: "spec_lock n a = (out, a')"
  shows "served w h m a'"
proof (cases "n = m")
  case False
  then show ?thesis
    using lock by (intro served_same [OF sv])
      (auto simp: spec_lock_def spec_dispatch_def spec_sleep_def split: if_splits option.splits)
next
  case True
  obtain j new where j: "j \<le> length w" "waiting a (Mutex_head m) = drop j w @ new"
      "j < length w \<longrightarrow> owner a m = (if j = 0 then h else Some (w ! (j - 1)))"
    using sv by (auto simp: served_def)
  consider "a' = a" | "owner a m = None" "a' = a\<lparr>owner := (owner a)(m \<mapsto> current a)\<rparr>"
    | "a' = spec_dispatch (spec_sleep (Mutex_head m) a)"
  proof (cases "created a m")
    case False
    then show thesis using lock True that(1) by (simp add: spec_lock_def)
  next
    case cr: True
    show thesis
    proof (cases "owner a m")
      case None
      then show thesis using lock True cr that(2) by (simp add: spec_lock_def)
    next
      case (Some t)
      then show thesis using lock True cr that(1,3) by (cases "t = current a") (simp_all add: spec_lock_def)
    qed
  qed
  then show ?thesis
  proof cases
    case 2
    have "waiting a (Mutex_head m) = []" using spec_okD(2) [OF ok 2(1)] .
    then show ?thesis using j 2(2) unfolding served_def by (intro exI [of _ j] exI [of _ new]) simp
  next
    case 3
    then have "waiting a' (Mutex_head m) = drop j w @ (new @ [current a])" "owner a' = owner a"
      using j(2) by (simp_all add: spec_dispatch_def spec_sleep_def)
    then show ?thesis using j(1,3) unfolding served_def by metis
  qed (use sv in simp)
qed

lemma served_unlock:
  assumes sv: "served w h m a" and unlock: "spec_unlock n a = (out, a')"
  shows "served w h m a'"
proof (cases "n = m \<and> out = Return 0")
  case False
  have "spec_wake (Mutex_head n) a = a \<or> waiting (spec_wake (Mutex_head n) a) (Mutex_head m) = waiting a (Mutex_head m) \<or> n = m"
    by (cases "waiting a (Mutex_head n)") (simp_all add: spec_wake_def)
  then show ?thesis
    using False unlock by (intro served_same [OF sv]) (auto simp: spec_unlock_def split: if_splits)
next
  case True
  obtain j new where j: "j \<le> length w" "waiting a (Mutex_head m) = drop j w @ new"
      "j < length w \<longrightarrow> owner a m = (if j = 0 then h else Some (w ! (j - 1)))"
    using sv by (auto simp: served_def)
  have a': "waiting a' (Mutex_head m) = tl (waiting a (Mutex_head m))"
      "owner a' m = (case waiting a (Mutex_head m) of [] \<Rightarrow> None | t # _ \<Rightarrow> Some t)"
    using True unlock by (auto simp: spec_unlock_def spec_wake_def split: if_splits list.splits)
  show ?thesis
  proof (cases "j < length w")
    case True
    then have d: "drop j w = w ! j # drop (Suc j) w" by (simp add: Cons_nth_drop_Suc)
    then have "waiting a' (Mutex_head m) = drop (Suc j) w @ new" "owner a' m = Some (w ! j)"
      using a' j(2) by simp_all
    then show ?thesis using True unfolding served_def by (intro exI [of _ "Suc j"] exI [of _ new]) simp
  next
    case False
    then have "waiting a' (Mutex_head m) = drop (length w) w @ tl new" using a'(1) j by simp
    then show ?thesis unfolding served_def by (intro exI [of _ "length w"] exI [of _ "tl new"]) simp
  qed
qed

lemma served_step:
  assumes "served w h m a" "spec_ok a" "spec_call a a'"
  shows "served w h m a'"
  using assms(3)
proof cases
  case (1 n out)
  then show ?thesis using served_lock assms(1,2) by blast
next
  case (2 n out)
  then show ?thesis using served_unlock assms(1) by blast
next
  case (3 out)
  then show ?thesis by (intro served_same [OF assms(1)]) (auto simp: spec_create_def split: list.splits)
next
  case (4 d out)
  then show ?thesis
    by (intro served_same [OF assms(1)]) (auto simp: spec_event_wait_def spec_dispatch_def spec_sleep_def split: if_splits)
qed (use assms(1) in simp)

lemma served_reachable:
  assumes "machine_inv s0"
  shows "reachable s0 s \<Longrightarrow> served (waiting (abs_state (mk s0)) (Mutex_head m)) (owner (abs_state (mk s0)) m) m (abs_state (mk s))"
proof (induction rule: reachable.induct)
  case start
  show ?case unfolding served_def by (intro exI [of _ 0] exI [of _ "[]"]) simp
next
  case (step s s')
  have inv: "machine_inv s" using reachable_inv [OF step.hyps(1) assms] .
  then have wf: "kernel_wf (mk s)" by (simp add: machine_inv_def)
  show ?case
    using inv step.hyps(2)
  proof (cases rule: mstep_cases)
    case call
    then show ?thesis using served_step [OF step.IH wf_spec_ok [OF wf]] by blast
  next
    case (tick rd b b')
    then obtain D where "abs_state (mk s') = spec_signal D (abs_state (mk s))"
      using C_IRQ_Handler_wf [OF wf, of rd b] by auto
    then show ?thesis by (intro served_same [OF step.IH]) (simp_all add: spec_signal_frame)
  qed
qed

section \<open>Runs\<close>

lemma tick_not_same:
  assumes "kernel_wf k" "C_IRQ_Handler rd (b, k) = Some (b', k')"
  shows "system_time k' \<noteq> system_time k"
  using C_IRQ_Handler_wf [OF assms(1), of rd b] assms(2) by auto

lemma mstep_schedule:
  assumes s: "machine_inv s" "mstep s s'" and sched: "on_schedule t0 n (mk s)"
  shows "on_schedule t0 (n + (if system_time (mk s') = system_time (mk s) then 0 else 1)) (mk s')"
  using s
proof (cases rule: mstep_cases)
  case call
  then show ?thesis using sched by (simp add: same_clock_def on_schedule_def)
next
  case (tick rd b b')
  have wf: "kernel_wf (mk s)" using s(1) by (simp add: machine_inv_def)
  show ?thesis using tick_schedule [OF wf sched tick] tick_not_same [OF wf tick] by simp
qed

text \<open>The timer interrupts among the first steps of a run are those that move the clock.\<close>

fun tick_count :: "(nat \<Rightarrow> machine) \<Rightarrow> nat \<Rightarrow> nat" where
  "tick_count \<sigma> 0 = 0"
| "tick_count \<sigma> (Suc i) = tick_count \<sigma> i +
     (if system_time (mk (\<sigma> (Suc i))) = system_time (mk (\<sigma> i)) then 0 else 1)"

definition run_until :: "nat \<Rightarrow> (nat \<Rightarrow> machine) \<Rightarrow> bool" where
  "run_until n \<sigma> \<longleftrightarrow> (\<forall>i<n. mstep (\<sigma> i) (\<sigma> (Suc i)))"

lemma run_inv: "run_until n \<sigma> \<Longrightarrow> machine_inv (\<sigma> 0) \<Longrightarrow> i \<le> n \<Longrightarrow> machine_inv (\<sigma> i)"
  by (induction i) (simp_all add: run_until_def mstep_inv)

lemma tick_count_mono: "i \<le> j \<Longrightarrow> tick_count \<sigma> i \<le> tick_count \<sigma> j"
  by (induction j rule: dec_induct) simp_all

text \<open>The match values keep to the schedule in every run.\<close>

lemma run_schedule:
  assumes run: "run_until n \<sigma>" and inv: "machine_inv (\<sigma> 0)" and t0: "on_schedule t0 m (mk (\<sigma> 0))"
  shows "i \<le> n \<Longrightarrow> on_schedule t0 (m + tick_count \<sigma> i) (mk (\<sigma> i))"
proof (induction i)
  case 0
  then show ?case using t0 by simp
next
  case (Suc i)
  let ?k = "mk (\<sigma> i)" and ?k' = "mk (\<sigma> (Suc i))"
  have i: "machine_inv (\<sigma> i)" "mstep (\<sigma> i) (\<sigma> (Suc i))"
    using Suc.prems run run_inv [OF run inv, of i] by (simp_all add: run_until_def)
  have sched: "on_schedule t0 (m + tick_count \<sigma> i) ?k" using Suc by simp
  have "on_schedule t0 (m + tick_count \<sigma> i + (if system_time ?k' = system_time ?k then 0 else 1)) ?k'"
    by (rule mstep_schedule [OF i sched])
  then show ?case by (simp add: add.assoc)
qed

section \<open>Waking up\<close>

text \<open>Calls leave a task that waits on a device alone.\<close>

lemma spec_call_waiter:
  assumes "spec_call a a'" "t \<in> set (waiting a (Dev_head d))"
  shows "t \<in> set (waiting a' (Dev_head d))"
  using assms(1)
proof cases
  case (1 m out)
  then show ?thesis
    using assms(2) by (auto simp: spec_lock_def spec_dispatch_def spec_sleep_def split: if_splits option.splits)
next
  case (2 m out)
  have "waiting (spec_wake (Mutex_head m) a) (Dev_head d) = waiting a (Dev_head d)"
    by (simp add: spec_wake_def split: list.split)
  then show ?thesis using 2 assms(2) by (auto simp: spec_unlock_def split: if_splits)
next
  case (3 out)
  then show ?thesis using assms(2) by (auto simp: spec_create_def split: list.splits)
next
  case (4 e out)
  then show ?thesis
    using assms(2) by (auto simp: spec_event_wait_def spec_dispatch_def spec_sleep_def split: if_splits)
qed (use assms(2) in simp)

lemma spec_signal_wakes:
  assumes "t \<in> set (waiting a (Dev_head d))" "d \<in> D"
  shows "t \<in> runnable (spec_signal D a)"
  using assms by (auto simp: spec_signal_def Let_def spec_dispatch_def)

text \<open>So it waits on, or a tick that is due for the device makes it ready.\<close>

lemma mstep_waiter:
  assumes s: "machine_inv s" "mstep s s'" and sched: "on_schedule t0 n (mk s)"
    and wait: "t \<in> set (waiting (abs_state (mk s)) (Dev_head d))"
  shows "t \<in> set (waiting (abs_state (mk s')) (Dev_head d)) \<and>
      (system_time (mk s') = system_time (mk s) \<or> d \<notin> due (Suc n)) \<or>
    d \<in> due (Suc n) \<and> system_time (mk s') \<noteq> system_time (mk s) \<and> t \<in> runnable (abs_state (mk s'))"
  using s
proof (cases rule: mstep_cases)
  case call
  then show ?thesis using spec_call_waiter [OF call(1) wait] by (simp add: same_clock_def)
next
  case (tick rd b b')
  have wf: "kernel_wf (mk s)" using s(1) by (simp add: machine_inv_def)
  have signal: "abs_state (mk s') = spec_signal (due (Suc n)) (abs_state (mk s))"
    using tick_schedule [OF wf sched tick] by simp
  show ?thesis
  proof (cases "d \<in> due (Suc n)")
    case True
    then show ?thesis using spec_signal_wakes [OF wait True] tick_not_same [OF wf tick] unfolding signal by simp
  next
    case False
    then have "waiting (abs_state (mk s')) (Dev_head d) = waiting (abs_state (mk s)) (Dev_head d)"
      unfolding signal by (intro waiting_signal) auto
    then show ?thesis using wait False by simp
  qed
qed

text \<open>As long as a task waits on a device no multiple of the period has passed.\<close>

lemma still_waiting:
  assumes run: "run_until n \<sigma>" and inv: "machine_inv (\<sigma> 0)" and t0: "on_schedule t0 m (mk (\<sigma> 0))"
    and d: "d < NUM_DEVICES" "dev_freq ! d \<noteq> 0"
    and wait: "t \<in> set (waiting (abs_state (mk (\<sigma> i))) (Dev_head d))"
    and never: "\<forall>k. i < k \<longrightarrow> k \<le> j \<longrightarrow> t \<notin> runnable (abs_state (mk (\<sigma> k)))" and j: "i \<le> j" "j \<le> n"
  shows "t \<in> set (waiting (abs_state (mk (\<sigma> j))) (Dev_head d)) \<and>
    (\<forall>c. m + tick_count \<sigma> i < c \<longrightarrow> c \<le> m + tick_count \<sigma> j \<longrightarrow> \<not> unat (dev_freq ! d) dvd c)"
  using j never
proof (induction j rule: dec_induct)
  case base
  then show ?case using wait by simp
next
  case (step j)
  let ?k = "mk (\<sigma> j)" and ?k' = "mk (\<sigma> (Suc j))"
  have IH: "t \<in> set (waiting (abs_state ?k) (Dev_head d))"
      "\<forall>c. m + tick_count \<sigma> i < c \<longrightarrow> c \<le> m + tick_count \<sigma> j \<longrightarrow> \<not> unat (dev_freq ! d) dvd c"
    using step.IH step.prems by simp_all
  have now: "t \<notin> runnable (abs_state ?k')" using step.prems step.hyps by simp
  have s: "machine_inv (\<sigma> j)" "mstep (\<sigma> j) (\<sigma> (Suc j))"
    using step.prems run run_inv [OF run inv, of j] by (simp_all add: run_until_def)
  have "on_schedule t0 (m + tick_count \<sigma> j) ?k"
    using run_schedule [OF run inv t0] step.prems by simp
  from mstep_waiter [OF s this IH(1)] now
  have next_state: "t \<in> set (waiting (abs_state ?k') (Dev_head d))"
      "system_time ?k' = system_time ?k \<or> d \<notin> due (Suc (m + tick_count \<sigma> j))" by auto
  moreover have "\<not> unat (dev_freq ! d) dvd c"
    if c: "m + tick_count \<sigma> i < c" "c \<le> m + tick_count \<sigma> (Suc j)" for c
  proof (cases "c \<le> m + tick_count \<sigma> j")
    case True
    then show ?thesis using IH(2) c(1) by blast
  next
    case False
    then have "c = Suc (m + tick_count \<sigma> j)" "system_time ?k' \<noteq> system_time ?k"
      using c(2) by (auto split: if_splits)
    then show ?thesis using next_state(2) d by (simp add: due_def)
  qed
  ultimately show ?case by blast
qed

lemma multiple_between:
  fixes f :: nat
  assumes "0 < f" "a + f \<le> b"
  shows "\<exists>c. a < c \<and> c \<le> b \<and> f dvd c"
proof (intro exI conjI)
  show "a < (a div f + 1) * f" using assms(1) dividend_less_times_div [of f a] by (simp add: algebra_simps)
  have "a div f * f \<le> a" by (rule div_times_less_eq_dividend)
  then show "(a div f + 1) * f \<le> b" using assms(2) unfolding distrib_right by linarith
qed simp

text \<open>A run in which nothing but timer interrupts happens.\<close>

definition tick_run :: "machine \<Rightarrow> nat \<Rightarrow> machine" where
  "tick_run s i = s\<lparr>mk := (case ticks (\<lambda>_. 0) i ([], mk s) of Some (b, k) \<Rightarrow> k | None \<Rightarrow> mk s)\<rparr>"

lemma tick_run:
  assumes inv: "machine_inv s" and sched: "on_schedule t0 0 (mk s)"
  shows "tick_run s 0 = s" "run_until n (tick_run s)" "tick_count (tick_run s) n = n"
proof -
  have step: "mstep (tick_run s i) (tick_run s (Suc i)) \<and>
      system_time (mk (tick_run s (Suc i))) \<noteq> system_time (mk (tick_run s i))" for i
  proof -
    have wf: "kernel_wf (mk s)" using inv by (simp add: machine_inv_def)
    obtain b1 k1 where k1: "ticks (\<lambda>_. 0) i ([], mk s) = Some (b1, k1)" "kernel_wf k1"
      using ticks_wf [OF wf sched] by blast
    obtain b2 k2 where k2: "C_IRQ_Handler (\<lambda>_. 0) (b1, k1) = Some (b2, k2)"
      using C_IRQ_Handler_wf [OF k1(2)] by blast
    have "tick_run s i = s\<lparr>mk := k1\<rparr>" "tick_run s (Suc i) = s\<lparr>mk := k2\<rparr>"
      using k1(1) k2 by (simp_all add: tick_run_def)
    then show ?thesis
      using mstep.tick [of "\<lambda>_. 0" b1 "s\<lparr>mk := k1\<rparr>" b2 k2] k2 tick_not_same [OF k1(2) k2] by simp
  qed
  show "tick_run s 0 = s" by (simp add: tick_run_def)
  show "run_until n (tick_run s)" using step by (simp add: run_until_def)
  show "tick_count (tick_run s) n = n" using step by (induction n) simp_all
qed

end
