(* ===== verification/Preempt.thy ===== *)
theory Preempt
  imports Progress Threads
begin

text \<open>
  Interrupts inside the calls. The system call entry enables interrupts, and of the calls only
  \<open>mutex_lock\<close> and \<open>mutex_unlock\<close> disable them again, so \<open>event_wait\<close> and \<open>mutex_create\<close> can be
  interrupted between any two memory accesses. Here \<open>runqueue_remove\<close>, \<open>mutex_create_syscall\<close>
  and the dispatcher are modelled access by access; without an interrupt they are the functions of
  the other theories, and the points at which an interrupt does harm are determined exactly.
\<close>

section \<open>Removal from the run queue\<close>

subsection \<open>The accesses\<close>

text \<open>
  The point that \<open>runqueue_remove\<close> has reached, with the values it has loaded: the task, and
  the byte of \<open>run_bits\<close> or \<open>group_run_bits\<close> that it is about to write back.
\<close>

datatype remove_pc =
    R_list | R_clear tcb_ptr | R_bits tcb_ptr | R_bits_store tcb_ptr u8 | R_test tcb_ptr
  | R_group tcb_ptr | R_group_store tcb_ptr u8 | R_done tcb_ptr

fun remove_step :: "u8 \<Rightarrow> remove_pc \<times> runq \<Rightarrow> (remove_pc \<times> runq) option" where
  "remove_step prio (R_list, r) = do { tcb \<leftarrow> aget (run_list r) (unat prio); Some (R_clear tcb, r) }"
| "remove_step prio (R_clear tcb, r) = do {
     l \<leftarrow> aset (run_list r) (unat prio) None;
     Some (R_bits tcb, r\<lparr>run_list := l\<rparr>) }"
| "remove_step prio (R_bits tcb, r) = do {
     b \<leftarrow> aget (run_bits r) (unat (drop_bit 3 prio AND 7));
     Some (R_bits_store tcb b, r) }"
| "remove_step prio (R_bits_store tcb b, r) = do {
     bs \<leftarrow> aset (run_bits r) (unat (drop_bit 3 prio AND 7)) (b AND NOT (shl1 (unat (prio AND 7))));
     Some (R_test tcb, r\<lparr>run_bits := bs\<rparr>) }"
| "remove_step prio (R_test tcb, r) = do {
     b \<leftarrow> aget (run_bits r) (unat (drop_bit 3 prio AND 7));
     Some (if b = 0 then R_group tcb else R_done tcb, r) }"
| "remove_step prio (R_group tcb, r) = Some (R_group_store tcb (group_run_bits r), r)"
| "remove_step prio (R_group_store tcb g, r) =
     Some (R_done tcb, r\<lparr>group_run_bits := g AND NOT (shl1 (unat (drop_bit 3 prio AND 7)))\<rparr>)"
| "remove_step prio (R_done tcb, r) = Some (R_done tcb, r)"

primrec remove_steps :: "nat \<Rightarrow> u8 \<Rightarrow> remove_pc \<times> runq \<Rightarrow> (remove_pc \<times> runq) option" where
  "remove_steps 0 prio s = Some s"
| "remove_steps (Suc n) prio s = remove_step prio s \<bind> remove_steps n prio"

text \<open>An interrupt after \<open>i\<close> of the accesses that makes the task \<open>t\<close> of priority \<open>a\<close> ready.\<close>

definition remove_interrupted :: "nat \<Rightarrow> u8 \<Rightarrow> nat \<Rightarrow> u8 \<Rightarrow> runq \<Rightarrow> (remove_pc \<times> runq) option" where
  "remove_interrupted i prio t a r = do {
     (pc, r) \<leftarrow> remove_steps i prio (R_list, r);
     r \<leftarrow> runqueue_add (Some t) a r;
     remove_steps (7 - i) prio (pc, r) }"

subsection \<open>Without an interrupt\<close>

lemma remove_steps_numeral [simp]:
  "remove_steps (numeral n) prio s = remove_step prio s \<bind> remove_steps (pred_numeral n) prio"
  "remove_steps 1 prio s = remove_step prio s"
  by (simp add: numeral_eq_Suc) (cases "remove_step prio s"; simp)

lemma remove_in_seven:
  assumes "rq_wf r" "unat prio < 64"
  shows "remove_steps 7 prio (R_list, r) = map_option (\<lambda>(tcb, r'). (R_done tcb, r')) (runqueue_remove prio r)"
proof (cases "run_bits r ! (unat prio div 8) AND NOT (shl1 (unat prio mod 8)) = 0")
  case True
  then show ?thesis using assms by (simp add: runqueue_remove_eq rq_wf_lengths)
next
  case False
  then show ?thesis using assms by (simp add: runqueue_remove_eq rq_wf_lengths)
qed

text \<open>The bitmap follows from the list.\<close>

lemma rq_wf_unique:
  assumes "rq_wf q" "rq_wf q'" "run_list q = run_list q'"
  shows "q = q'"
proof -
  have "run_bits q ! y = run_bits q' ! y" if "y < 8" for y
    by (rule bit_word_eqI) (use that rq_wf_bit [OF assms(1)] rq_wf_bit [OF assms(2)] assms(3) in simp)
  then have b: "run_bits q = run_bits q'" using assms by (intro nth_equalityI) (simp_all add: rq_wf_lengths)
  have "group_run_bits q = group_run_bits q'"
    by (rule bit_word_eqI) (use rq_wf_group [OF assms(1)] rq_wf_group [OF assms(2)] b in simp)
  then show ?thesis using b assms(3) by simp
qed

text \<open>No other task of the row of priority \<open>p\<close> is ready; no task of the row is ready.\<close>

definition alone :: "nat \<Rightarrow> runq \<Rightarrow> bool" where
  "alone p r \<longleftrightarrow> (\<forall>n. n div 8 = p div 8 \<longrightarrow> n \<noteq> p \<longrightarrow> ready r n = None)"

definition row_empty :: "nat \<Rightarrow> runq \<Rightarrow> bool" where
  "row_empty p r \<longleftrightarrow> (\<forall>n. n div 8 = p div 8 \<longrightarrow> ready r n = None)"

text \<open>
  The windows: the byte of \<open>run_bits\<close> is loaded and not yet stored, or the byte was found to
  be zero and the group bit is not yet cleared.
\<close>

definition wakeup_lost :: "nat \<Rightarrow> nat \<Rightarrow> nat \<Rightarrow> runq \<Rightarrow> bool" where
  "wakeup_lost i p a r \<longleftrightarrow>
     (if a div 8 = p div 8 then i = 3 \<or> i \<in> {5, 6} \<and> alone p r
      else i = 6 \<and> alone p r \<and> row_empty a r)"

lemma row_zero:
  assumes "rq_wf r" "y < 8"
  shows "run_bits r ! y = 0 \<longleftrightarrow> (\<forall>n. n div 8 = y \<longrightarrow> ready r n = None)"
proof
  assume "run_bits r ! y = 0"
  then have "run_list r ! (8 * y + x) = None" if "x < 8" for x
    using rq_wf_bit [OF assms that] by simp
  then have "run_list r ! n = None" if "n div 8 = y" for n
    using that by (metis mod_less_divisor mult_div_mod_eq zero_less_numeral)
  then show "\<forall>n. n div 8 = y \<longrightarrow> ready r n = None" by (simp add: ready_def)
next
  assume none: "\<forall>n. n div 8 = y \<longrightarrow> ready r n = None"
  have "run_list r ! (8 * y + x) = None" if "x < 8" for x
  proof -
    have "(8 * y + x) div 8 = y" "8 * y + x < 64" using that assms(2) by simp_all
    then show ?thesis using none [rule_format, of "8 * y + x"] by (simp add: ready_def)
  qed
  then show "run_bits r ! y = 0"
    using rq_wf_bit [OF assms] by (intro bit_word_eqI) simp
qed

lemma alone_zero:
  assumes wf: "rq_wf r" and p: "p < 64"
  shows "run_bits r ! (p div 8) AND NOT (shl1 (p mod 8)) = 0 \<longleftrightarrow> alone p r"
proof -
  obtain r' where r': "runqueue_remove (of_nat p) r = Some (ready r p, r')" "rq_wf r'" "ready r' = (ready r)(p := None)"
    using rq.remove_law [OF wf, of p] p by auto
  have u: "unat (of_nat p :: u8) = p" using p by (simp add: unat_lt_of_nat_iff)
  have "run_bits r' ! (p div 8) = run_bits r ! (p div 8) AND NOT (shl1 (p mod 8))"
    using runqueue_remove_eq [OF wf, of "of_nat p"] r'(1) p wf unfolding u by (auto simp: rq_wf_lengths)
  then show ?thesis
    using row_zero [OF r'(2), of "p div 8"] p unfolding r'(3) alone_def by auto
qed

text \<open>The state after the removal and the wakeup.\<close>

lemma removed_and_added:
  assumes wf: "rq_wf r" and p: "p < 64" "a < 64" "a \<noteq> p"
    and q: "run_list q = (run_list r)[p := None, a := Some t]"
      "run_bits q = (run_bits r)[p div 8 := run_bits r ! (p div 8) AND NOT (shl1 (p mod 8)),
         a div 8 := (if a div 8 = p div 8 then run_bits r ! (p div 8) AND NOT (shl1 (p mod 8))
           else run_bits r ! (a div 8)) OR shl1 (a mod 8)]"
      "\<And>y. y < 8 \<Longrightarrow> bit (group_run_bits q) y \<longleftrightarrow> y = a div 8 \<or>
         bit (group_run_bits r) y \<and> (y = p div 8 \<longrightarrow> \<not> alone p r)"
  shows "rq_wf q"
proof -
  have place: "n = 8 * y + x \<longleftrightarrow> y = n div 8 \<and> x = n mod 8" if "x < 8" for n y x :: nat
    using that by auto
  have "bit (run_bits q ! y) x \<longleftrightarrow> run_list q ! (8 * y + x) \<noteq> None" if "y < 8" "x < 8" for x y
    using that wf p q(1,2) rq_wf_bit [OF wf that]
    by (auto simp: nth_list_update place row_column_eq rq_wf_lengths)
  moreover have "bit (group_run_bits q) y \<longleftrightarrow> run_bits q ! y \<noteq> 0" if "y < 8" for y
    using that wf p alone_zero [OF wf p(1)] rq_wf_group [OF wf that] unfolding q(2) q(3) [OF that]
    by (auto simp: nth_list_update rq_wf_lengths)
  moreover have "length (run_list q) = 64" "length (run_bits q) = 8" using q(1,2) wf by (simp_all add: rq_wf_lengths)
  ultimately show ?thesis by (simp add: rq_wf_def)
qed

lemma early_wakeup:
  assumes wf: "rq_wf r" and p: "unat p < 64" "unat a < 64" "unat a \<noteq> unat p" and i: "i \<le> 2"
  shows "\<exists>q. remove_interrupted i p t a r = Some (R_done (ready r (unat p)), q) \<and> rq_wf q \<and>
    run_list q = (run_list r)[unat p := None, unat a := Some t]"
proof -
  obtain r1 where r1: "runqueue_add (Some t) a r = Some r1" "rq_wf r1" "ready r1 = (ready r)(unat a \<mapsto> t)"
    using runqueue_add_wf [OF wf p(2), of t] by blast
  obtain q where q: "runqueue_remove p r1 = Some (ready r1 (unat p), q)" "rq_wf q"
    using runqueue_remove_wf [OF r1(2) p(1)] by blast
  have l: "run_list r1 = (run_list r)[unat a := Some t]" using runqueue_add_eq [OF wf p(2), of "Some t"] r1(1) by auto
  have "run_list q = (run_list r1)[unat p := None]" using runqueue_remove_eq [OF r1(2) p(1)] q(1) by auto
  then have "run_list q = (run_list r)[unat p := None, unat a := Some t]"
    unfolding l using p(3) by (simp add: list_update_swap)
  moreover have "remove_steps 7 p (R_list, r1) = Some (R_done (ready r (unat p)), q)"
    using remove_in_seven [OF r1(2) p(1)] q(1) r1(3) p(3) by simp
  moreover have "remove_interrupted i p t a r = remove_steps 7 p (R_list, r1)"
  proof -
    consider "i = 0" | "i = 1" | "i = 2" using i by linarith
    then show ?thesis
    proof cases
      case 1
      then show ?thesis by (simp add: remove_interrupted_def r1(1))
    next
      case 2
      show ?thesis unfolding 2
        using wf r1 p l by (simp add: remove_interrupted_def rq_wf_lengths)
    next
      case 3
      have "runqueue_add (Some t) a (r\<lparr>run_list := (run_list r)[unat p := None]\<rparr>) =
          Some (r1\<lparr>run_list := (run_list r1)[unat p := None]\<rparr>)"
        using r1(1) wf p by (auto simp: runqueue_add_def rq_wf_lengths Let_def list_update_swap)
      then show ?thesis unfolding 3
        using wf r1(1,2) p l by (simp add: remove_interrupted_def rq_wf_lengths)
    qed
  qed
  ultimately show ?thesis using q(2) by auto
qed

lemma wakeup_kept:
  assumes wf: "rq_wf r" and p: "unat p < 64" "unat a < 64" "unat a \<noteq> unat p" "ready r (unat p) \<noteq> None" "ready r (unat a) = None"
    and i: "i \<le> 7" "\<not> wakeup_lost i (unat p) (unat a) r"
  shows "\<exists>q. remove_interrupted i p t a r = Some (R_done (ready r (unat p)), q) \<and> rq_wf q \<and>
    run_list q = (run_list r)[unat p := None, unat a := Some t]"
proof -
  let ?y = "unat p div 8" and ?b = "run_bits r ! (unat p div 8)" and ?x = "unat p mod 8"
  note step = remove_interrupted_def runqueue_add_def rq_wf_lengths wakeup_lost_def
  have rp: "run_list r ! unat p = ready r (unat p)" using p(1) by (simp add: ready_def)
  note added = removed_and_added [OF wf p(1-3)]
  note zero = alone_zero [OF wf p(1)]
  have row: "bit (group_run_bits r) (unat a div 8) \<longleftrightarrow> \<not> row_empty (unat a) r"
    using rq_wf_group [OF wf, of "unat a div 8"] row_zero [OF wf, of "unat a div 8"] p(2) by (simp add: row_empty_def)
  consider "i \<le> 2" | "i = 3" | "i = 4" | "i = 5" | "i = 6" | "i = 7" using i(1) by linarith
  then show ?thesis
  proof cases
    case 1
    then show ?thesis by (rule early_wakeup [OF wf p(1-3)])
  next
    case 2
    then have row: "unat a div 8 \<noteq> ?y" using i(2) by (simp add: wakeup_lost_def split: if_splits)
    show ?thesis unfolding 2 using wf p row
      by (cases "alone (unat p) r"; simp add: step rp zero; intro added; auto simp: list_update_swap)
  next
    case 3
    show ?thesis unfolding 3 using wf p
      by (cases "alone (unat p) r"; cases "unat a div 8 = ?y"; simp add: step rp zero; intro added; auto simp: list_update_swap)
  next
    case 4
    show ?thesis unfolding 4 using wf p i(2) [unfolded 4]
      by (cases "alone (unat p) r"; cases "unat a div 8 = ?y"; simp add: step rp zero; intro added; auto simp: list_update_swap)
  next
    case 5
    show ?thesis unfolding 5 using wf p i(2) [unfolded 5]
      by (cases "alone (unat p) r"; cases "unat a div 8 = ?y"; simp add: step rp zero; intro added; auto simp: list_update_swap row wakeup_lost_def)
  next
    case 6
    show ?thesis unfolding 6 using wf p i(2) [unfolded 6]
      by (cases "alone (unat p) r"; cases "unat a div 8 = ?y"; simp add: step rp zero; intro added; auto simp: list_update_swap)
  qed
qed

text \<open>What \<open>highest_prio\<close> returns depends on the rows with a group bit only.\<close>

lemma highest_prio_cong:
  assumes len: "length (run_bits q) = 8" "length (run_bits q') = 8"
    and g: "\<And>y. y < 8 \<Longrightarrow> bit (group_run_bits q) y \<longleftrightarrow> bit (group_run_bits q') y"
    and b: "\<And>y. y < 8 \<Longrightarrow> bit (group_run_bits q) y \<Longrightarrow> run_bits q ! y = run_bits q' ! y"
    and some: "group_run_bits q' \<noteq> 0"
  shows "highest_prio q = highest_prio q'"
proof -
  have eq: "group_run_bits q = group_run_bits q'" by (rule bit_word_eqI) (use g in simp)
  note low = prio_unmap_lowest [OF some]
  have "run_bits q ! unat (prio_unmap_table ! unat (group_run_bits q')) = run_bits q' ! unat (prio_unmap_table ! unat (group_run_bits q'))"
    using b lowest_setD(1,2) [OF low] unfolding eq by blast
  then show ?thesis using lowest_setD(1) [OF low] len by (simp add: highest_prio_def eq)
qed

lemma wakeup_missed:
  assumes wf: "rq_wf r" and p: "unat p < 64" "unat a < 64" "unat a \<noteq> unat p" "ready r (unat p) \<noteq> None" "ready r (unat a) = None"
    and lost: "wakeup_lost i (unat p) (unat a) r" and other: "dom (ready r) - {unat p} \<noteq> {}"
  shows "\<exists>q h. remove_interrupted i p t a r = Some (R_done (ready r (unat p)), q) \<and>
    ready q = (ready r)(unat p := None, unat a \<mapsto> t) \<and>
    highest_prio q = Some h \<and> unat h = Min (dom (ready r) - {unat p})"
proof -
  let ?y = "unat p div 8"
  note step = remove_interrupted_def runqueue_add_def rq_wf_lengths wakeup_lost_def
  have rp: "run_list r ! unat p = ready r (unat p)" using p(1) by (simp add: ready_def)
  note zero = alone_zero [OF wf p(1)]
  have row: "bit (group_run_bits r) (unat a div 8) \<longleftrightarrow> \<not> row_empty (unat a) r"
    using rq_wf_group [OF wf, of "unat a div 8"] row_zero [OF wf, of "unat a div 8"] p(2) by (simp add: row_empty_def)
  obtain r' where r': "runqueue_remove p r = Some (ready r (unat p), r')" "rq_wf r'" "ready r' = (ready r)(unat p := None)"
    using runqueue_remove_wf [OF wf p(1)] by blast
  have dom: "dom (ready r') = dom (ready r) - {unat p}" using r'(3) by auto
  obtain h where h: "highest_prio r' = Some h" "unat h = Min (dom (ready r) - {unat p})"
    using rq.top_Min [OF r'(2)] other unfolding dom by auto
  have some: "group_run_bits r' \<noteq> 0"
  proof -
    from other have "dom (ready r') \<noteq> {}" unfolding dom .
    then obtain n where n: "ready r' n \<noteq> None" by blast
    then have "n div 8 < 8" by (auto simp: ready_def split: if_splits)
    then have "run_bits r' ! (n div 8) \<noteq> 0" using row_zero [OF r'(2), of "n div 8"] n by auto
    then have "bit (group_run_bits r') (n div 8)" using rq_wf_group [OF r'(2) \<open>n div 8 < 8\<close>] by simp
    then show ?thesis by auto
  qed
  have e: "r' = r\<lparr>run_list := (run_list r)[unat p := None],
      run_bits := (run_bits r)[?y := run_bits r ! ?y AND NOT (shl1 (unat p mod 8))],
      group_run_bits := (if alone (unat p) r then group_run_bits r AND NOT (shl1 ?y) else group_run_bits r)\<rparr>"
    using runqueue_remove_eq [OF wf p(1)] r'(1) zero by simp
  have "\<exists>q. remove_interrupted i p t a r = Some (R_done (ready r (unat p)), q) \<and>
      run_list q = (run_list r)[unat p := None, unat a := Some t] \<and> length (run_bits q) = 8 \<and>
      (\<forall>y<8. bit (group_run_bits q) y \<longleftrightarrow> bit (group_run_bits r') y) \<and>
      (\<forall>y<8. bit (group_run_bits q) y \<longrightarrow> run_bits q ! y = run_bits r' ! y)"
  proof -
    have same_row: "\<not> alone (unat p) r \<Longrightarrow> bit (group_run_bits r) ?y"
      using rq_wf_group [OF wf, of ?y] row_zero [OF wf, of ?y] p(1) by (auto simp: alone_def)
    consider "i = 3" "unat a div 8 = ?y" | "i = 5" "unat a div 8 = ?y" "alone (unat p) r"
      | "i = 6" "unat a div 8 = ?y" "alone (unat p) r" | "i = 6" "unat a div 8 \<noteq> ?y" "alone (unat p) r" "row_empty (unat a) r"
      using lost by (auto simp: wakeup_lost_def split: if_splits)
    then show ?thesis
    proof cases
      case 1
      then show ?thesis using wf p same_row
        by (cases "alone (unat p) r"; simp add: step rp zero e; auto)
    next
      case 2
      then show ?thesis using wf p by (simp add: step rp zero e; auto)
    next
      case 3
      then show ?thesis using wf p by (simp add: step rp zero e; auto)
    next
      case 4
      then show ?thesis using wf p row by (simp add: step rp zero e; auto simp: nth_list_update rq_wf_lengths)
    qed
  qed
  then obtain q where q: "remove_interrupted i p t a r = Some (R_done (ready r (unat p)), q)"
      "run_list q = (run_list r)[unat p := None, unat a := Some t]" "length (run_bits q) = 8"
      "\<And>y. y < 8 \<Longrightarrow> bit (group_run_bits q) y \<longleftrightarrow> bit (group_run_bits r') y"
      "\<And>y. y < 8 \<Longrightarrow> bit (group_run_bits q) y \<Longrightarrow> run_bits q ! y = run_bits r' ! y" by blast
  have "highest_prio q = highest_prio r'"
    by (rule highest_prio_cong) (use q r'(2) some in \<open>simp_all add: rq_wf_lengths\<close>)
  moreover have "ready q = (ready r)(unat p := None, unat a \<mapsto> t)"
    using p q(2) wf by (auto simp: ready_def fun_eq_iff nth_list_update rq_wf_lengths)
  ultimately show ?thesis using q(1) h by auto
qed

section \<open>Waiting for an event\<close>

text \<open>
  \<open>dev_wait\<close> has removed the calling task from the run queue and has not yet stored what
  \<open>runqueue_remove\<close> returned in the sleep list of the device, when the timer interrupt comes.
\<close>

definition wait_interrupted :: "(u32 \<Rightarrow> u32) \<Rightarrow> kernel \<Rightarrow> kernel option" where
  "wait_interrupted rd k = do {
     (t, k) \<leftarrow> runqueue_remove_cur k;
     (b, k) \<leftarrow> C_IRQ_Handler rd ([], k);
     Some k }"

lemma remove_cur_inv:
  assumes wf: "kernel_wf k" and c: "cur_tcb k = Some c" "c \<noteq> IDLE_PRIO"
  shows "\<exists>k'. runqueue_remove_cur k = Some (Some c, k') \<and> has_inv k' \<and>
    abs_state k' = (abs_state k)\<lparr>runnable := runnable (abs_state k) - {c}\<rparr> \<and>
    matching t k' = matching t k \<and> system_time k' = system_time k"
proof -
  obtain Q where inv: "kernel_inv k Q" and r: "ready (kq k) c = Some c"
    using wf c by (auto simp: kernel_wf_def)
  have c64: "c < 64" and prio: "native_prio (system_tcb k ! c) = of_nat c" using inv_readyD(2,3) [OF inv r] .
  have rq: "rq_wf (kq k)" using kernel_invD(2) [OF inv] by (simp add: ready_ok_def)
  obtain q where q: "runqueue_remove (of_nat c) (kq k) = Some (Some c, q)" "rq_wf q" "ready q = (ready (kq k))(c := None)"
    using rq.remove_law [OF rq, of c] c64 r by auto
  let ?k = "k\<lparr>kq := q\<rparr>"
  have p: "ptr ?k = ptr k" by (rule ext, case_tac x) (simp_all add: ptr.simps)
  have inv': "kernel_inv ?k Q"
    using inv q c by (auto simp: kernel_inv_def sized_def ready_ok_def sleepers_ok_def p)
  have "queue ?k = queue k" by (rule ext) (simp add: queue_def p)
  moreover have "dom (ready q) = dom (ready (kq k)) - {c}" unfolding q(3) by simp
  ultimately have "abs_state ?k = (abs_state k)\<lparr>runnable := runnable (abs_state k) - {c}\<rparr>"
    by (simp add: abs_state_def cong: if_cong)
  moreover have "runqueue_remove_cur k = Some (Some c, ?k)"
    using c(1) c64 prio q(1) kernel_invD(1) [OF inv] by (simp add: runqueue_remove_cur_def get_cur_prio_def sized_def)
  ultimately show ?thesis using inv' by (auto simp: has_inv_def matching_def)
qed

text \<open>The interrupt makes a task ready: the processor goes on with that or another one.\<close>

lemma wait_interrupted_wakes:
  assumes wf: "kernel_wf k" and c: "cur_tcb k = Some c" "c \<noteq> IDLE_PRIO"
    and some: "d \<in> matching (system_time k + 1) k" "waiting (abs_state k) (Dev_head d) \<noteq> []"
  shows "\<exists>k'. wait_interrupted rd k = Some k' \<and> kernel_wf k' \<and>
    abs_state k' = spec_signal (matching (system_time k + 1) k) ((abs_state k)\<lparr>runnable := runnable (abs_state k) - {c}\<rparr>)"
proof -
  obtain k1 where k1: "runqueue_remove_cur k = Some (Some c, k1)" "has_inv k1"
      "abs_state k1 = (abs_state k)\<lparr>runnable := runnable (abs_state k) - {c}\<rparr>"
      "matching (system_time k + 1) k1 = matching (system_time k + 1) k" "system_time k1 = system_time k"
    using remove_cur_inv [OF wf c] by blast
  let ?k = "k1\<lparr>system_time := system_time k1 + 1\<rparr>"
  have "ptr ?k = ptr k1" by (rule ext, case_tac x) (simp_all add: ptr.simps)
  then have "has_inv ?k" using k1(2) by (simp add: has_inv_def kernel_inv_def sized_def)
  from dev_update_wakes [OF this, of d "system_time k + 1"] some
  show ?thesis using k1 by (auto simp: wait_interrupted_def C_IRQ_Handler_def Let_def set_system_time)
qed

section \<open>A task that is on no list\<close>

lemma spec_call_population:
  assumes "spec_call a a'" "current a \<in> runnable a"
  shows "population a' \<subseteq> population a"
  using assms(1)
proof (cases rule: spec_call.cases)
  case (1 m out)
  then show ?thesis using population_lock assms(2) by blast
next
  case (2 m out)
  then show ?thesis using population_unlock by blast
next
  case (3 out)
  then show ?thesis using population_create by blast
next
  case (4 d out)
  then show ?thesis using population_event_wait assms(2) by blast
qed simp

lemma spec_call_owner:
  assumes "spec_call a a'" "owner a m = Some c" "current a \<noteq> c"
  shows "owner a' m = Some c"
  using assms(1)
proof (cases rule: spec_call.cases)
  case (1 n out)
  then show ?thesis using assms(2,3)
    by (auto simp: spec_lock_def spec_dispatch_def spec_sleep_def split: if_splits option.splits)
next
  case (2 n out)
  then show ?thesis using assms(2,3)
    by (auto simp: spec_unlock_def spec_wake_def split: if_splits list.splits)
next
  case (3 out)
  then show ?thesis using assms(2) by (auto simp: spec_create_def split: list.splits)
next
  case (4 d out)
  then show ?thesis using assms(2)
    by (auto simp: spec_event_wait_def spec_dispatch_def spec_sleep_def split: if_splits)
qed (use assms(2) in simp)

text \<open>It never runs again, and the mutexes it holds stay locked.\<close>

lemma absent_for_ever:
  assumes inv: "machine_inv s" and absent: "c \<notin> population (abs_state (mk s))"
    and run: "reachable s s'"
  shows "machine_inv s' \<and> c \<notin> population (abs_state (mk s')) \<and> cur_tcb (mk s') \<noteq> Some c \<and>
    (\<forall>m. owner (abs_state (mk s)) m = Some c \<longrightarrow> owner (abs_state (mk s')) m = Some c)"
  using run
proof (induction rule: reachable.induct)
  case start
  have "current (abs_state (mk s)) \<in> population (abs_state (mk s))"
    using wf_spec_ok [of "mk s"] inv by (simp add: machine_inv_def spec_ok_def population_def)
  then show ?case using inv absent current_abs by auto
next
  case (step s1 s2)
  then have inv1: "machine_inv s1" by blast
  have inv2: "machine_inv s2" by (rule mstep_inv [OF inv1 step.hyps(2)])
  have cur: "current (abs_state (mk s)) \<in> runnable (abs_state (mk s))" if "machine_inv s" for s
    using wf_spec_ok [of "mk s"] that by (simp add: machine_inv_def spec_ok_def)
  have nc: "current (abs_state (mk s1)) \<noteq> c" using cur [OF inv1] step.IH by (auto simp: population_def)
  have "population (abs_state (mk s2)) \<subseteq> population (abs_state (mk s1)) \<and>
      (\<forall>m. owner (abs_state (mk s1)) m = Some c \<longrightarrow> owner (abs_state (mk s2)) m = Some c)"
  proof (rule mstep_cases [OF inv1 step.hyps(2)])
    assume call: "spec_call (abs_state (mk s1)) (abs_state (mk s2))"
    show ?thesis using spec_call_population [OF call cur [OF inv1]] spec_call_owner [OF call _ nc] by blast
  next
    fix rd b b' assume tick: "C_IRQ_Handler rd (b, mk s1) = Some (b', mk s2)"
    have "kernel_wf (mk s1)" using inv1 by (simp add: machine_inv_def)
    from C_IRQ_Handler_wf [OF this, of rd b] tick
    obtain D where "abs_state (mk s2) = spec_signal D (abs_state (mk s1))" by auto
    then show ?thesis using population_signal spec_signal_frame(1) by simp
  qed
  then have abs2: "c \<notin> population (abs_state (mk s2))"
      "\<forall>m. owner (abs_state (mk s)) m = Some c \<longrightarrow> owner (abs_state (mk s2)) m = Some c"
    using step.IH by blast+
  moreover have "cur_tcb (mk s2) \<noteq> Some c"
    using cur [OF inv2] abs2(1) current_abs [of "mk s2" c] by (auto simp: population_def)
  ultimately show ?case using inv2 by blast
qed

lemma wait_interrupted_absent:
  assumes inv: "machine_inv s" and c: "cur_tcb (mk s) = Some c" "c \<noteq> IDLE_PRIO"
    and some: "d \<in> matching (system_time (mk s) + 1) (mk s)" "waiting (abs_state (mk s)) (Dev_head d) \<noteq> []"
  shows "\<exists>k'. wait_interrupted rd (mk s) = Some k' \<and> machine_inv (s\<lparr>mk := k'\<rparr>) \<and>
    c \<notin> population (abs_state k') \<and> owner (abs_state k') = owner (abs_state (mk s))"
proof -
  let ?a = "abs_state (mk s)" and ?D = "matching (system_time (mk s) + 1) (mk s)"
  let ?a1 = "?a\<lparr>runnable := runnable ?a - {c}\<rparr>"
  have wf: "kernel_wf (mk s)" and ok: "conts_ok ?a (conts s) (holds s)" using inv by (simp_all add: machine_inv_def)
  obtain k' where k': "wait_interrupted rd (mk s) = Some k'" "kernel_wf k'" "abs_state k' = spec_signal ?D ?a1"
    using wait_interrupted_wakes [OF wf c some] by blast
  have "conts_ok ?a1 (conts s) (holds s)" by (rule conts_ok_mono [OF ok]) simp_all
  then have "conts_ok (abs_state k') (conts s) (holds s)"
    unfolding k'(3) by (rule conts_ok_mono) (simp_all only: spec_signal_frame)
  then have inv': "machine_inv (s\<lparr>mk := k'\<rparr>)" using k'(2) by (simp add: machine_inv_def)
  have "c \<notin> set (waiting ?a l)" for l
    using spec_okD(1) [OF wf_spec_ok [OF wf]] current_abs [OF c(1)] by blast
  then have "c \<notin> population ?a1" by (simp add: population_def)
  then have "c \<notin> population (abs_state k')" using population_signal unfolding k'(3) by blast
  moreover have "owner (abs_state k') = owner ?a" unfolding k'(3) by (simp add: spec_signal_frame)
  ultimately show ?thesis using k'(1) inv' by blast
qed

section \<open>Creating a mutex\<close>

text \<open>The next access: the test of an element, the store to it, or none.\<close>

datatype create_pc = M_test nat | M_take nat | M_return outcome

fun create_step :: "create_pc \<times> kernel \<Rightarrow> (create_pc \<times> kernel) option" where
  "create_step (M_test index, k) =
     (if index < OS_NUM_MUTEX then do {
        x \<leftarrow> aget (gtMutex k) index;
        Some (if bAvailable x then M_take index else M_test (Suc index), k) }
      else Some (M_return (Return (- ENOMEM)), k))"
| "create_step (M_take index, k) = do {
     x \<leftarrow> aget (gtMutex k) index;
     ms \<leftarrow> aset (gtMutex k) index (x\<lparr>bAvailable := False\<rparr>);
     Some (M_return (Return (of_nat index)), k\<lparr>gtMutex := ms\<rparr>) }"
| "create_step (M_return out, k) = Some (M_return out, k)"

primrec create_steps :: "nat \<Rightarrow> create_pc \<times> kernel \<Rightarrow> (create_pc \<times> kernel) option" where
  "create_steps 0 s = Some s"
| "create_steps (Suc n) s = create_step s \<bind> create_steps n"

text \<open>
  A call that is interrupted after \<open>i\<close> of its 33 accesses by a task that makes the same call. The
  results are those of the interrupted and of the interrupting call.
\<close>

definition create_interrupted :: "nat \<Rightarrow> kernel \<Rightarrow> (create_pc \<times> outcome \<times> kernel) option" where
  "create_interrupted i k = do {
     (pc, k) \<leftarrow> create_steps i (M_test 0, k);
     (out, k) \<leftarrow> mutex_create_syscall k;
     (pc, k) \<leftarrow> create_steps (33 - i) (pc, k);
     Some (pc, out, k) }"

lemma create_steps_add: "create_steps (m + n) s = create_steps m s \<bind> create_steps n"
proof (induction m arbitrary: s)
  case (Suc m)
  then show ?case by (cases "create_step s") simp_all
qed simp

lemma create_steps_return: "create_steps n (M_return out, k) = Some (M_return out, k)"
  by (induction n) simp_all

lemma create_steps_loop:
  assumes "length (gtMutex k) = 32"
  shows "i \<le> 32 \<Longrightarrow> create_steps (33 - i) (M_test i, k) =
    map_option (\<lambda>(out, k). (M_return out, k)) (mutex_create_loop i k)"
proof (induction "32 - i" arbitrary: i)
  case 0
  then show ?case using assms by (simp add: mutex_create_loop.simps)
next
  case (Suc d)
  then have n: "33 - i = Suc (Suc (31 - i))" "33 - Suc i = Suc (31 - i)" by simp_all
  have "create_steps (Suc (31 - i)) (M_test (Suc i), k) =
      map_option (\<lambda>(out, k). (M_return out, k)) (mutex_create_loop (Suc i) k)"
    using Suc.hyps(1) [of "Suc i"] Suc.hyps(2) n(2) by simp
  moreover have "i < 32" using Suc.hyps(2) by simp
  ultimately show ?case
    unfolding n using assms
    by (subst mutex_create_loop.simps) (simp add: create_steps_return)
qed

lemma create_loop_skip:
  assumes "length (gtMutex k) = 32" "i \<le> m" "m < 32" "\<forall>j<m. \<not> bAvailable (gtMutex k ! j)"
  shows "mutex_create_loop i k = mutex_create_loop m k"
  using assms(2)
proof (induction "m - i" arbitrary: i)
  case (Suc d)
  then have "mutex_create_loop (Suc i) k = mutex_create_loop m k" by simp
  moreover have "i < m" using Suc.hyps(2) by simp
  ultimately show ?case using assms by (subst mutex_create_loop.simps) simp
qed simp

lemma create_in_steps:
  assumes "length (gtMutex k) = 32"
  shows "create_steps 33 (M_test 0, k) = map_option (\<lambda>(out, k). (M_return out, k)) (mutex_create_syscall k)"
  using create_steps_loop [OF assms, of 0] by (simp add: mutex_create_syscall_def)

text \<open>
  The calls get the same mutex exactly if the interrupt comes between the test of the first free
  element and the store to it. In all other cases the one call precedes the other.
\<close>

lemma create_interrupted_eq:
  assumes len: "length (gtMutex k) = 32" and m: "m < 32" "bAvailable (gtMutex k ! m)" "\<forall>j<m. \<not> bAvailable (gtMutex k ! j)"
    and i: "i \<le> 33"
    and first: "mutex_create_syscall k = Some (r1, k1)" and second: "mutex_create_syscall k1 = Some (r2, k2)"
  shows "create_interrupted i k = Some
    (if i \<le> m then (M_return r2, r1, k2) else if i = Suc m then (M_return r1, r1, k1) else (M_return r1, r2, k2))"
proof -
  have tests: "create_steps i (M_test 0, k) = Some (M_test i, k)" if "i \<le> m" for i
    using that
  proof (induction i)
    case (Suc i)
    then show ?case using create_steps_add [of i 1 "(M_test 0, k)"] len m by simp
  qed simp
  have loop: "mutex_create_loop m k = Some (Return (of_nat m), k\<lparr>gtMutex := (gtMutex k)[m := (gtMutex k ! m)\<lparr>bAvailable := False\<rparr>]\<rparr>)"
    using len m by (subst mutex_create_loop.simps) simp
  then have r1: "r1 = Return (of_nat m)" "k1 = k\<lparr>gtMutex := (gtMutex k)[m := (gtMutex k ! m)\<lparr>bAvailable := False\<rparr>]\<rparr>"
    using first create_loop_skip [OF len _ m(1,3), of 0] by (simp_all add: mutex_create_syscall_def)
  have len1: "length (gtMutex k1) = 32" and m1: "\<forall>j<m. \<not> bAvailable (gtMutex k1 ! j)"
    using len m r1(2) by simp_all
  consider "i \<le> m" | "i = Suc m" | n where "i = Suc m + Suc n" using less_iff_Suc_add [of "Suc m" i] by force
  then show ?thesis
  proof cases
    case 1
    have "mutex_create_loop i k1 = Some (r2, k2)"
      using second create_loop_skip [OF len1 _ m(1) m1, of 0] create_loop_skip [OF len1 1 m(1) m1]
      by (simp add: mutex_create_syscall_def)
    then show ?thesis
      using 1 m(1) first tests [OF 1] create_steps_loop [OF len1, of i] by (simp add: create_interrupted_def)
  next
    case 2
    have start: "create_steps i (M_test 0, k) = Some (M_take m, k)"
      using create_steps_add [of m 1 "(M_test 0, k)"] tests [of m] len m 2 by simp
    obtain n where n: "33 - i = Suc n" using m(1) 2 by (cases "33 - i") simp_all
    have "create_step (M_take m, k1) = Some (M_return r1, k1)"
      using len m r1 by simp
    then have "create_steps (33 - i) (M_take m, k1) = Some (M_return r1, k1)"
      unfolding n by (simp add: create_steps_return)
    then have "create_interrupted i k = Some (M_return r1, r1, k1)"
      by (simp add: create_interrupted_def start first)
    then show ?thesis using 2 by simp
  next
    case (3 n)
    have "create_steps i (M_test 0, k) = Some (M_return r1, k1)"
      using create_steps_add [of m "Suc (Suc n)" "(M_test 0, k)"] tests [of m] len m r1 3 by (simp add: create_steps_return)
    then show ?thesis using 3 second by (simp add: create_interrupted_def create_steps_return)
  qed
qed

section \<open>The dispatcher\<close>

text \<open>
  The dispatcher has stored the next task in \<open>cur_tcb\<close> and has not yet switched to it, when the
  timer interrupt comes; \<open>rs\<close> are the registers in the interrupt handler. If the handler dispatches
  the same task, it returns to the dispatcher, which goes on with its own registers.
\<close>

definition dispatch_interrupted :: "(u32 \<Rightarrow> u32) \<Rightarrow> sched_context \<Rightarrow> kernel \<Rightarrow> kernel option" where
  "dispatch_interrupted rd rs k = do {
     temp_tcb \<leftarrow> cur_tcb k;
     h \<leftarrow> highest_prio (kq k);
     let highest_tcb = unat h;
     (b, k') \<leftarrow> C_IRQ_Handler rd ([], k\<lparr>cur_tcb := Some highest_tcb, regs := rs\<rparr>);
     if cur_tcb k' = Some highest_tcb then ctx_switch_full highest_tcb temp_tcb (k'\<lparr>regs := regs k\<rparr>)
     else Some k' }"

lemma set_current:
  assumes "kernel_inv k Q" "h < 64"
  shows "kernel_inv (k\<lparr>cur_tcb := Some h, regs := rs, system_time := t\<rparr>) Q"
    "lists_of (k\<lparr>cur_tcb := Some h, regs := rs, system_time := t\<rparr>) = lists_of k"
    "matching m (k\<lparr>cur_tcb := Some h, regs := rs, system_time := t\<rparr>) = matching m k"
proof -
  let ?k = "k\<lparr>cur_tcb := Some h, regs := rs, system_time := t\<rparr>"
  have p: "ptr ?k = ptr k" by (rule ext, case_tac x) (simp_all add: ptr.simps)
  show "kernel_inv ?k Q" using assms by (simp add: kernel_inv_def sized_def p)
  show "lists_of ?k = lists_of k" by (rule ext) (simp add: lists_of_def queue_def p)
  show "matching m ?k = matching m k" by (simp add: matching_def)
qed

text \<open>
  An interrupt right before the dispatcher starts, after the caller went to sleep. If the handler
  switches to another task, the dispatcher is reached when the caller runs again.
\<close>

definition interrupt_then_dispatch :: "(u32 \<Rightarrow> u32) \<Rightarrow> kernel \<Rightarrow> kernel option" where
  "interrupt_then_dispatch rd k = do {
     (b, k') \<leftarrow> C_IRQ_Handler rd ([], k);
     if cur_tcb k' = cur_tcb k then dispatch_save k' else Some k' }"

lemma spec_dispatch_idem [simp]: "spec_dispatch (spec_dispatch a) = spec_dispatch a"
  by (simp add: spec_dispatch_def)

lemma spec_dispatch_signal: "spec_dispatch (spec_signal D a) = spec_signal D (spec_dispatch a)"
  by (cases a) (simp add: spec_signal_def Let_def spec_dispatch_def cong: if_cong)

lemma interrupt_then_dispatch_eq:
  assumes hi: "has_inv k"
  shows "\<exists>k'. interrupt_then_dispatch rd k = Some k' \<and> kernel_wf k' \<and>
    abs_state k' = spec_signal (matching (system_time k + 1) k) (spec_dispatch (abs_state k))"
proof -
  let ?k = "k\<lparr>system_time := system_time k + 1\<rparr>" and ?D = "matching (system_time k + 1) k"
  have "ptr ?k = ptr k" by (rule ext, case_tac x) (simp_all add: ptr.simps)
  then have hi': "has_inv ?k" using hi by (simp add: has_inv_def kernel_inv_def sized_def)
  obtain flag k1 where loop: "dev_update (system_time k + 1) ?k = (if flag then dispatch_save k1 else Some k1)"
      and inv: "update_loop_inv (system_time k + 1) ?k 63 (flag, k1)"
    using dev_update_loop [OF hi'] .
  note k1 = update_loop_result [OF inv, unfolded set_system_time]
  obtain Q where Q: "kernel_inv k1 Q" using k1(1) by (auto simp: has_inv_def)
  obtain k2 where k2: "dispatch_save k1 = Some k2" "kernel_wf k2" "abs_state k2 = spec_dispatch (abs_state k1)"
    using inv_dispatch [OF Q] by blast
  show ?thesis
  proof (cases flag)
    case True
    obtain Q2 where Q2: "kernel_inv k2 Q2" using k2(2) by (auto simp: kernel_wf_def)
    obtain k3 where k3: "dispatch_save k2 = Some k3" "kernel_wf k3" "abs_state k3 = spec_dispatch (abs_state k2)"
      using inv_dispatch [OF Q2] by blast
    have a2: "abs_state k2 = spec_signal ?D (spec_dispatch (abs_state k))"
      using k1(8) k2(3) True by (simp flip: spec_dispatch_signal)
    then have "abs_state k3 = spec_signal ?D (spec_dispatch (abs_state k))"
      unfolding k3(3) a2 by (simp add: spec_dispatch_signal)
    then show ?thesis
      using a2 k2(1,2) k3(1,2) loop True
      by (cases "cur_tcb k2 = cur_tcb k") (simp_all add: interrupt_then_dispatch_def C_IRQ_Handler_def Let_def)
  next
    case False
    then have "abs_state k2 = spec_signal ?D (spec_dispatch (abs_state k))"
      using k1(8) k2(3) by (simp flip: spec_dispatch_signal)
    then show ?thesis
      using k1(2) k2(1,2) loop False by (simp add: interrupt_then_dispatch_def C_IRQ_Handler_def Let_def)
  qed
qed

text \<open>If the interrupt wakes anybody, the registers of the next task are lost.\<close>

lemma dispatch_interrupted_eq:
  assumes wf: "kernel_wf k0" and c: "cur_tcb k0 = Some c" "c \<noteq> IDLE_PRIO" and l: "l < NUM_DEVICES"
    and sleep: "sleep_enqueue (Dev_head l) (Dev_head l) k0 = Some k"
    and some: "d \<in> matching (system_time k + 1) k" "waiting (abs_state k) (Dev_head d) \<noteq> []"
  shows "\<exists>h k1 k2. h \<noteq> c \<and> dispatch_sleep k = Some k1 \<and> cur_tcb k1 = Some h \<and>
    regs k1 = tcb_context (system_tcb k ! h) \<and>
    dispatch_interrupted rd rs k = Some k2 \<and> tcb_context (system_tcb k2 ! h) = rs \<and>
    (cur_tcb k2 = Some h \<longrightarrow> regs k2 = rs)"
proof -
  obtain Q where inv0: "kernel_inv k0 Q" and r: "ready (kq k0) c = Some c"
    using wf c by (auto simp: kernel_wf_def)
  obtain Q' where inv: "kernel_inv k Q'" and k: "ready (kq k) = (ready (kq k0))(c := None)" "cur_tcb k = Some c"
    using inv_sleep [OF inv0 c(1) r, of "Dev_head l"] c l sleep by (auto simp: same_but_lists_def)
  define h where "h = Min (dom (ready (kq k)))"
  have h: "h < 64" "h \<noteq> c" using inv_Min [OF inv] k(1) by (auto simp: h_def split: if_splits)
  obtain p where p: "highest_prio (kq k) = Some p" "unat p = h" using highest_prio_Min [OF inv] by (auto simp: h_def)
  obtain k1 where k1: "dispatch_sleep k = Some k1" "cur_tcb k1 = Some h" "regs k1 = tcb_context (system_tcb k ! h)"
    using dispatch_save_eq [OF inv k(2)] h(2) by (simp add: dispatch_sleep_eq flip: h_def)
  let ?k = "k\<lparr>cur_tcb := Some h, regs := rs, system_time := system_time k + 1\<rparr>"
  note cur = set_current [OF inv h(1), where rs = rs and t = "system_time k + 1"]
  have "has_inv ?k" using cur(1) by (auto simp: has_inv_def)
  moreover have "d \<in> matching (system_time k + 1) ?k" using some(1) cur(3) by simp
  moreover have "waiting (abs_state ?k) (Dev_head d) \<noteq> []" using some(2) cur(2) by (simp add: lists_of_abs)
  ultimately obtain k2 where k2: "dev_update (system_time k + 1) ?k = Some k2" "kernel_wf k2"
      "tcb_context (system_tcb k2 ! h) = rs" "cur_tcb k2 = Some h \<longrightarrow> regs k2 = rs"
    using dev_update_wakes [of ?k d "system_time k + 1"] by auto
  have irq: "C_IRQ_Handler rd ([], k\<lparr>cur_tcb := Some h, regs := rs\<rparr>) = Some (x, k2)"
    if "x = reg_set rd OSTMR_OSSR_ADDR 1 (reg_write OSTMR_OSCR_ADDR 0 [])" for x
    using k2(1) that by (simp add: C_IRQ_Handler_def Let_def)
  have c64: "c < 64" using inv_readyD(2) [OF inv0 r] .
  show ?thesis
  proof (cases "cur_tcb k2 = Some h")
    case True
    have "sized k2" using k2(2) kernel_invD(1) by (auto simp: kernel_wf_def)
    then have "sized (k2\<lparr>regs := regs k\<rparr>)" by (simp add: sized_def)
    from ctx_switch_full_eq [OF this h(1) c64]
    obtain k3 where k3: "ctx_switch_full h c (k2\<lparr>regs := regs k\<rparr>) = Some k3"
        "tcb_context (system_tcb k3 ! h) = tcb_context (system_tcb k2 ! h)" "regs k3 = tcb_context (system_tcb k2 ! h)"
      using h(2) by simp
    then have "dispatch_interrupted rd rs k = Some k3"
      using k(2) p True by (simp add: dispatch_interrupted_def irq)
    then show ?thesis using h(2) k1 k3 k2(3) by (intro exI [of _ h] exI [of _ k1] exI [of _ k3]) simp
  next
    case False
    then have "dispatch_interrupted rd rs k = Some k2"
      using k(2) p by (simp add: dispatch_interrupted_def irq)
    then show ?thesis using h(2) k1 k2(3) False by (intro exI [of _ h] exI [of _ k1] exI [of _ k2]) simp
  qed
qed

end
