(* ===== verification/Timed.thy ===== *)
theory Timed
  imports Threads Progress
begin

text \<open>
  Runs of applications with a count of the timer interrupts. What the machine of theory \<open>System\<close>
  does over time holds for the applications on it: the devices keep to their schedule, and a task
  that waits on a device without a period stays where it is.
\<close>

section \<open>The machine below an application\<close>

lemma astep_mach:
  assumes inv: "app_inv P T s" and step: "astep P s s'"
    and ok: "\<forall>t\<in>T. request_ok (request_of P (locals s t))"
  shows "mach s' = mach s \<or> mstep (mach s) (mach s')"
  using step
proof (cases rule: astep.cases)
  case (a_lock c i out k)
  note d = callingD [OF a_lock(2) inv]
  have "0 \<le> i" using ok d(4) a_lock(4) by (force simp: request_ok_def)
  then obtain m where m: "i = int m" by (metis nonneg_int_cases)
  then show ?thesis using a_lock(1,5) mstep.lock [OF d(1-3), of m out k] by (cases "out = Return 0") simp_all
next
  case (a_lock_resume c m out k)
  then show ?thesis using mstep.lock_resume [OF a_lock_resume(2-4)] by (cases "out = Return 0") simp_all
next
  case (a_unlock c i out k)
  note d = callingD [OF a_unlock(2) inv]
  have "0 \<le> i" using ok d(4) a_unlock(4) by (force simp: request_ok_def)
  then obtain m where m: "i = int m" by (metis nonneg_int_cases)
  then show ?thesis using a_unlock(1,5) mstep.unlock [OF d(1-3), of m out k] by (cases "out = Return 0") simp_all
next
  case (a_create c out k)
  then show ?thesis using mstep.create [OF callingD(1-3) [OF a_create(2) inv] a_create(5)] by simp
next
  case (a_wait c d out k)
  then show ?thesis using mstep.event_wait [OF callingD(1-3) [OF a_wait(2) inv] a_wait(5)] by simp
next
  case (a_wait_resume c)
  then show ?thesis using mstep.wait_resume [OF a_wait_resume(2,3)] by simp
next
  case (a_sleep c msec)
  then show ?thesis using mstep.sleep [OF callingD(1-3) [OF a_sleep(2) inv], of msec] by simp
next
  case (a_sleep_done c target)
  then show ?thesis using mstep.sleep_done [OF a_sleep_done(2-4)] by simp
next
  case (a_tick rd b b' k)
  then show ?thesis using mstep.tick [OF a_tick(2)] by simp
qed simp_all

section \<open>Counting ticks\<close>

inductive atimed :: "('g, 'l) program \<Rightarrow> ('g, 'l) app \<Rightarrow> nat \<Rightarrow> ('g, 'l) app \<Rightarrow> bool" for P s0 where
  at_start: "atimed P s0 0 s0"
| at_step: "atimed P s0 n s \<Longrightarrow> astep P s s' \<Longrightarrow>
    atimed P s0 (n + (if system_time (mk (mach s')) = system_time (mk (mach s)) then 0 else 1)) s'"

lemma atimed_areach: "atimed P s0 n s \<Longrightarrow> areach P s0 s"
  by (induction rule: atimed.induct) (auto intro: areach.intros)

lemma areach_atimed: "areach P s0 s \<Longrightarrow> \<exists>n. atimed P s0 n s"
  by (induction rule: areach.induct) (blast intro: atimed.intros)+

lemma astep_schedule:
  assumes "app_inv P T s" "astep P s s'" "\<forall>t\<in>T. request_ok (request_of P (locals s t))"
    and "on_schedule t0 n (mk (mach s))"
  shows "on_schedule t0 (n + (if system_time (mk (mach s')) = system_time (mk (mach s)) then 0 else 1)) (mk (mach s'))"
  using astep_mach [OF assms(1,2,3)]
proof
  assume "mach s' = mach s"
  then show ?thesis using assms(4) by simp
next
  assume "mstep (mach s) (mach s')"
  from mstep_schedule [OF app_invD(1) [OF assms(1)] this assms(4)] show ?thesis .
qed

section \<open>Tasks that wait for ever\<close>

definition parked :: "nat \<Rightarrow> nat \<Rightarrow> ('g, 'l) app \<Rightarrow> bool" where
  "parked d t s \<longleftrightarrow> t \<in> set (waiting (abs_state (mk (mach s))) (Dev_head d))"

lemma parked_not_current: "app_inv P T s \<Longrightarrow> parked d t s \<Longrightarrow> cur_tcb (mk (mach s)) \<noteq> Some t"
  using app_invD(6,7) [of P T s] current_abs by (fastforce simp: parked_def spec_ok_def)

lemma not_due_silent: "dev_freq ! d = 0 \<Longrightarrow> 0 < n \<Longrightarrow> n < 2 ^ 32 \<Longrightarrow> d \<notin> due n"
  by (auto simp: due_def nat_dvd_not_less)

lemma astep_parked:
  assumes "app_inv P T s" "astep P s s'" "\<forall>t\<in>T. request_ok (request_of P (locals s t))"
    and "on_schedule t0 n (mk (mach s))" "dev_freq ! d = 0" "Suc n < 2 ^ 32" "parked d t s"
  shows "parked d t s'"
  using astep_mach [OF assms(1,2,3)] mstep_waiter [OF app_invD(1) [OF assms(1)] _ assms(4), of "mach s'" t d]
    not_due_silent [of d "Suc n"] assms(5-7) by (auto simp: parked_def)

text \<open>Right after \<open>event_wait\<close> the caller waits.\<close>

lemma a_wait_parks:
  assumes inv: "app_inv P T s" and call: "calling s c"
    and wait: "event_wait_syscall d (mk (mach s)) = Some (out, k)" and d: "\<not> d > 62"
  shows "out = Switched" "c \<in> set (waiting (abs_state k) (Dev_head (unat d)))"
proof -
  note ca = callingD [OF call inv]
  have "spec_event_wait (unat d) (abs_state (mk (mach s))) = (out, abs_state k)"
    using event_wait_wf [OF app_invD(2) [OF inv] ca(5), of d] wait by auto
  then have r: "out = Switched" "abs_state k = spec_dispatch (spec_sleep (Dev_head (unat d)) (abs_state (mk (mach s))))"
    using d by (auto simp: spec_event_wait_def word_less_nat_alt split: if_splits)
  show "out = Switched" by (rule r(1))
  show "c \<in> set (waiting (abs_state k) (Dev_head (unat d)))"
    unfolding r(2) using ca(6) by (simp add: spec_dispatch_def spec_sleep_def)
qed

end
