(* ===== verification/Calm.thy ===== *)
theory Calm
  imports Launch Timed
begin

text \<open>
  Runs of applications in which the tasks are done before the next timer interrupt: it comes only
  while the idle task runs or the current task sleeps. Such a run is determined by its first state.
  \<open>calm_step\<close> computes it on the abstract scheduler state, without kernel data and without choice,
  so that the output of a program is a matter of evaluation.
\<close>

section \<open>The executable semantics\<close>

record ('g, 'l) calm = "('g, 'l) threads" +
  sched :: sched_spec
  place_of :: "nat \<Rightarrow> cont"
  ticked :: nat

definition sleep_result :: "u32 \<Rightarrow> u32 \<Rightarrow> outcome" where
  "sleep_result msec start_time =
     (if msec = 0 then Return 0
      else let target = (msec + SYSTIME_PRECISION * start_time) div SYSTIME_PRECISION
           in if target > start_time then Spin target else Return 0)"

lemma sleep_enter_result: "sleep_enter msec k = sleep_result msec (system_time k)"
  by (simp add: sleep_enter_def sleep_result_def Let_def)

text \<open>Timer interrupt number \<open>ticked a + 1\<close>.\<close>

definition calm_tick :: "('g, 'l) calm \<Rightarrow> ('g, 'l) calm" where
  "calm_tick a = a\<lparr>sched := spec_signal (due (Suc (ticked a))) (sched a), ticked := Suc (ticked a)\<rparr>"

text \<open>The end of a call with result \<open>out\<close>, behind which task \<open>c\<close> is in \<open>x\<close>.\<close>

definition calm_call :: "('g, 'l) program \<Rightarrow> nat \<Rightarrow> cont \<Rightarrow> outcome \<times> sched_spec \<Rightarrow> ('g, 'l) calm \<Rightarrow> ('g, 'l) calm" where
  "calm_call P c x r a = return_to P c (fst r)
     (a\<lparr>sched := snd r, place_of := (place_of a)(c := cont_after x (fst r))\<rparr>)"

definition calm_step :: "('g, 'l) program \<Rightarrow> u32 \<Rightarrow> ('g, 'l) calm \<Rightarrow> ('g, 'l) calm" where
  "calm_step P t0 a =
     (let c = current (sched a); now = t0 + of_nat (ticked a) in
      if c = IDLE_PRIO then calm_tick a
      else case place_of a c of
        Sleeping target \<Rightarrow> if target > now then calm_tick a else calm_call P c User (Return 0, sched a) a
      | User \<Rightarrow>
          if pending a c \<noteq> [] then send_char c a
          else (case request_of P (locals a c) of
            Send bs \<Rightarrow> return_to P c (Return (of_nat (length bs))) (start_send c bs a)
          | Compute \<Rightarrow> return_to P c (Return 0) a
          | Now \<Rightarrow> return_to P c (Return now) a
          | Lock i \<Rightarrow> calm_call P c (In_lock (nat i)) (spec_lock (nat i) (sched a)) a
          | Unlock i \<Rightarrow> calm_call P c User (spec_unlock (nat i) (sched a)) a
          | Create \<Rightarrow> calm_call P c User (spec_create (sched a)) a
          | Wait d \<Rightarrow> calm_call P c In_wait (spec_event_wait (unat d) (sched a)) a
          | Sleep msec \<Rightarrow> calm_call P c User (sleep_result msec now, sched a) a)
      | _ \<Rightarrow> calm_call P c User (Return 0, sched a) a)"

definition calm_of :: "nat \<Rightarrow> ('g, 'l) app \<Rightarrow> ('g, 'l) calm" where
  "calm_of n s = \<lparr>globals = globals s, locals = locals s, pending = pending s, console = console s,
     sched = abs_state (mk (mach s)), place_of = conts (mach s), ticked = n\<rparr>"

section \<open>Calm runs of the machine\<close>

text \<open>The processor has nothing to do but to wait for the clock.\<close>

definition awaits_clock :: "('g, 'l) app \<Rightarrow> bool" where
  "awaits_clock s \<longleftrightarrow> cur_tcb (mk (mach s)) = Some IDLE_PRIO \<or>
     (\<exists>c target. cur_tcb (mk (mach s)) = Some c \<and> conts (mach s) c = Sleeping target \<and>
       target > system_time (mk (mach s)))"

definition ticks_of :: "('g, 'l) app \<Rightarrow> ('g, 'l) app \<Rightarrow> nat" where
  "ticks_of s s' = (if system_time (mk (mach s')) = system_time (mk (mach s)) then 0 else 1)"

definition calm_astep :: "('g, 'l) program \<Rightarrow> ('g, 'l) app \<Rightarrow> ('g, 'l) app \<Rightarrow> bool" where
  "calm_astep P s s' \<longleftrightarrow> astep P s s' \<and> (ticks_of s s' \<noteq> 0 \<longrightarrow> awaits_clock s)"

lemma calm_of_simps [simp]:
  "globals (calm_of n s) = globals s" "locals (calm_of n s) = locals s" "pending (calm_of n s) = pending s"
  "console (calm_of n s) = console s" "sched (calm_of n s) = abs_state (mk (mach s))"
  "place_of (calm_of n s) = conts (mach s)" "ticked (calm_of n s) = n"
  by (simp_all add: calm_of_def)

lemma calm_of_return: "calm_of n (return_to P c out s) = return_to P c out (calm_of n s)"
  by (simp add: return_to_def calm_of_def split: outcome.split prod.split)

lemma calm_of_send:
  "calm_of n (send_char c s) = send_char c (calm_of n s)" "calm_of n (start_send c bs s) = start_send c bs (calm_of n s)"
  by (simp_all add: send_char_def start_send_def calm_of_def)

lemma calm_of_mach:
  "calm_of n (s\<lparr>mach := m\<rparr>) = (calm_of n s)\<lparr>sched := abs_state (mk m), place_of := conts m\<rparr>"
  by (simp add: calm_of_def)

lemma calm_of_keep [simp]: "(calm_of n s)\<lparr>sched := abs_state (mk (mach s)), place_of := x\<rparr> = (calm_of n s)\<lparr>place_of := x\<rparr>"
  by (simp add: calm_of_def)

text \<open>One step of the machine is one step of the executable semantics.\<close>

lemma not_idle:
  assumes "calling s c" "app_inv P T s"
  shows "current (abs_state (mk (mach s))) = c" "c \<noteq> 63" "conts (mach s) c = User" "c \<in> T"
  using callingD [OF assms] by simp_all

lemma calm_local:
  assumes "app_inv P T s" "calling s c" "pending s c = []" "mach s' = mach s"
  shows "ticks_of s s' = 0"
  using assms by (simp add: ticks_of_def)

lemma calm_lock:
  assumes inv: "app_inv P T s" and call: "calling s c" "pending s c = []" "request_of P (locals s c) = Lock (int m)"
    and lock: "mutex_lock_syscall (int m) (mk (mach s)) = Some (out, k)"
    and s': "s' = return_to P c out (s\<lparr>mach := \<lparr>mk = k, conts = (conts (mach s))(c := cont_after (In_lock m) out), holds = H\<rparr>\<rparr>)"
  shows "calm_of (n + ticks_of s s') s' = calm_step P t0 (calm_of n s)"
proof -
  note c = not_idle [OF call(1) inv] and d = callingD [OF call(1) inv]
  have r: "spec_lock m (abs_state (mk (mach s))) = (out, abs_state k)"
    using mutex_lock_wf [OF app_invD(2) [OF inv] d(5), of m] lock by auto
  have "ticks_of s s' = 0" using mutex_clock(1) [OF lock] by (simp add: s' ticks_of_def same_clock_def)
  then show ?thesis
    using c call(2,3) r by (simp add: s' calm_of_return calm_of_mach calm_step_def Let_def calm_call_def)
qed

lemma calm_unlock:
  assumes inv: "app_inv P T s" and call: "calling s c" "pending s c = []" "request_of P (locals s c) = Unlock (int m)"
    and unlock: "mutex_unlock_syscall (int m) (mk (mach s)) = Some (out, k)"
    and s': "s' = return_to P c out (s\<lparr>mach := \<lparr>mk = k, conts = conts (mach s), holds = H\<rparr>\<rparr>)"
  shows "calm_of (n + ticks_of s s') s' = calm_step P t0 (calm_of n s)"
proof -
  note c = not_idle [OF call(1) inv]
  have r: "spec_unlock m (abs_state (mk (mach s))) = (out, abs_state k)"
    using mutex_unlock_wf [OF app_invD(2) [OF inv], of m] unlock by auto
  then have "cont_after User out = User" by (auto simp: spec_unlock_def split: if_splits)
  moreover have "ticks_of s s' = 0" using mutex_clock(4) [OF unlock] by (simp add: s' ticks_of_def same_clock_def)
  ultimately show ?thesis
    using c call(2,3) r
    by (simp add: s' calm_of_return calm_of_mach calm_step_def Let_def calm_call_def fun_upd_idem)
qed

lemma calm_tick_eq:
  assumes inv: "app_inv P T s" and sched: "on_schedule t0 n (mk (mach s))"
    and tick: "C_IRQ_Handler rd (b, mk (mach s)) = Some (b', k)" and s': "s' = s\<lparr>mach := (mach s)\<lparr>mk := k\<rparr>\<rparr>"
    and waits: "awaits_clock s"
  shows "calm_of (n + ticks_of s s') s' = calm_step P t0 (calm_of n s)"
proof -
  note t = tick_schedule [OF app_invD(2) [OF inv] sched tick]
  have time: "system_time (mk (mach s)) = t0 + of_nat n" using sched by (simp add: on_schedule_def)
  have "system_time k = t0 + of_nat (Suc n)" using t by (simp add: on_schedule_def)
  then have "ticks_of s s' = 1" using time by (simp add: s' ticks_of_def)
  moreover have "calm_step P t0 (calm_of n s) = calm_tick (calm_of n s)"
    using waits
    unfolding awaits_clock_def
  proof
    assume "cur_tcb (mk (mach s)) = Some IDLE_PRIO"
    then show ?thesis using current_abs [of "mk (mach s)" 63] by (simp add: calm_step_def Let_def)
  next
    assume "\<exists>c target. cur_tcb (mk (mach s)) = Some c \<and> conts (mach s) c = Sleeping target \<and>
       target > system_time (mk (mach s))"
    then obtain c target where c: "cur_tcb (mk (mach s)) = Some c" "conts (mach s) c = Sleeping target"
        "target > system_time (mk (mach s))" by blast
    then have "c \<noteq> 63" using app_invD(4) [OF inv] by auto
    then show ?thesis using c current_abs [OF c(1)] time by (simp add: calm_step_def Let_def)
  qed
  ultimately show ?thesis using t by (simp add: s' calm_of_mach calm_tick_def calm_of_def)
qed

lemma calm_resume:
  assumes inv: "app_inv P T s" and c: "cur_tcb (mk (mach s)) = Some c" "conts (mach s) c = x" "x \<noteq> User"
    and time: "system_time (mk (mach s)) = t0 + of_nat n"
    and awake: "\<And>target. x = Sleeping target \<Longrightarrow> \<not> target > system_time (mk (mach s))"
    and s': "s' = return_to P c (Return 0) (s\<lparr>mach := m\<rparr>)" "abs_state (mk m) = abs_state (mk (mach s))"
      "conts m = (conts (mach s))(c := User)" "system_time (mk m) = system_time (mk (mach s))"
  shows "calm_of (n + ticks_of s s') s' = calm_step P t0 (calm_of n s)"
proof -
  have "c \<noteq> 63" using c app_invD(4) [OF inv] by auto
  moreover have "ticks_of s s' = 0" using s' by (simp add: ticks_of_def)
  moreover have "calm_step P t0 (calm_of n s) = calm_call P c User (Return 0, abs_state (mk (mach s))) (calm_of n s)"
    using \<open>c \<noteq> 63\<close> c current_abs [OF c(1)] awake time by (cases x) (auto simp: calm_step_def Let_def)
  ultimately show ?thesis
    using s' by (simp add: calm_of_return calm_of_mach calm_call_def)
qed

lemma calm_simulated:
  assumes inv: "app_inv P T s" and ok: "\<forall>t\<in>T. request_ok (request_of P (locals s t))"
    and sched: "on_schedule t0 n (mk (mach s))" and step: "calm_astep P s s'"
  shows "calm_of (n + ticks_of s s') s' = calm_step P t0 (calm_of n s)"
proof -
  have time: "system_time (mk (mach s)) = t0 + of_nat n" using sched by (simp add: on_schedule_def)
  from step have astep: "astep P s s'" and waits: "ticks_of s s' \<noteq> 0 \<Longrightarrow> awaits_clock s"
    by (simp_all add: calm_astep_def)
  have mutex: "\<exists>m. i = int m" if "calling s c" "request_of P (locals s c) \<in> {Lock i, Unlock i}" for c i
  proof -
    have "0 \<le> i" using ok callingD(4) [OF that(1) inv] that(2) by (force simp: request_ok_def)
    then show ?thesis by (metis nonneg_int_cases)
  qed
  from astep show ?thesis
  proof (cases rule: astep.cases)
    case (a_send c)
    note c = not_idle [OF a_send(2) inv]
    show ?thesis using a_send c by (simp add: ticks_of_def calm_of_send calm_step_def Let_def)
  next
    case (a_write c bs)
    note c = not_idle [OF a_write(2) inv]
    show ?thesis using a_write c by (simp add: ticks_of_def calm_of_send calm_of_return calm_step_def Let_def)
  next
    case (a_compute c)
    note c = not_idle [OF a_compute(2) inv]
    show ?thesis using a_compute c by (simp add: ticks_of_def calm_of_return calm_step_def Let_def)
  next
    case (a_now c)
    note c = not_idle [OF a_now(2) inv]
    show ?thesis using a_now c time by (simp add: ticks_of_def calm_of_return calm_step_def Let_def time_syscall_def)
  next
    case (a_lock c i out k)
    then obtain m where m: "i = int m" using mutex [of c i] by auto
    show ?thesis by (rule calm_lock [OF inv a_lock(2,3)]) (use a_lock m in simp_all)
  next
    case (a_lock_resume c m out k)
    have ok: "conts_ok (abs_state (mk (mach s))) (conts (mach s)) (holds (mach s))"
      using app_invD(1) [OF inv] by (simp add: machine_inv_def)
    have k: "out = Return 0" "abs_state k = abs_state (mk (mach s))"
      using lock_resume_wf [OF app_invD(2) [OF inv] a_lock_resume(2) ok a_lock_resume(3)] a_lock_resume(4) by auto
    show ?thesis
      by (rule calm_resume [OF inv a_lock_resume(2,3) _ time _ a_lock_resume(1) [unfolded k(1)]])
        (use a_lock_resume k mutex_clock(2) [OF a_lock_resume(4)] in \<open>simp_all add: same_clock_def\<close>)
  next
    case (a_unlock c i out k)
    then obtain m where m: "i = int m" using mutex [of c i] by auto
    show ?thesis by (rule calm_unlock [OF inv a_unlock(2,3)]) (use a_unlock m in simp_all)
  next
    case (a_create c out k)
    note c = not_idle [OF a_create(2) inv]
    have r: "spec_create (abs_state (mk (mach s))) = (out, abs_state k)"
      using mutex_create_wf [OF app_invD(2) [OF inv]] a_create(5) by auto
    then have "cont_after User out = User" by (auto simp: spec_create_def split: list.splits)
    moreover have "ticks_of s s' = 0" using mutex_clock(3) [OF a_create(5)] by (simp add: a_create(1) ticks_of_def same_clock_def)
    ultimately show ?thesis
      using c a_create(1,3,4) r
      by (simp add: calm_of_return calm_of_mach calm_step_def Let_def calm_call_def fun_upd_idem)
  next
    case (a_wait c d out k)
    note c = not_idle [OF a_wait(2) inv]
    have r: "spec_event_wait (unat d) (abs_state (mk (mach s))) = (out, abs_state k)" "system_time k = system_time (mk (mach s))"
      using event_wait_wf [OF app_invD(2) [OF inv] callingD(5) [OF a_wait(2) inv], of d] a_wait(5) by auto
    then have "ticks_of s s' = 0" by (simp add: a_wait(1) ticks_of_def)
    then show ?thesis
      using c a_wait(1,3,4) r by (simp add: calm_of_return calm_of_mach calm_step_def Let_def calm_call_def)
  next
    case (a_wait_resume c)
    show ?thesis
      by (rule calm_resume [OF inv a_wait_resume(2,3) _ time _ a_wait_resume(1)]) (use a_wait_resume in simp_all)
  next
    case (a_sleep c msec)
    note c = not_idle [OF a_sleep(2) inv]
    have "ticks_of s s' = 0" by (simp add: a_sleep(1) ticks_of_def)
    then show ?thesis
      using c a_sleep(1,3,4) time
      by (simp add: calm_of_return calm_of_mach calm_step_def Let_def calm_call_def sleep_enter_result)
  next
    case (a_sleep_done c target)
    show ?thesis
      by (rule calm_resume [OF inv a_sleep_done(2,3) _ time _ a_sleep_done(1)]) (use a_sleep_done in simp_all)
  next
    case (a_tick rd b b' k)
    have "system_time k = t0 + of_nat (Suc n)"
      using tick_schedule [OF app_invD(2) [OF inv] sched a_tick(2)] by (simp add: on_schedule_def)
    then have "ticks_of s s' \<noteq> 0" using time by (simp add: a_tick(1) ticks_of_def)
    then show ?thesis using calm_tick_eq [OF inv sched a_tick(2,1)] waits by blast
  qed
qed

text \<open>There is always a next step.\<close>

lemma calm_progress:
  assumes inv: "app_inv P T s" and ok: "\<forall>t\<in>T. request_ok (request_of P (locals s t))"
  shows "\<exists>s'. calm_astep P s s'"
proof -
  let ?k = "mk (mach s)"
  have wf: "kernel_wf ?k" by (rule app_invD(2) [OF inv])
  then obtain c where c: "cur_tcb ?k = Some c" by (auto simp: kernel_wf_def)
  have tick: "\<exists>s'. calm_astep P s s'" if "awaits_clock s"
  proof -
    obtain b' k' where "C_IRQ_Handler (\<lambda>_. 0) ([], ?k) = Some (b', k')" using C_IRQ_Handler_wf [OF wf] by blast
    then show ?thesis using that astep.a_tick calm_astep_def by blast
  qed
  have quiet: "\<exists>s'. calm_astep P s s'" if "astep P s s'" "ticks_of s s' = 0" for s'
    using that by (auto simp: calm_astep_def)
  show ?thesis
  proof (cases "c = IDLE_PRIO")
    case True
    then show ?thesis using c tick by (simp add: awaits_clock_def)
  next
    case False
    show ?thesis
    proof (cases "conts (mach s) c")
      case (In_lock m)
      have co: "conts_ok (abs_state ?k) (conts (mach s)) (holds (mach s))"
        using app_invD(1) [OF inv] by (simp add: machine_inv_def)
      obtain k' where k': "mutex_lock_resume (int m) ?k = Some (Return 0, k')"
        using lock_resume_wf [OF wf c co In_lock] by blast
      show ?thesis
        by (rule quiet [OF astep.a_lock_resume [OF c In_lock k']])
          (use mutex_clock(2) [OF k'] in \<open>simp add: ticks_of_def same_clock_def\<close>)
    next
      case In_wait
      show ?thesis by (rule quiet [OF astep.a_wait_resume [OF c In_wait]]) (simp add: ticks_of_def)
    next
      case (Sleeping target)
      show ?thesis
      proof (cases "target > system_time ?k")
        case True
        then show ?thesis using c Sleeping tick by (simp add: awaits_clock_def)
      next
        case False
        show ?thesis by (rule quiet [OF astep.a_sleep_done [OF c Sleeping False]]) (simp add: ticks_of_def)
      qed
    next
      case User
      then have call: "calling s c" using c False by (simp add: calling_def)
      note d = callingD [OF call inv]
      show ?thesis
      proof (cases "pending s c = []")
        case False
        show ?thesis by (rule quiet [OF astep.a_send [OF call False]]) (simp add: ticks_of_def)
      next
        case idle: True
        show ?thesis
        proof (cases "request_of P (locals s c)")
          case (Lock i)
          then have "0 \<le> i" using ok d(4) by (force simp: request_ok_def)
          then obtain m where m: "i = int m" by (metis nonneg_int_cases)
          obtain out k' where k': "mutex_lock_syscall i ?k = Some (out, k')" using mutex_lock_wf [OF wf d(5), of m] m by auto
          show ?thesis
            by (rule quiet [OF astep.a_lock [OF call idle Lock k']])
              (use mutex_clock(1) [OF k'] in \<open>simp add: ticks_of_def same_clock_def\<close>)
        next
          case (Unlock i)
          then have "0 \<le> i" using ok d(4) by (force simp: request_ok_def)
          then obtain m where m: "i = int m" by (metis nonneg_int_cases)
          obtain out k' where k': "mutex_unlock_syscall i ?k = Some (out, k')" using mutex_unlock_wf [OF wf, of m] m by auto
          show ?thesis
            by (rule quiet [OF astep.a_unlock [OF call idle Unlock k']])
              (use mutex_clock(4) [OF k'] in \<open>simp add: ticks_of_def same_clock_def\<close>)
        next
          case Create
          obtain out k' where k': "mutex_create_syscall ?k = Some (out, k')" using mutex_create_wf [OF wf] by blast
          show ?thesis
            by (rule quiet [OF astep.a_create [OF call idle Create k']])
              (use mutex_clock(3) [OF k'] in \<open>simp add: ticks_of_def same_clock_def\<close>)
        next
          case (Wait dv)
          obtain out k' where k': "event_wait_syscall dv ?k = Some (out, k')" "system_time k' = system_time ?k"
            using event_wait_wf [OF wf d(5), of dv] by blast
          show ?thesis by (rule quiet [OF astep.a_wait [OF call idle Wait k'(1)]]) (simp add: ticks_of_def k'(2))
        next
          case (Sleep msec)
          show ?thesis by (rule quiet [OF astep.a_sleep [OF call idle Sleep]]) (simp add: ticks_of_def)
        next
          case Now
          show ?thesis by (rule quiet [OF astep.a_now [OF call idle Now]]) (simp add: ticks_of_def)
        next
          case (Send bs)
          show ?thesis by (rule quiet [OF astep.a_write [OF call idle Send]]) (simp add: ticks_of_def)
        next
          case Compute
          show ?thesis by (rule quiet [OF astep.a_compute [OF call idle Compute]]) (simp add: ticks_of_def)
        qed
      qed
    qed
  qed
qed

section \<open>Whole runs\<close>

text \<open>\<open>calm_run P s0 k n s\<close>: \<open>k\<close> steps, \<open>n\<close> of them timer interrupts.\<close>

inductive calm_run :: "('g, 'l) program \<Rightarrow> ('g, 'l) app \<Rightarrow> nat \<Rightarrow> nat \<Rightarrow> ('g, 'l) app \<Rightarrow> bool" for P s0 where
  c_start: "calm_run P s0 0 0 s0"
| c_step: "calm_run P s0 k n s \<Longrightarrow> calm_astep P s s' \<Longrightarrow> calm_run P s0 (Suc k) (n + ticks_of s s') s'"

inductive_cases c_startE: "calm_run P s0 0 n s"
inductive_cases c_stepE: "calm_run P s0 (Suc k) n s"

definition calm_after :: "('g, 'l) program \<Rightarrow> u32 \<Rightarrow> nat \<Rightarrow> ('g, 'l) calm \<Rightarrow> ('g, 'l) calm" where
  "calm_after P t0 k a = (calm_step P t0 ^^ k) a"

lemma calm_after_simps [simp]:
  "calm_after P t0 0 a = a" "calm_after P t0 (Suc k) a = calm_step P t0 (calm_after P t0 k a)"
  by (simp_all add: calm_after_def)

lemma calm_after_add: "calm_after P t0 (j + k) a = calm_after P t0 k (calm_after P t0 j a)"
  by (simp add: calm_after_def add.commute [of j] funpow_add)

text \<open>No task calls with a negative mutex number.\<close>

definition calm_ok :: "('g, 'l) program \<Rightarrow> nat set \<Rightarrow> ('g, 'l) calm \<Rightarrow> bool" where
  "calm_ok P T a \<longleftrightarrow> (\<forall>t\<in>T. request_ok (request_of P (locals a t)))"

lemma calm_run_computed:
  assumes inv: "app_inv P T s0" and sched: "on_schedule t0 0 (mk (mach s0))"
  shows "calm_run P s0 k n s \<Longrightarrow> (\<And>j. j < k \<Longrightarrow> calm_ok P T (calm_after P t0 j (calm_of 0 s0))) \<Longrightarrow>
    app_inv P T s \<and> on_schedule t0 n (mk (mach s)) \<and> calm_of n s = calm_after P t0 k (calm_of 0 s0)"
proof (induction rule: calm_run.induct)
  case c_start
  then show ?case using inv sched by simp
next
  case (c_step k n s s')
  then have IH: "app_inv P T s" "on_schedule t0 n (mk (mach s))" "calm_of n s = calm_after P t0 k (calm_of 0 s0)"
    by simp_all
  have "calm_ok P T (calm_of n s)" using c_step.prems [of k] IH(3) by simp
  then have ok: "\<forall>t\<in>T. request_ok (request_of P (locals s t))" by (simp add: calm_ok_def)
  have step: "astep P s s'" using c_step.hyps(2) by (simp add: calm_astep_def)
  have "app_inv P T s'" using astep_simulated [OF IH(1) ok step] by (simp add: simulated_def)
  moreover have "on_schedule t0 (n + ticks_of s s') (mk (mach s'))"
    using astep_schedule [OF IH(1) step ok IH(2)] by (simp add: ticks_of_def)
  ultimately show ?case using calm_simulated [OF IH(1) ok IH(2) c_step.hyps(2)] IH(3) by simp
qed

lemma calm_run_exists:
  assumes inv: "app_inv P T s0" and sched: "on_schedule t0 0 (mk (mach s0))"
  shows "(\<And>j. j < k \<Longrightarrow> calm_ok P T (calm_after P t0 j (calm_of 0 s0))) \<Longrightarrow> \<exists>n s. calm_run P s0 k n s"
proof (induction k)
  case 0
  then show ?case using calm_run.c_start by blast
next
  case (Suc k)
  then obtain n s where s: "calm_run P s0 k n s" by auto
  have s1: "app_inv P T s" "calm_of n s = calm_after P t0 k (calm_of 0 s0)"
    using calm_run_computed [OF inv sched s] Suc.prems by simp_all
  have "calm_ok P T (calm_of n s)" unfolding s1(2) using Suc.prems by simp
  then have "\<forall>t\<in>T. request_ok (request_of P (locals s t))" by (simp add: calm_ok_def)
  then obtain s' where "calm_astep P s s'" using calm_progress [OF s1(1)] by blast
  then show ?case using calm_run.c_step [OF s] by blast
qed

section \<open>Evaluation\<close>

text \<open>\<open>b\<close> is computed from \<open>a\<close> in \<open>k\<close> steps, all of whose requests are defined.\<close>

inductive computes :: "('g, 'l) program \<Rightarrow> nat set \<Rightarrow> u32 \<Rightarrow> nat \<Rightarrow> ('g, 'l) calm \<Rightarrow> ('g, 'l) calm \<Rightarrow> bool" for P T t0 where
  e_done: "computes P T t0 0 a a"
| e_step: "computes P T t0 (Suc k) a b" if "calm_ok P T a" "calm_step P t0 a = a'" "computes P T t0 k a' b"

lemma computes_add: "computes P T t0 j a b \<Longrightarrow> computes P T t0 k b c \<Longrightarrow> computes P T t0 (j + k) a c"
  by (induction rule: computes.induct) (auto intro: computes.intros)

lemma computes_after:
  "computes P T t0 k a b \<Longrightarrow> calm_after P t0 k a = b \<and> (\<forall>j<k. calm_ok P T (calm_after P t0 j a))"
proof (induction rule: computes.induct)
  case (e_step a a' k b)
  have first: "calm_after P t0 (Suc j) a = calm_after P t0 j a'" for j
    using calm_after_add [of P t0 1 j a] e_step.hyps(2) by simp
  have "calm_ok P T (calm_after P t0 j a)" if "j < Suc k" for j
  proof (cases j)
    case 0
    then show ?thesis using e_step.hyps(1) by simp
  next
    case (Suc i)
    then show ?thesis using e_step.IH that first [of i] by simp
  qed
  then show ?case using first [of k] e_step.IH by auto
qed simp

definition leads :: "('g, 'l) program \<Rightarrow> nat set \<Rightarrow> u32 \<Rightarrow> ('g, 'l) calm \<Rightarrow> ('g, 'l) calm \<Rightarrow> bool" where
  "leads P T t0 a b \<longleftrightarrow> (\<exists>k. computes P T t0 k a b)"

lemma leads_refl: "leads P T t0 a a"
  unfolding leads_def by (rule exI [of _ 0]) (rule computes.e_done)

lemma leads_trans: "leads P T t0 a b \<Longrightarrow> leads P T t0 b c \<Longrightarrow> leads P T t0 a c"
  using computes_add by (fastforce simp: leads_def)

lemma leads_step: "calm_ok P T a \<Longrightarrow> calm_step P t0 a = b \<Longrightarrow> leads P T t0 a b"
  unfolding leads_def using computes.e_step [OF _ _ computes.e_done] by blast

text \<open>A task whose turn it is writes its characters one after the other.\<close>

lemma leads_chars:
  assumes "current (sched a) = c" "c \<noteq> IDLE_PRIO" "place_of a c = User" "calm_ok P T a"
  shows "leads P T t0 (a\<lparr>pending := (pending a)(c := bs)\<rparr>)
    (a\<lparr>pending := (pending a)(c := []), console := console a @ bs\<rparr>)"
  using assms
proof (induction bs arbitrary: a)
  case Nil
  then show ?case using leads_refl by (metis append_Nil2 calm.surjective threads.update_convs)
next
  case (Cons b bs)
  let ?a = "a\<lparr>pending := (pending a)(c := b # bs)\<rparr>" and ?b = "a\<lparr>console := console a @ [b]\<rparr>"
  have "calm_ok P T ?a" "calm_ok P T ?b" using Cons.prems(4) by (simp_all add: calm_ok_def)
  moreover have step: "calm_step P t0 ?a = ?b\<lparr>pending := (pending ?b)(c := bs)\<rparr>"
    using Cons.prems by (simp add: calm_step_def Let_def send_char_def)
  ultimately have "leads P T t0 ?a (?b\<lparr>pending := (pending ?b)(c := bs)\<rparr>)" using leads_step by blast
  moreover have "leads P T t0 (?b\<lparr>pending := (pending ?b)(c := bs)\<rparr>)
      (?b\<lparr>pending := (pending ?b)(c := []), console := console ?b @ bs\<rparr>)"
    using Cons.prems by (intro Cons.IH) (simp_all add: calm_ok_def)
  ultimately have "leads P T t0 ?a (?b\<lparr>pending := (pending ?b)(c := []), console := console ?b @ bs\<rparr>)"
    by (rule leads_trans)
  then show ?case by (simp del: fun_upd_apply)
qed

lemma leads_send:
  assumes "current (sched a) = c" "c \<noteq> IDLE_PRIO" "place_of a c = User" "pending a c = []"
    and send: "request_of P (locals a c) = Send bs"
    and b: "return_to P c (Return (of_nat (length bs))) a = b" "calm_ok P T a" "calm_ok P T b"
  shows "leads P T t0 a (b\<lparr>console := console b @ bs\<rparr>)"
proof -
  have same: "sched b = sched a" "place_of b = place_of a" "pending b = pending a"
    unfolding b(1) [symmetric] by (simp_all add: return_to_def split: prod.split)
  have "calm_step P t0 a = b\<lparr>pending := (pending b)(c := bs)\<rparr>"
    using assms(1-5) unfolding b(1) [symmetric]
    by (simp add: calm_step_def Let_def return_to_def start_send_def split: prod.split)
  moreover have "b\<lparr>pending := (pending b)(c := []), console := console b @ bs\<rparr> = b\<lparr>console := console b @ bs\<rparr>"
    using same(3) assms(4) by (simp add: fun_upd_idem)
  ultimately show ?thesis
    using leads_trans [OF leads_step [OF b(2)] leads_chars [of b c P T t0 bs]] assms(1-3) same b(3) by simp
qed

text \<open>The console only grows.\<close>

lemma console_return [simp]: "console (calm_call P c x r a) = console a"
  by (simp add: calm_call_def)

lemma calm_step_console: "\<exists>bs. console (calm_step P t0 a) = console a @ bs"
  by (auto simp: calm_step_def Let_def calm_tick_def send_char_def start_send_def
      split: cont.split request.split)

lemma calm_after_console: "j \<le> k \<Longrightarrow> \<exists>bs. console (calm_after P t0 k a) = console (calm_after P t0 j a) @ bs"
proof (induction k)
  case (Suc k)
  show ?case
  proof (cases "j = Suc k")
    case False
    then obtain bs where "console (calm_after P t0 k a) = console (calm_after P t0 j a) @ bs" using Suc by auto
    then show ?thesis using calm_step_console [of P t0 "calm_after P t0 k a"] by auto
  qed simp
qed simp

end
