(* ===== verification/LibC_String.thy ===== *)
theory LibC_String
  imports Memory
begin

text \<open>
  tasks/libc/string: the functions on memory regions and on C strings, translated loop by loop.
  A string is a sequence of nonzero bytes in memory with a zero byte behind it; the functions that
  search for this byte have no result when there is none. The type \<open>char\<close> is unsigned on ARM.
  A null pointer is the address 0.
\<close>

section \<open>The code\<close>

subsection \<open>Regions\<close>

fun memcmp_loop :: "memory \<Rightarrow> u32 \<Rightarrow> u32 \<Rightarrow> nat \<Rightarrow> u32" where
  "memcmp_loop m s1 s2 0 = 0"
| "memcmp_loop m s1 s2 (Suc n) =
     (let a = ucast (m s1); b = ucast (m s2)
      in if a \<noteq> b then a - b else memcmp_loop m (s1 + 1) (s2 + 1) n)"

definition memcmp :: "memory \<Rightarrow> u32 \<Rightarrow> u32 \<Rightarrow> u32 \<Rightarrow> u32" where
  "memcmp m s1v s2v sz = memcmp_loop m s1v s2v (unat sz)"

fun copy_down :: "u32 \<Rightarrow> u32 \<Rightarrow> nat \<Rightarrow> memory \<Rightarrow> memory" where
  "copy_down d s 0 m = m"
| "copy_down d s (Suc i) m = copy_down d s i (m(d + of_nat i := m (s + of_nat i)))"

definition memmove :: "u32 \<Rightarrow> u32 \<Rightarrow> u32 \<Rightarrow> memory \<Rightarrow> memory option" where
  "memmove dest src cnt m =
     (if dest < src
      then for_range 0 (unat cnt) (\<lambda>i m. Some (m(dest + of_nat i := m (src + of_nat i)))) m
      else Some (copy_down dest src (unat cnt) m))"

definition memcpy :: "u32 \<Rightarrow> u32 \<Rightarrow> u32 \<Rightarrow> memory \<Rightarrow> memory option" where
  "memcpy dest src cnt m = memmove dest src cnt m"

fun memset_loop :: "u32 \<Rightarrow> u8 \<Rightarrow> nat \<Rightarrow> memory \<Rightarrow> memory" where
  "memset_loop to c 0 m = m"
| "memset_loop to c (Suc n) m = memset_loop (to + 1) c n (m(to := c))"

definition memset :: "u32 \<Rightarrow> u32 \<Rightarrow> u32 \<Rightarrow> memory \<Rightarrow> memory" where
  "memset tov c len m = memset_loop tov (ucast c) (unat len) m"

subsection \<open>Length, copy and concatenation\<close>

text \<open>\<open>while ( *string++ );\<close>\<close>

partial_function (option) strlen_loop :: "memory \<Rightarrow> u32 \<Rightarrow> u32 option" where
  "strlen_loop m string = (if m string \<noteq> 0 then strlen_loop m (string + 1) else Some (string + 1))"

definition strlen :: "memory \<Rightarrow> u32 \<Rightarrow> u32 option" where
  "strlen m string = map_option (\<lambda>e. e - 1 - string) (strlen_loop m string)"

partial_function (option) strcpy_loop :: "u32 \<Rightarrow> u32 \<Rightarrow> memory \<Rightarrow> memory option" where
  "strcpy_loop to from m =
     (if m from \<noteq> 0 then strcpy_loop (to + 1) (from + 1) (m(to := m from)) else Some (m(to := m from)))"

definition strcpy :: "u32 \<Rightarrow> u32 \<Rightarrow> memory \<Rightarrow> memory option" where
  "strcpy to from m = strcpy_loop to from m"

text \<open>\<open>while ( *s ) s++;\<close>\<close>

partial_function (option) strend :: "memory \<Rightarrow> u32 \<Rightarrow> u32 option" where
  "strend m s = (if m s \<noteq> 0 then strend m (s + 1) else Some s)"

definition strcat :: "u32 \<Rightarrow> u32 \<Rightarrow> memory \<Rightarrow> memory option" where
  "strcat s add m = strend m s \<bind> (\<lambda>e. strcpy_loop e add m)"

text \<open>
  The two loops of \<open>strncpy\<close>. Both test \<open>count-- > 0\<close>: the decrement happens on the way out, too.
\<close>

function strncpy_copy :: "u32 \<Rightarrow> u32 \<Rightarrow> u32 \<Rightarrow> memory \<Rightarrow> u32 \<times> u32 \<times> memory" where
  "strncpy_copy to from cnt m =
     (if cnt > 0 then
        let m' = m(to := m from)
        in if m from \<noteq> 0 then strncpy_copy (to + 1) (from + 1) (cnt - 1) m' else (to + 1, cnt - 1, m')
      else (to, cnt - 1, m))"
  by pat_completeness auto
termination
  by (relation "measure (\<lambda>(to, from, cnt, m). unat cnt)") (auto simp: unat_minus_one word_neq_0_conv unat_gt_0)

function strncpy_pad :: "u32 \<Rightarrow> u32 \<Rightarrow> memory \<Rightarrow> memory" where
  "strncpy_pad to cnt m = (if cnt > 0 then strncpy_pad (to + 1) (cnt - 1) (m(to := 0)) else m)"
  by pat_completeness auto
termination
  by (relation "measure (\<lambda>(to, cnt, m). unat cnt)") (auto simp: unat_minus_one word_neq_0_conv unat_gt_0)

declare strncpy_copy.simps [simp del] strncpy_pad.simps [simp del]

definition strncpy :: "u32 \<Rightarrow> u32 \<Rightarrow> u32 \<Rightarrow> memory \<Rightarrow> memory" where
  "strncpy to from cnt m = (case strncpy_copy to from cnt m of (to, cnt, m) \<Rightarrow> strncpy_pad to cnt m)"

text \<open>The \<open>do\<close> loop of \<open>strncat\<close> and the final terminator.\<close>

function strncat_loop :: "u32 \<Rightarrow> u32 \<Rightarrow> u32 \<Rightarrow> memory \<Rightarrow> memory" where
  "strncat_loop d s n m =
     (let m' = m(d := m s)
      in if m s = 0 then m'(d := 0)
         else if n - 1 \<noteq> 0 then strncat_loop (d + 1) (s + 1) (n - 1) m'
         else m'(d + 1 := 0))"
  by pat_completeness auto
termination
proof (relation "measure (\<lambda>(d, s, n, m). unat (n - 1))")
  fix d s n :: u32 and m m' :: memory
  assume n: "n - 1 \<noteq> 0"
  have "unat (n - 1 - 1) = unat (n - 1) - 1" by (rule unat_minus_one) (rule n)
  moreover have "unat (n - 1) \<noteq> 0" using n unat_eq_0 [of "n - 1"] by blast
  ultimately show "((d + 1, s + 1, n - 1, m'), (d, s, n, m)) \<in> measure (\<lambda>(d, s, n, m). unat (n - 1))" by simp
qed simp

declare strncat_loop.simps [simp del]

definition strncat :: "u32 \<Rightarrow> u32 \<Rightarrow> u32 \<Rightarrow> memory \<Rightarrow> memory option" where
  "strncat dst src n m =
     (if n \<noteq> 0 then map_option (\<lambda>d. strncat_loop d src n m) (strend m dst) else Some m)"

subsection \<open>Comparison\<close>

partial_function (option) strcmp :: "memory \<Rightarrow> u32 \<Rightarrow> u32 \<Rightarrow> u32 option" where
  "strcmp m s1 s2 =
     (let a = ucast (m s1); b = ucast (m s2)
      in if a \<noteq> 0 \<and> b \<noteq> 0 then (if a \<noteq> b then Some (a - b) else strcmp m (s1 + 1) (s2 + 1))
         else Some (a - b))"

fun strncmp_loop :: "memory \<Rightarrow> u32 \<Rightarrow> u32 \<Rightarrow> nat \<Rightarrow> u32" where
  "strncmp_loop m s1 s2 0 = 0"
| "strncmp_loop m s1 s2 (Suc n) =
     (if m s1 \<noteq> m s2 then ucast (m s1) - ucast (m s2)
      else if m s1 = 0 then 0
      else strncmp_loop m (s1 + 1) (s2 + 1) n)"

definition strncmp :: "memory \<Rightarrow> u32 \<Rightarrow> u32 \<Rightarrow> u32 \<Rightarrow> u32" where
  "strncmp m s1 s2 n = strncmp_loop m s1 s2 (unat n)"

subsection \<open>Search\<close>

text \<open>The character is an \<open>int\<close> and is compared without conversion.\<close>

partial_function (option) strchr :: "memory \<Rightarrow> u32 \<Rightarrow> u32 \<Rightarrow> u32 option" where
  "strchr m s c = (if ucast (m s) = c then Some s else if m s = 0 then Some 0 else strchr m (s + 1) c)"

partial_function (option) strrchr_loop :: "memory \<Rightarrow> u32 \<Rightarrow> u32 \<Rightarrow> u32 \<Rightarrow> u32 option" where
  "strrchr_loop m s c save =
     (if m s \<noteq> 0 then strrchr_loop m (s + 1) c (if ucast (m s) = c then s else save) else Some save)"

definition strrchr :: "memory \<Rightarrow> u32 \<Rightarrow> u32 \<Rightarrow> u32 option" where
  "strrchr m s c = strrchr_loop m s c 0"

text \<open>The inner loops of \<open>strspn\<close> and \<open>strpbrk\<close>: is the byte one of the string's?\<close>

partial_function (option) span_test :: "memory \<Rightarrow> u32 \<Rightarrow> u8 \<Rightarrow> bool option" where
  "span_test m spanp c =
     (if m spanp \<noteq> 0 then (if m spanp = c then Some True else span_test m (spanp + 1) c) else Some False)"

partial_function (option) strspn_loop :: "memory \<Rightarrow> u32 \<Rightarrow> u32 \<Rightarrow> u32 option" where
  "strspn_loop m p s2 =
     (span_test m s2 (m p) \<bind> (\<lambda>found. if found then strspn_loop m (p + 1) s2 else Some (p + 1)))"

definition strspn :: "memory \<Rightarrow> u32 \<Rightarrow> u32 \<Rightarrow> u32 option" where
  "strspn m s1 s2 = map_option (\<lambda>p. p - 1 - s1) (strspn_loop m s1 s2)"

text \<open>The inner loop of \<open>strcspn\<close> compares the terminator, too.\<close>

partial_function (option) cspan_test :: "memory \<Rightarrow> u32 \<Rightarrow> u8 \<Rightarrow> bool option" where
  "cspan_test m spanp c =
     (if m spanp = c then Some True else if m spanp \<noteq> 0 then cspan_test m (spanp + 1) c else Some False)"

partial_function (option) strcspn_loop :: "memory \<Rightarrow> u32 \<Rightarrow> u32 \<Rightarrow> u32 option" where
  "strcspn_loop m p s2 =
     (cspan_test m s2 (m p) \<bind> (\<lambda>found. if found then Some (p + 1) else strcspn_loop m (p + 1) s2))"

definition strcspn :: "memory \<Rightarrow> u32 \<Rightarrow> u32 \<Rightarrow> u32 option" where
  "strcspn m s1 s2 = map_option (\<lambda>p. p - 1 - s1) (strcspn_loop m s1 s2)"

partial_function (option) strpbrk :: "memory \<Rightarrow> u32 \<Rightarrow> u32 \<Rightarrow> u32 option" where
  "strpbrk m s1 s2 =
     (if m s1 \<noteq> 0
      then span_test m s2 (m s1) \<bind> (\<lambda>found. if found then Some s1 else strpbrk m (s1 + 1) s2)
      else Some 0)"

text \<open>\<open>hlen\<close> and \<open>nlen\<close> are of type \<open>int\<close>.\<close>

function strstr_loop :: "memory \<Rightarrow> u32 \<Rightarrow> int \<Rightarrow> u32 \<Rightarrow> int \<Rightarrow> u32" where
  "strstr_loop m haystack hlen needle nlen =
     (if hlen \<ge> nlen then
        if memcmp m haystack needle (of_int nlen) = 0 then haystack
        else strstr_loop m (haystack + 1) (hlen - 1) needle nlen
      else 0)"
  by pat_completeness auto
termination
  by (relation "measure (\<lambda>(m, haystack, hlen, needle, nlen). nat (hlen + 1 - nlen))") auto

declare strstr_loop.simps [simp del]

definition strstr :: "memory \<Rightarrow> u32 \<Rightarrow> u32 \<Rightarrow> u32 option" where
  "strstr m haystack needle = do {
     hlen \<leftarrow> strlen m haystack;
     nlen \<leftarrow> strlen m needle;
     Some (strstr_loop m haystack (sint hlen) needle (sint nlen)) }"

section \<open>Strings in memory\<close>

fun cstr :: "memory \<Rightarrow> u32 \<Rightarrow> u8 list \<Rightarrow> bool" where
  "cstr m p [] \<longleftrightarrow> m p = 0"
| "cstr m p (c # cs) \<longleftrightarrow> m p = c \<and> c \<noteq> 0 \<and> cstr m (p + 1) cs"

text \<open>A string is shorter than the address space.\<close>

lemma cstr_nth: "cstr m p s \<Longrightarrow> i < length s \<Longrightarrow> m (p + of_nat i) = s ! i \<and> s ! i \<noteq> 0"
proof (induction s arbitrary: p i)
  case (Cons c s)
  then show ?case
  proof (cases i)
    case (Suc j)
    with Cons.IH [of "p + 1" j] Cons.prems show ?thesis by (simp add: algebra_simps)
  qed simp
qed simp

lemma cstr_end: "cstr m p s \<Longrightarrow> m (p + of_nat (length s)) = 0"
proof (induction s arbitrary: p)
  case (Cons c s)
  from Cons.IH [of "p + 1"] Cons.prems show ?case by (simp add: algebra_simps)
qed simp

lemma cstr_length:
  assumes "cstr m p s"
  shows "length s < 2 ^ 32"
proof (rule ccontr)
  assume *: "\<not> length s < 2 ^ 32"
  let ?i = "length s mod 2 ^ 32"
  have "?i < 2 ^ 32" by simp
  then have "?i < length s" using * by linarith
  moreover have "(of_nat ?i :: u32) = of_nat (length s)"
    by (simp add: word_of_nat_eq_iff take_bit_eq_mod)
  ultimately show False using cstr_nth [OF assms, of ?i] cstr_end [OF assms] by simp
qed

lemma cstr_length_u32: "cstr m p s \<Longrightarrow> unat (of_nat (length s) :: u32) = length s"
  using cstr_length by (intro unat_lt_of_nat_iff) simp

lemma cstrI:
  assumes "\<And>i. i < length s \<Longrightarrow> m (p + of_nat i) = s ! i \<and> s ! i \<noteq> 0" "m (p + of_nat (length s)) = 0"
  shows "cstr m p s"
  using assms
proof (induction s arbitrary: p)
  case (Cons c s)
  have "cstr m (p + 1) s"
  proof (rule Cons.IH)
    show "m (p + 1 + of_nat i) = s ! i \<and> s ! i \<noteq> 0" if "i < length s" for i
      using Cons.prems(1) [of "Suc i"] that by (simp add: algebra_simps)
    show "m (p + 1 + of_nat (length s)) = 0" using Cons.prems(2) by (simp add: algebra_simps)
  qed
  then show ?case using Cons.prems(1) [of 0] by simp
qed simp

lemma cstr_bytes: "cstr m p s \<Longrightarrow> bytes m p (length s) = s"
  by (rule nth_equalityI) (simp_all add: bytes_def cstr_nth)

lemma cstr_cong:
  "(\<And>i. i \<le> length s \<Longrightarrow> m' (p + of_nat i) = m (p + of_nat i)) \<Longrightarrow> cstr m' p s = cstr m p s"
proof (induction s arbitrary: p)
  case Nil
  then show ?case using Nil [of 0] by simp
next
  case (Cons c s)
  have "cstr m' (p + 1) s = cstr m (p + 1) s"
  proof (rule Cons.IH)
    fix i
    assume "i \<le> length s"
    then show "m' (p + 1 + of_nat i) = m (p + 1 + of_nat i)"
      using Cons.prems [of "Suc i"] by (simp add: algebra_simps)
  qed
  then show ?case using Cons.prems [of 0] by simp
qed

text \<open>A byte that is at none of the addresses of a region, and regions that do not meet.\<close>

definition outside :: "u32 \<Rightarrow> u32 \<Rightarrow> nat \<Rightarrow> bool" where
  "outside a p n \<longleftrightarrow> (\<forall>i<n. a \<noteq> p + of_nat i)"

lemma outside_Suc: "outside a p (Suc n) \<longleftrightarrow> a \<noteq> p \<and> outside a (p + 1) n"
  unfolding outside_def by (auto simp: All_less_Suc2 algebra_simps)

lemma outside_0 [simp]: "outside a p 0"
  by (simp add: outside_def)

lemma outside_mono: "outside a p n \<Longrightarrow> k \<le> n \<Longrightarrow> outside a p k"
  by (simp add: outside_def)

definition disjoint :: "u32 \<Rightarrow> nat \<Rightarrow> u32 \<Rightarrow> nat \<Rightarrow> bool" where
  "disjoint p k q n \<longleftrightarrow> (\<forall>i<k. \<forall>j<n. p + of_nat i \<noteq> q + of_nat j)"

lemma unat_offset: "unat p + i < 2 ^ 32 \<Longrightarrow> unat (p + of_nat i) = unat (p :: u32) + i"
proof -
  assume *: "unat p + i < 2 ^ 32"
  then have "unat (of_nat i :: u32) = i" by (intro unat_lt_of_nat_iff) simp
  then show ?thesis using * by (subst unat_add_lem [THEN iffD1]) simp_all
qed

lemma disjointI:
  assumes "unat p + k \<le> unat q \<and> unat q + n \<le> 2 ^ 32 \<or> unat q + n \<le> unat p \<and> unat p + k \<le> 2 ^ 32"
  shows "disjoint p k q n"
  unfolding disjoint_def
proof (intro allI impI)
  fix i j
  assume ij: "i < k" "j < n"
  have "unat (p + of_nat i) = unat p + i" "unat (q + of_nat j) = unat q + j"
    by (rule unat_offset; use assms ij in linarith)+
  then have "unat (p + of_nat i) \<noteq> unat (q + of_nat j)" using assms ij by linarith
  then show "p + of_nat i \<noteq> q + of_nat j" by metis
qed

lemma disjoint_outside: "disjoint p k q n \<Longrightarrow> i < k \<Longrightarrow> outside (p + of_nat i) q n"
  by (simp add: disjoint_def outside_def)

lemma outside_below: "unat a < unat p \<Longrightarrow> unat p + n \<le> 2 ^ 32 \<Longrightarrow> outside a p n"
  using disjoint_outside [OF disjointI, of a 1 p n 0] by simp

text \<open>Storing a list of bytes.\<close>

fun store_bytes :: "u32 \<Rightarrow> u8 list \<Rightarrow> memory \<Rightarrow> memory" where
  "store_bytes p [] m = m"
| "store_bytes p (c # cs) m = store_bytes (p + 1) cs (m(p := c))"

lemma store_bytes_outside: "outside a p (length t) \<Longrightarrow> store_bytes p t m a = m a"
  by (induction t arbitrary: p m) (simp_all add: outside_Suc)

lemma outside_start: "n < 2 ^ 32 \<Longrightarrow> outside p (p + 1) n"
  unfolding outside_def
proof (intro allI impI)
  fix i
  assume "n < 2 ^ 32" "i < n"
  then have "(of_nat (Suc i) :: u32) \<noteq> of_nat 0" by (subst of_nat_u32_eq) simp_all
  then show "p \<noteq> p + 1 + of_nat i" by (simp add: add.assoc)
qed

lemma store_bytes_nth:
  "i < length t \<Longrightarrow> length t \<le> 2 ^ 32 \<Longrightarrow> store_bytes p t m (p + of_nat i) = t ! i"
proof (induction t arbitrary: p m i)
  case (Cons c t)
  show ?case
  proof (cases i)
    case 0
    then show ?thesis using Cons.prems store_bytes_outside [OF outside_start, of t p "m(p := c)"] by simp
  next
    case (Suc j)
    then show ?thesis using Cons.IH [of j "p + 1" "m(p := c)"] Cons.prems by (simp add: algebra_simps del: fun_upd_apply)
  qed
qed simp

lemma store_bytes_cstr:
  assumes "0 \<notin> set t" "length t < 2 ^ 32"
  shows "cstr ((store_bytes p t m)(p + of_nat (length t) := 0)) p t"
proof (rule cstrI)
  fix i
  assume i: "i < length t"
  then have "p + of_nat i \<noteq> p + of_nat (length t)" using assms(2) by (simp add: of_nat_u32_eq)
  moreover have "t ! i \<noteq> 0" using assms(1) i by (metis nth_mem)
  ultimately show "((store_bytes p t m)(p + of_nat (length t) := 0)) (p + of_nat i) = t ! i \<and> t ! i \<noteq> 0"
    using store_bytes_nth [OF i, of p m] assms(2) by simp
qed simp

section \<open>Length\<close>

lemma strend_cstr: "cstr m p s \<Longrightarrow> strend m p = Some (p + of_nat (length s))"
proof (induction s arbitrary: p)
  case Nil
  then show ?case by (subst strend.simps) simp
next
  case (Cons c s)
  then show ?case by (subst strend.simps) (simp add: algebra_simps)
qed

lemma strlen_loop_cstr: "cstr m p s \<Longrightarrow> strlen_loop m p = Some (p + of_nat (length s) + 1)"
proof (induction s arbitrary: p)
  case Nil
  then show ?case by (subst strlen_loop.simps) simp
next
  case (Cons c s)
  then show ?case by (subst strlen_loop.simps) (simp add: algebra_simps)
qed

lemma strlen_cstr: "cstr m p s \<Longrightarrow> strlen m p = Some (of_nat (length s))"
  by (simp add: strlen_def strlen_loop_cstr)

section \<open>Copies\<close>

lemma memset_loop_eq:
  "n \<le> 2 ^ 32 \<Longrightarrow> memset_loop to c n m a = (if outside a to n then m a else c)"
proof (induction n arbitrary: to m)
  case (Suc n)
  have "outside to (to + 1) n"
    unfolding outside_def
  proof (intro allI impI)
    fix i
    assume "i < n"
    then have "(of_nat 0 :: u32) \<noteq> of_nat (Suc i)" using Suc.prems by (subst of_nat_u32_eq) auto
    then show "to \<noteq> to + 1 + of_nat i" by (simp add: add.assoc)
  qed
  moreover have "memset_loop (to + 1) c n (m(to := c)) a = (if outside a (to + 1) n then (m(to := c)) a else c)"
    by (rule Suc.IH) (use Suc.prems in simp)
  ultimately show ?case by (auto simp: outside_Suc)
qed simp

lemma copy_down_outside: "outside a d n \<Longrightarrow> copy_down d s n m a = m a"
  by (induction n arbitrary: m) (auto simp: outside_def)

lemma copy_down_bytes:
  assumes "n \<le> 2 ^ 32" "\<And>i j. i < j \<Longrightarrow> j < n \<Longrightarrow> d + of_nat j \<noteq> s + of_nat i" "i < n"
  shows "copy_down d s n m (d + of_nat i) = m (s + of_nat i)"
  using assms
proof (induction n arbitrary: m i)
  case (Suc n)
  let ?m = "m(d + of_nat n := m (s + of_nat n))"
  show ?case
  proof (cases "i < n")
    case True
    have "copy_down d s n ?m (d + of_nat i) = ?m (s + of_nat i)"
      by (rule Suc.IH) (use Suc.prems True in simp_all)
    also have "\<dots> = m (s + of_nat i)" using Suc.prems(2) [of i n] True by auto
    finally show ?thesis by simp
  next
    case False
    then have "i = n" using Suc.prems(3) by simp
    have "outside (d + of_nat n) d n" using Suc.prems(1) by (auto simp: outside_def of_nat_u32_eq)
    then show ?thesis unfolding \<open>i = n\<close> by (simp add: copy_down_outside)
  qed
qed simp

lemma copy_up_eq:
  assumes "n \<le> 2 ^ 32" "\<And>i j. i < j \<Longrightarrow> j < n \<Longrightarrow> s + of_nat j \<noteq> d + of_nat i"
  shows "\<exists>m'. for_range 0 n (\<lambda>i m. Some (m(d + of_nat i := m (s + of_nat i)))) m = Some m' \<and>
    (\<forall>i<n. m' (d + of_nat i) = m (s + of_nat i)) \<and> (\<forall>a. outside a d n \<longrightarrow> m' a = m a)"
proof -
  let ?P = "\<lambda>k m'. (\<forall>i<k. m' (d + of_nat i) = m (s + of_nat i)) \<and> (\<forall>a. outside a d k \<longrightarrow> m' a = m a)"
  show ?thesis
  proof (rule for_range_inv [where P = ?P])
    fix k m'
    assume k: "k < n" and P: "?P k m'"
    have "outside (s + of_nat k) d k" using assms(2) k by (auto simp: outside_def)
    then have sk: "m' (s + of_nat k) = m (s + of_nat k)" using P by blast
    have ne: "d + of_nat i \<noteq> d + of_nat k" if "i < k" for i
      using that k assms(1) by (simp add: of_nat_u32_eq)
    have "?P (Suc k) (m'(d + of_nat k := m' (s + of_nat k)))"
    proof (intro conjI allI impI)
      show "(m'(d + of_nat k := m' (s + of_nat k))) (d + of_nat i) = m (s + of_nat i)" if "i < Suc k" for i
        using P sk ne that by (cases "i = k") auto
      show "(m'(d + of_nat k := m' (s + of_nat k))) a = m a" if "outside a d (Suc k)" for a
        using P that by (auto simp: outside_def)
    qed
    then show "\<exists>t'. Some (m'(d + of_nat k := m' (s + of_nat k))) = Some t' \<and> ?P (Suc k) t'" by blast
  qed simp_all
qed

text \<open>\<open>memmove\<close> copies the old contents, whether the regions overlap or not.\<close>

lemma memmove_eq:
  assumes d: "unat dest + unat n \<le> 2 ^ 32" and s: "unat src + unat n \<le> 2 ^ 32"
  shows "\<exists>m'. memmove dest src n m = Some m' \<and>
    bytes m' dest (unat n) = bytes m src (unat n) \<and> (\<forall>a. outside a dest (unat n) \<longrightarrow> m' a = m a)"
proof -
  have ua: "unat (p + of_nat i) = unat p + i" if "unat p + unat n \<le> 2 ^ 32" "i < unat n" for p :: u32 and i
  proof -
    have "unat (of_nat i :: u32) = i" using that(2) unat_u32_less [of n]
      by (intro unat_lt_of_nat_iff) (simp del: unat_u32_less)
    then show ?thesis using that by (subst unat_add_lem [THEN iffD1]) simp_all
  qed
  have n: "unat n \<le> 2 ^ 32" using unat_u32_less [of n] by (simp del: unat_u32_less)
  show ?thesis
  proof (cases "dest < src")
    case True
    have "src + of_nat j \<noteq> dest + of_nat i" if "i < j" "j < unat n" for i j
    proof
      assume "src + of_nat j = dest + of_nat i"
      then have "unat src + j = unat dest + i" using ua [OF s, of j] ua [OF d, of i] that by simp
      then show False using True that by (simp add: word_less_nat_alt)
    qed
    from copy_up_eq [OF n this, of m] show ?thesis
      using True by (auto simp: memmove_def bytes_def)
  next
    case False
    have ne: "dest + of_nat j \<noteq> src + of_nat i" if "i < j" "j < unat n" for i j
    proof
      assume "dest + of_nat j = src + of_nat i"
      then have "unat dest + j = unat src + i" using ua [OF d, of j] ua [OF s, of i] that by simp
      then show False using False that by (simp add: word_less_nat_alt)
    qed
    have "bytes (copy_down dest src (unat n) m) dest (unat n) = bytes m src (unat n)"
      unfolding bytes_def by (intro map_cong refl copy_down_bytes [OF n ne]) auto
    then show ?thesis using False copy_down_outside by (auto simp: memmove_def)
  qed
qed

section \<open>String copies\<close>

lemma copy_step:
  assumes "cstr m from (c # s)" "disjoint to (Suc (length (c # s))) from (Suc (length (c # s)))"
  shows "cstr (m(to := c)) (from + 1) s"
    "disjoint (to + 1) (Suc (length s)) (from + 1) (Suc (length s))" "outside to (to + 1) (Suc (length s))"
proof -
  show "disjoint (to + 1) (Suc (length s)) (from + 1) (Suc (length s))"
    using assms(2) unfolding disjoint_def
    by (intro allI impI) (drule_tac x = "Suc i" in spec, simp add: algebra_simps, drule_tac x = "Suc j" in spec, simp add: algebra_simps)
  have "to \<noteq> from + of_nat j" if "j < Suc (Suc (length s))" for j
    using disjoint_outside [OF assms(2), of 0] that by (simp add: outside_def)
  then have "cstr (m(to := c)) (from + 1) s = cstr m (from + 1) s"
    by (intro cstr_cong) (metis add.assoc fun_upd_other not_less_eq_eq not_le of_nat_Suc)
  then show "cstr (m(to := c)) (from + 1) s" using assms(1) by simp
  show "outside to (to + 1) (Suc (length s))"
    unfolding outside_def
  proof (intro allI impI)
    fix i
    assume "i < Suc (length s)"
    then have "Suc i < 2 ^ 32" using cstr_length [OF assms(1)] by simp
    then have "(of_nat 0 :: u32) \<noteq> of_nat (Suc i)" by (subst of_nat_u32_eq) auto
    then show "to \<noteq> to + 1 + of_nat i" by (simp add: add.assoc)
  qed
qed

lemma strcpy_loop_cstr:
  assumes "cstr m from s" "disjoint to (Suc (length s)) from (Suc (length s))"
  shows "\<exists>m'. strcpy_loop to from m = Some m' \<and> cstr m' to s \<and>
    (\<forall>a. outside a to (Suc (length s)) \<longrightarrow> m' a = m a)"
  using assms
proof (induction s arbitrary: to "from" m)
  case Nil
  then show ?case by (subst strcpy_loop.simps) (simp add: outside_Suc)
next
  case (Cons c s)
  note st = copy_step [OF Cons.prems]
  have c: "m from = c" "c \<noteq> 0" using Cons.prems(1) by simp_all
  obtain m' where m': "strcpy_loop (to + 1) (from + 1) (m(to := c)) = Some m'" "cstr m' (to + 1) s"
      "\<forall>a. outside a (to + 1) (Suc (length s)) \<longrightarrow> m' a = (m(to := c)) a"
    using Cons.IH [OF st(1,2)] by blast
  have "m' to = c" using m'(3) st(3) by simp
  moreover have "strcpy_loop to from m = Some m'" using c m'(1) by (subst strcpy_loop.simps) simp
  moreover have "m' a = m a" if "outside a to (Suc (length (c # s)))" for a
    using that m'(3) by (auto simp: outside_Suc [of a to])
  ultimately show ?case using m'(2) c(2) by auto
qed

lemma strcat_cstr:
  assumes "cstr m p s" "cstr m q t"
    and "disjoint (p + of_nat (length s)) (Suc (length t)) q (Suc (length t))"
    and "length s + length t < 2 ^ 32"
  shows "\<exists>m'. strcat p q m = Some m' \<and> cstr m' p (s @ t) \<and>
    (\<forall>a. outside a p (Suc (length s + length t)) \<longrightarrow> m' a = m a)"
proof -
  let ?e = "p + of_nat (length s)"
  obtain m' where m': "strcpy_loop ?e q m = Some m'" "cstr m' ?e t"
      "\<forall>a. outside a ?e (Suc (length t)) \<longrightarrow> m' a = m a"
    using strcpy_loop_cstr [OF assms(2,3)] by blast
  have "outside (p + of_nat i) ?e (Suc (length t))" if "i < length s" for i
    unfolding outside_def
  proof (intro allI impI)
    fix j
    assume "j < Suc (length t)"
    then have "(of_nat i :: u32) \<noteq> of_nat (length s + j)"
      using that assms(4) by (subst of_nat_u32_eq) auto
    then show "p + of_nat i \<noteq> ?e + of_nat j" by (simp add: add.assoc)
  qed
  then have old: "m' (p + of_nat i) = s ! i \<and> s ! i \<noteq> 0" if "i < length s" for i
    using m'(3) cstr_nth [OF assms(1) that] that by simp
  have "cstr m' p (s @ t)"
  proof (rule cstrI)
    fix i
    assume i: "i < length (s @ t)"
    show "m' (p + of_nat i) = (s @ t) ! i \<and> (s @ t) ! i \<noteq> 0"
    proof (cases "i < length s")
      case True
      then show ?thesis using old by (simp add: nth_append)
    next
      case False
      then obtain j where j: "i = length s + j" "j < length t" using i by (auto simp: not_less le_iff_add)
      then show ?thesis using cstr_nth [OF m'(2) j(2)] by (simp add: nth_append add.assoc)
    qed
  next
    show "m' (p + of_nat (length (s @ t))) = 0" using cstr_end [OF m'(2)] by (simp add: add.assoc)
  qed
  moreover have "outside a ?e (Suc (length t))" if "outside a p (Suc (length s + length t))" for a
    using that unfolding outside_def
  proof (intro allI impI)
    fix j
    assume *: "\<forall>i<Suc (length s + length t). a \<noteq> p + of_nat i" and "j < Suc (length t)"
    then have "a \<noteq> p + of_nat (length s + j)" by (intro * [rule_format]) simp
    then show "a \<noteq> ?e + of_nat j" by (simp add: add.assoc)
  qed
  ultimately show ?thesis using m'(1,3) strend_cstr [OF assms(1)] by (auto simp: strcat_def)
qed

section \<open>\<open>strncpy\<close>\<close>

lemma strncpy_pad_eq:
  "strncpy_pad to cnt m a = (if outside a to (unat cnt) then m a else 0)"
proof (induction to cnt m rule: strncpy_pad.induct)
  case (1 to cnt m)
  show ?case
  proof (cases "cnt > 0")
    case True
    then have n: "unat cnt = Suc (unat (cnt - 1))"
      by (simp add: unat_minus_one word_neq_0_conv unat_gt_0)
    have "outside to (to + 1) (unat (cnt - 1))"
      unfolding outside_def
    proof (intro allI impI)
      fix i
      assume "i < unat (cnt - 1)"
      then have "(of_nat 0 :: u32) \<noteq> of_nat (Suc i)"
        using n unat_u32_less [of cnt] by (subst of_nat_u32_eq) (auto simp del: unat_u32_less)
      then show "to \<noteq> to + 1 + of_nat i" by (simp add: add.assoc)
    qed
    moreover have "strncpy_pad to cnt m a = strncpy_pad (to + 1) (cnt - 1) (m(to := 0)) a"
      using True by (subst strncpy_pad.simps) simp
    ultimately show ?thesis using 1 [OF True] unfolding n by (auto simp: outside_Suc)
  next
    case False
    then have "cnt = 0" using word_neq_0_conv [of cnt] by blast
    then show ?thesis by (subst strncpy_pad.simps) simp
  qed
qed

text \<open>The first loop when the string ends before the count does, and when it does not.\<close>

lemma strncpy_copy_short:
  assumes "cstr m from s" "length s < unat cnt"
    and "disjoint to (Suc (length s)) from (Suc (length s))"
  shows "\<exists>m'. strncpy_copy to from cnt m = (to + of_nat (Suc (length s)), cnt - of_nat (Suc (length s)), m') \<and>
    cstr m' to s \<and> (\<forall>a. outside a to (Suc (length s)) \<longrightarrow> m' a = m a)"
  using assms
proof (induction s arbitrary: to "from" cnt m)
  case Nil
  then have "0 < cnt" by (simp add: word_less_nat_alt)
  with Nil show ?case by (subst strncpy_copy.simps) (simp add: outside_Suc)
next
  case (Cons c s)
  note st = copy_step [OF Cons.prems(1,3)]
  have c: "m from = c" "c \<noteq> 0" using Cons.prems(1) by simp_all
  have pos: "0 < cnt" using Cons.prems(2) by (simp add: word_less_nat_alt)
  then have n: "unat (cnt - 1) = unat cnt - 1" by (simp add: unat_minus_one word_neq_0_conv)
  have "length s < unat (cnt - 1)" using Cons.prems(2) n by simp
  then obtain m' where m': "strncpy_copy (to + 1) (from + 1) (cnt - 1) (m(to := c)) =
        (to + 1 + of_nat (Suc (length s)), cnt - 1 - of_nat (Suc (length s)), m')" "cstr m' (to + 1) s"
      "\<forall>a. outside a (to + 1) (Suc (length s)) \<longrightarrow> m' a = (m(to := c)) a"
    using Cons.IH [OF st(1) _ st(2)] by blast
  have "m' to = c" using m'(3) st(3) by simp
  moreover have "strncpy_copy to from cnt m = (to + of_nat (Suc (length (c # s))), cnt - of_nat (Suc (length (c # s))), m')"
    using c pos m'(1) by (subst strncpy_copy.simps) (simp add: algebra_simps)
  moreover have "m' a = m a" if "outside a to (Suc (length (c # s)))" for a
    using that m'(3) by (auto simp: outside_Suc [of a to])
  ultimately show ?case using m'(2) c(2) by auto
qed

lemma strncpy_copy_long:
  assumes "unat cnt = n" "\<And>i. i < n \<Longrightarrow> m (from + of_nat i) \<noteq> 0" "disjoint to n from n"
  shows "\<exists>m'. strncpy_copy to from cnt m = (to + cnt, - 1, m')"
  using assms
proof (induction n arbitrary: to "from" cnt m)
  case 0
  then have "cnt = 0" by (simp add: unat_eq_0)
  then show ?case by (subst strncpy_copy.simps) simp
next
  case (Suc n)
  then have pos: "0 < cnt" by (simp add: word_less_nat_alt)
  then have n: "unat (cnt - 1) = n" using Suc.prems(1) by (simp add: unat_minus_one word_neq_0_conv)
  have f: "m from \<noteq> 0" using Suc.prems(2) [of 0] by simp
  have "to + of_nat 0 \<noteq> from + of_nat (Suc i)" if "i < n" for i
    using Suc.prems(3) that unfolding disjoint_def by blast
  then have "(m(to := m from)) (from + 1 + of_nat i) \<noteq> 0" if "i < n" for i
    using Suc.prems(2) [of "Suc i"] that by (auto simp: add.assoc)
  moreover have "disjoint (to + 1) n (from + 1) n"
    using Suc.prems(3) unfolding disjoint_def
    by (intro allI impI) (drule_tac x = "Suc i" in spec, simp, drule_tac x = "Suc j" in spec, simp add: algebra_simps)
  ultimately obtain m' where "strncpy_copy (to + 1) (from + 1) (cnt - 1) (m(to := m from)) = (to + 1 + (cnt - 1), - 1, m')"
    using Suc.IH [OF n, of "m(to := m from)" "from + 1" "to + 1"] by blast
  then show ?case using pos f by (subst strncpy_copy.simps) simp
qed

text \<open>
  The count is 0 when the first loop ends without a terminator, and is decremented once more: the
  second loop then writes \<open>2 ^ 32 - 1\<close> zeros.
\<close>

lemma outside_all:
  assumes "outside a p (2 ^ 32 - 1)"
  shows "a = p - 1"
proof (rule ccontr)
  assume "a \<noteq> p - 1"
  then have "a - p \<noteq> - 1" by (metis diff_add_cancel add.commute uminus_add_conv_diff)
  have "unat (a - p) \<noteq> 2 ^ 32 - 1"
  proof
    assume "unat (a - p) = 2 ^ 32 - 1"
    moreover have "unat (- 1 :: u32) = 2 ^ 32 - 1" by (simp add: unsigned_minus_1_eq_mask mask_eq_exp_minus_1)
    ultimately show False using \<open>a - p \<noteq> - 1\<close> by (metis unsigned_word_eqI)
  qed
  then have "unat (a - p) < 2 ^ 32 - 1" using unat_u32_less [of "a - p"] by (simp del: unat_u32_less)
  with assms have "a \<noteq> p + of_nat (unat (a - p))" unfolding outside_def by blast
  then show False by simp
qed

lemma strncpy_erases:
  assumes "unat cnt \<le> length s" "cstr m from s" "disjoint to (unat cnt) from (unat cnt)"
    and "a \<noteq> to + cnt - 1"
  shows "strncpy to from cnt m a = 0"
proof -
  have "m (from + of_nat i) \<noteq> 0" if "i < unat cnt" for i
    using cstr_nth [OF assms(2), of i] assms(1) that by simp
  then obtain m' where m': "strncpy_copy to from cnt m = (to + cnt, - 1, m')"
    using strncpy_copy_long [OF refl _ assms(3)] by blast
  have "unat (- 1 :: u32) = 2 ^ 32 - 1" by (simp add: unsigned_minus_1_eq_mask mask_eq_exp_minus_1)
  then have "\<not> outside a (to + cnt) (unat (- 1 :: u32))"
    using outside_all [of a "to + cnt"] assms(4) by metis
  then show ?thesis unfolding strncpy_def m' by (simp only: prod.case strncpy_pad_eq if_False)
qed

text \<open>The count above the length: the string, then zeros, and nothing else changes.\<close>

lemma strncpy_fits:
  assumes "cstr m from s" "length s < unat cnt" "disjoint to (Suc (length s)) from (Suc (length s))"
  shows "bytes (strncpy to from cnt m) to (unat cnt) = s @ replicate (unat cnt - length s) 0"
    "outside a to (unat cnt) \<Longrightarrow> strncpy to from cnt m a = m a"
proof -
  let ?l = "Suc (length s)" and ?k = "unat cnt - Suc (length s)"
  obtain m' where m': "strncpy_copy to from cnt m = (to + of_nat ?l, cnt - of_nat ?l, m')" "cstr m' to s"
      "\<forall>a. outside a to ?l \<longrightarrow> m' a = m a"
    using strncpy_copy_short [OF assms] by blast
  have "unat (of_nat ?l :: u32) = ?l"
    using assms(2) unat_u32_less [of cnt] by (intro unat_lt_of_nat_iff) (simp del: unat_u32_less)
  then have k: "unat (cnt - of_nat ?l) = ?k"
    using assms(2) by (subst unat_sub) (simp_all add: word_le_nat_alt)
  have run: "strncpy to from cnt m a = (if outside a (to + of_nat ?l) ?k then m' a else 0)" for a
    unfolding strncpy_def m' by (simp only: prod.case strncpy_pad_eq k)
  have out: "outside (to + of_nat i) (to + of_nat ?l) ?k" if "i < ?l" for i
    unfolding outside_def
  proof (intro allI impI)
    fix j
    assume "j < ?k"
    then have "(of_nat i :: u32) \<noteq> of_nat (?l + j)"
      using that unat_u32_less [of cnt] by (subst of_nat_u32_eq) (auto simp del: unat_u32_less)
    then show "to + of_nat i \<noteq> to + of_nat ?l + of_nat j" by (simp only: of_nat_add add.assoc) simp
  qed
  have nth: "strncpy to from cnt m (to + of_nat i) = (s @ replicate (unat cnt - length s) 0) ! i" if "i < unat cnt" for i
  proof (cases "i < length s")
    case True
    then show ?thesis using run out [of i] cstr_nth [OF m'(2) True] by (simp add: nth_append)
  next
    case False
    show ?thesis
    proof (cases "i = length s")
      case True
      then show ?thesis using run out [of i] cstr_end [OF m'(2)] that by (simp add: nth_append)
    next
      case False
      then have "\<exists>j<?k. i = ?l + j" using \<open>\<not> i < length s\<close> that by (intro exI [of _ "i - ?l"]) auto
      then have "\<not> outside (to + of_nat i) (to + of_nat ?l) ?k"
        by (auto simp: outside_def add.assoc)
      then show ?thesis using run that \<open>\<not> i < length s\<close> by (simp add: nth_append)
    qed
  qed
  then show "bytes (strncpy to from cnt m) to (unat cnt) = s @ replicate (unat cnt - length s) 0"
    using assms(2) by (intro nth_equalityI) (simp_all add: bytes_def)
  show "strncpy to from cnt m a = m a" if "outside a to (unat cnt)"
  proof -
    have "outside a (to + of_nat ?l) ?k"
      unfolding outside_def
    proof (intro allI impI)
      fix j
      assume "j < ?k"
      then have "?l + j < unat cnt" by linarith
      then have "a \<noteq> to + of_nat (?l + j)" using that unfolding outside_def by blast
      then show "a \<noteq> to + of_nat ?l + of_nat j" by (simp only: of_nat_add add.assoc) simp
    qed
    moreover have "m' a = m a" using m'(3) outside_mono [OF that] assms(2) by simp
    ultimately show ?thesis using run by simp
  qed
qed

section \<open>Comparison\<close>

text \<open>The difference of the first bytes that differ, where a string ends in a 0.\<close>

fun str_diff :: "u8 list \<Rightarrow> u8 list \<Rightarrow> int" where
  "str_diff [] [] = 0"
| "str_diff [] (b # bs) = - uint b"
| "str_diff (a # as) [] = uint a"
| "str_diff (a # as) (b # bs) = (if a = b then str_diff as bs else uint a - uint b)"

lemma ucast_uint: "(ucast (a :: u8) :: u32) = of_int (uint a)"
  by (rule ucast_eq)

lemma unat_ucast_u8 [simp]: "unat (ucast (a :: u8) :: u32) = unat a"
proof -
  have "unat a < 2 ^ 32" by (rule less_trans [OF unat_u8_less]) simp
  then show ?thesis by (simp add: unsigned_ucast_eq take_bit_nat_eq_self)
qed

lemma ucast_u8_eq [simp]: "((ucast (a :: u8) :: u32) = ucast b) = (a = b)"
  by (metis unat_ucast_u8 unsigned_word_eqI)

lemma ucast_u8_0 [simp]: "((ucast (a :: u8) :: u32) = 0) = (a = 0)"
  using ucast_u8_eq [of a 0] by simp

lemma strcmp_cstr: "cstr m p s \<Longrightarrow> cstr m q t \<Longrightarrow> strcmp m p q = Some (of_int (str_diff s t))"
proof (induction s t arbitrary: p q rule: str_diff.induct)
  case 1
  then show ?case by (subst strcmp.simps) simp
next
  case (2 b bs)
  then show ?case by (subst strcmp.simps) (simp add: Let_def ucast_uint [symmetric])
next
  case (3 a as)
  then show ?case by (subst strcmp.simps) (simp add: Let_def ucast_uint [symmetric])
next
  case (4 a as b bs)
  then show ?case by (subst strcmp.simps) (auto simp: Let_def ucast_uint [symmetric])
qed

lemma str_diff_0: "str_diff s t = 0 \<Longrightarrow> 0 \<notin> set s \<Longrightarrow> 0 \<notin> set t \<Longrightarrow> s = t"
  by (induction s t rule: str_diff.induct) (auto simp: uint_0_iff dest: word_uint_eqI split: if_splits)

lemma str_diff_refl [simp]: "str_diff s s = 0"
  by (induction s) simp_all

lemma str_diff_less:
  "0 \<notin> set s \<Longrightarrow> 0 \<notin> set t \<Longrightarrow> str_diff s t < 0 \<longleftrightarrow> (s, t) \<in> lexord {(a, b). a < b}"
proof (induction s t rule: str_diff.induct)
  case (2 b bs)
  then have "0 < uint b" using uint_ge_0 [of b] by (auto simp: order.order_iff_strict uint_0_iff)
  then show ?case by simp
next
  case (3 a as)
  then show ?case using uint_ge_0 [of a] by simp
next
  case (4 a as b bs)
  then show ?case by (auto simp: word_less_def)
qed simp

lemma uint_u8: "0 \<le> uint (a :: u8) \<and> uint a < 256"
  using uint_lt2p [of a] by simp

lemma uint_u8_gt: "- 256 < uint (a :: u8)"
  using uint_u8 [of a] by linarith

lemma str_diff_range: "- 256 < str_diff s t \<and> str_diff s t < 256"
proof (induction s t rule: str_diff.induct)
  case (4 a as b bs)
  show ?case
  proof (cases "a = b")
    case False
    then have "str_diff (a # as) (b # bs) = uint a - uint b" by simp
    then show ?thesis using uint_u8 [of a] uint_u8 [of b] by linarith
  qed (use 4 in simp)
qed (use uint_u8 uint_u8_gt in \<open>auto intro: le_less_trans [of _ 0]\<close>)

lemma sint_small: "- 2147483648 \<le> i \<Longrightarrow> i < 2147483648 \<Longrightarrow> sint (of_int i :: u32) = i"
  by (simp add: signed_of_int signed_take_bit_int_eq_self)

lemma memcmp_loop_0: "memcmp_loop m p q n = 0 \<longleftrightarrow> bytes m p n = bytes m q n"
proof (induction n arbitrary: p q)
  case (Suc n)
  have cons: "bytes m p (Suc n) = m p # bytes m (p + 1) n" for p
    unfolding bytes_def upt_conv_Cons [OF zero_less_Suc]
    by (simp add: map_Suc_upt [symmetric] add.assoc del: upt_Suc)
  show ?case using Suc.IH [of "p + 1" "q + 1"] by (simp add: Let_def cons)
qed simp

section \<open>Search\<close>

lemma strchr_cstr:
  "cstr m p s \<Longrightarrow> strchr m p (ucast c) =
     Some (if c = 0 \<or> c \<in> set s then p + of_nat (length (takeWhile (\<lambda>x. x \<noteq> c) s)) else 0)"
proof (induction s arbitrary: p)
  case Nil
  then show ?case by (subst strchr.simps) (auto simp: eq_commute [of 0])
next
  case (Cons x s)
  then show ?case by (subst strchr.simps) (auto simp: algebra_simps)
qed

lemma takeWhile_shorter: "\<exists>x\<in>set xs. \<not> P x \<Longrightarrow> length (takeWhile P xs) < length xs"
  by (induction xs) auto

lemma strrchr_loop_cstr:
  "cstr m p s \<Longrightarrow> strrchr_loop m p (ucast c) save =
     Some (if c \<in> set s then p + of_nat (length s - Suc (length (takeWhile (\<lambda>x. x \<noteq> c) (rev s)))) else save)"
proof (induction s arbitrary: p save)
  case Nil
  then show ?case by (subst strrchr_loop.simps) simp
next
  case (Cons x s)
  show ?case
  proof (cases "c \<in> set s")
    case True
    then have "length (takeWhile (\<lambda>x. x \<noteq> c) (rev s)) < length (rev s)"
      by (intro takeWhile_shorter) auto
    moreover have "takeWhile (\<lambda>x. x \<noteq> c) (rev (x # s)) = takeWhile (\<lambda>x. x \<noteq> c) (rev s)"
      using True by (simp add: takeWhile_append1)
    ultimately show ?thesis using Cons True
      by (subst strrchr_loop.simps) (simp add: of_nat_diff Suc_leI algebra_simps)
  next
    case False
    then have "x = c \<Longrightarrow> takeWhile (\<lambda>x. x \<noteq> c) (rev s @ [x]) = rev s"
      by (subst takeWhile_append2) auto
    then show ?thesis using Cons False by (subst strrchr_loop.simps) auto
  qed
qed

lemma span_test_cstr: "cstr m p t \<Longrightarrow> span_test m p c = Some (c \<in> set t)"
proof (induction t arbitrary: p)
  case Nil
  then show ?case by (subst span_test.simps) simp
next
  case (Cons x t)
  then show ?case by (subst span_test.simps) auto
qed

lemma cspan_test_cstr: "cstr m p t \<Longrightarrow> cspan_test m p c = Some (c = 0 \<or> c \<in> set t)"
proof (induction t arbitrary: p)
  case Nil
  then show ?case by (subst cspan_test.simps) auto
next
  case (Cons x t)
  then show ?case by (subst cspan_test.simps) auto
qed

lemma cstr_no_0: "cstr m p s \<Longrightarrow> 0 \<notin> set s"
  by (induction s arbitrary: p) auto

lemma strspn_loop_cstr:
  assumes "cstr m q t"
  shows "cstr m p s \<Longrightarrow> strspn_loop m p q = Some (p + of_nat (length (takeWhile (\<lambda>x. x \<in> set t) s)) + 1)"
proof (induction s arbitrary: p)
  case Nil
  then show ?case using cstr_no_0 [OF assms] by (subst strspn_loop.simps) (simp add: span_test_cstr [OF assms])
next
  case (Cons x s)
  then show ?case by (subst strspn_loop.simps) (simp add: span_test_cstr [OF assms] algebra_simps)
qed

lemma strcspn_loop_cstr:
  assumes "cstr m q t"
  shows "cstr m p s \<Longrightarrow> strcspn_loop m p q = Some (p + of_nat (length (takeWhile (\<lambda>x. x \<notin> set t) s)) + 1)"
proof (induction s arbitrary: p)
  case Nil
  then show ?case by (subst strcspn_loop.simps) (simp add: cspan_test_cstr [OF assms])
next
  case (Cons x s)
  then show ?case by (subst strcspn_loop.simps) (simp add: cspan_test_cstr [OF assms] algebra_simps)
qed

lemma strpbrk_cstr:
  assumes "cstr m q t"
  shows "cstr m p s \<Longrightarrow> strpbrk m p q =
    Some (if set s \<inter> set t \<noteq> {} then p + of_nat (length (takeWhile (\<lambda>x. x \<notin> set t) s)) else 0)"
proof (induction s arbitrary: p)
  case Nil
  then show ?case by (subst strpbrk.simps) simp
next
  case (Cons x s)
  then show ?case by (subst strpbrk.simps) (auto simp: span_test_cstr [OF assms] algebra_simps)
qed

section \<open>\<open>strstr\<close>\<close>

text \<open>The position of the first occurrence of a list in another one.\<close>

fun occurrence :: "u8 list \<Rightarrow> u8 list \<Rightarrow> nat option" where
  "occurrence n [] = (if n = [] then Some 0 else None)"
| "occurrence n (c # cs) =
     (if take (length n) (c # cs) = n then Some 0 else map_option Suc (occurrence n cs))"

lemma occurrence_short: "length h < length n \<Longrightarrow> occurrence n h = None"
proof (induction n h rule: occurrence.induct)
  case (2 n c cs)
  have "take (length n) (c # cs) \<noteq> n"
  proof
    assume "take (length n) (c # cs) = n"
    then have "length (take (length n) (c # cs)) = length n" by simp
    then show False using 2(2) by simp
  qed
  then show ?case using 2 by simp
qed simp

lemma occurrence_first:
  "occurrence n h = Some i \<Longrightarrow> take (length n) (drop i h) = n \<and> (\<forall>j<i. take (length n) (drop j h) \<noteq> n)"
proof (induction n h arbitrary: i rule: occurrence.induct)
  case (2 n c cs)
  then show ?case by (auto simp: less_Suc_eq_0_disj split: if_splits)
qed (simp split: if_splits)

lemma occurrence_None:
  "occurrence n h = None \<Longrightarrow> i \<le> length h \<Longrightarrow> take (length n) (drop i h) \<noteq> n"
proof (induction n h arbitrary: i rule: occurrence.induct)
  case (2 n c cs)
  then show ?case by (cases i) (auto split: if_splits)
qed (auto split: if_splits)

lemma occurrence_le: "occurrence n h = Some i \<Longrightarrow> i \<le> length h"
  by (induction n h arbitrary: i rule: occurrence.induct) (auto split: if_splits)

lemma bytes_prefix: "cstr m p s \<Longrightarrow> k \<le> length s \<Longrightarrow> bytes m p k = take k s"
  by (rule nth_equalityI) (simp_all add: bytes_def cstr_nth)

lemma strstr_loop_cstr:
  assumes "cstr m q n"
  shows "cstr m p h \<Longrightarrow> strstr_loop m p (int (length h)) q (int (length n)) =
    (case occurrence n h of Some i \<Rightarrow> p + of_nat i | None \<Rightarrow> 0)"
proof (induction h arbitrary: p)
  case Nil
  have n: "unat (of_nat (length n) :: u32) = length n" using cstr_length_u32 [OF assms] .
  show ?case
  proof (cases n)
    case Nil
    then show ?thesis by (subst strstr_loop.simps) (simp add: memcmp_def)
  next
    case (Cons a list)
    then show ?thesis by (subst strstr_loop.simps) simp
  qed
next
  case (Cons c h)
  have un: "unat (of_nat (length n) :: u32) = length n" using cstr_length_u32 [OF assms] .
  show ?case
  proof (cases "length n \<le> length (c # h)")
    case False
    then show ?thesis using occurrence_short [of "c # h" n] by (subst strstr_loop.simps) simp
  next
    case True
    have eq: "memcmp m p q (of_nat (length n)) = 0 \<longleftrightarrow> take (length n) (c # h) = n"
      unfolding memcmp_def un memcmp_loop_0
      using bytes_prefix [OF Cons.prems True] bytes_prefix [OF assms, of "length n"] by simp
    have "strstr_loop m p (int (length (c # h))) q (int (length n)) =
        (if take (length n) (c # h) = n then p else strstr_loop m (p + 1) (int (length h)) q (int (length n)))"
      using True eq by (subst strstr_loop.simps) simp
    then show ?thesis
      using Cons.IH [of "p + 1"] Cons.prems by (auto simp: algebra_simps split: option.splits)
  qed
qed

lemma strstr_cstr:
  assumes "cstr m p h" "cstr m q n" "length h < 2 ^ 31" "length n < 2 ^ 31"
  shows "strstr m p q = Some (case occurrence n h of Some i \<Rightarrow> p + of_nat i | None \<Rightarrow> 0)"
proof -
  have "sint (of_nat k :: u32) = int k" if "k < 2 ^ 31" for k
    using sint_small [of "int k"] that by simp
  then show ?thesis
    using strstr_loop_cstr [OF assms(2,1)] assms by (simp add: strstr_def strlen_cstr)
qed

end
