(* ===== verification/LibC_Stdlib.thy ===== *)
theory LibC_Stdlib
  imports LibC_String
begin

text \<open>
  tasks/libc/include/ctype.h (the kernel has the same file) and tasks/libc/stdlib: character
  predicates, the number parsers and the random generator. Arithmetic on \<open>long\<close> wraps around.
\<close>

section \<open>Character predicates\<close>

text \<open>The argument is an \<open>int\<close>.\<close>

definition c_isascii :: "int \<Rightarrow> bool" where "c_isascii c \<longleftrightarrow> 0 \<le> c \<and> c \<le> 127"
definition c_iscntrl :: "int \<Rightarrow> bool" where "c_iscntrl c \<longleftrightarrow> c < 32 \<or> c > 126"
definition c_isdigit :: "int \<Rightarrow> bool" where "c_isdigit c \<longleftrightarrow> 48 \<le> c \<and> c \<le> 57"
definition c_isgraph :: "int \<Rightarrow> bool" where "c_isgraph c \<longleftrightarrow> c > 32 \<and> c \<le> 126"
definition c_islower :: "int \<Rightarrow> bool" where "c_islower c \<longleftrightarrow> 97 \<le> c \<and> c \<le> 122"
definition c_isprint :: "int \<Rightarrow> bool" where "c_isprint c \<longleftrightarrow> 32 \<le> c \<and> c \<le> 126"
definition c_isspace :: "int \<Rightarrow> bool" where
  "c_isspace c \<longleftrightarrow> c = 32 \<or> c = 12 \<or> c = 10 \<or> c = 10 \<or> c = 13 \<or> c = 9 \<or> c = 11"
definition c_isupper :: "int \<Rightarrow> bool" where "c_isupper c \<longleftrightarrow> 65 \<le> c \<and> c \<le> 90"
definition c_isxdigit :: "int \<Rightarrow> bool" where
  "c_isxdigit c \<longleftrightarrow> c_isdigit c \<or> (65 \<le> c \<and> c \<le> 70) \<or> (97 \<le> c \<and> c \<le> 102)"
definition c_isalpha :: "int \<Rightarrow> bool" where "c_isalpha c \<longleftrightarrow> c_islower c \<or> c_isupper c"
definition c_isalnum :: "int \<Rightarrow> bool" where "c_isalnum c \<longleftrightarrow> c_isalpha c \<or> c_isdigit c"
definition c_ispunct :: "int \<Rightarrow> bool" where "c_ispunct c \<longleftrightarrow> c_isgraph c \<and> \<not> c_isalnum c"
definition c_toupper :: "int \<Rightarrow> int" where "c_toupper c = (if c_islower c then c - 97 + 65 else c)"
definition c_tolower :: "int \<Rightarrow> int" where "c_tolower c = (if c_isupper c then c - 65 + 97 else c)"

section \<open>Number parsers\<close>

partial_function (option) atol_loop :: "memory \<Rightarrow> u32 \<Rightarrow> u32 \<Rightarrow> u32 option" where
  "atol_loop m str n =
     (if c_isdigit (uint (m str)) then atol_loop m (str + 1) (n * 10 + ucast (m str) - 48) else Some n)"

definition atol :: "memory \<Rightarrow> u32 \<Rightarrow> u32 option" where
  "atol m str = atol_loop m str 0"

definition atoi :: "memory \<Rightarrow> u32 \<Rightarrow> u32 option" where
  "atoi m str = atol m str"

partial_function (option) skip_space :: "memory \<Rightarrow> u32 \<Rightarrow> u32 option" where
  "skip_space m p = (if c_isspace (uint (m p)) then skip_space m (p + 1) else Some p)"

text \<open>The three digit cases of the loop; the quotient of the base is an \<open>int\<close>.\<close>

definition digit_of :: "int \<Rightarrow> int \<Rightarrow> int option" where
  "digit_of base c =
     (if 48 \<le> c \<and> c \<le> 57 \<and> c - 48 < base then Some (c - 48)
      else if 97 \<le> c \<and> c \<le> 122 \<and> c - 97 + 10 < base then Some (c - 97 + 10)
      else if 65 \<le> c \<and> c \<le> 90 \<and> c - 65 + 10 < base then Some (c - 65 + 10)
      else None)"

partial_function (option) digits_loop :: "memory \<Rightarrow> u32 \<Rightarrow> int \<Rightarrow> u32 \<Rightarrow> (u32 \<times> u32) option" where
  "digits_loop m p base v =
     (case digit_of base (uint (m p)) of
        Some d \<Rightarrow> digits_loop m (p + 1) base (v * of_int base + of_int d)
      | None \<Rightarrow> Some (v, p))"

text \<open>The base prefix: \<open>0x\<close> is skipped for base 16 and 0, then base 0 is decided by a leading 0.\<close>

definition base_prefix :: "memory \<Rightarrow> u32 \<Rightarrow> int \<Rightarrow> u32 \<times> int" where
  "base_prefix m p base =
     (let (p, base) = (if (base = 16 \<or> base = 0) \<and> m p = 48 \<and> (m (p + 1) = 120 \<or> m (p + 1) = 88)
                       then (p + 2, 16) else (p, base));
          base = (if base = 0 then (if m p = 48 then 8 else 10) else base)
      in (p, base))"

text \<open>Both return the value and the pointer that \<open>out_p\<close> receives.\<close>

definition strtoul :: "memory \<Rightarrow> u32 \<Rightarrow> int \<Rightarrow> (u32 \<times> u32) option" where
  "strtoul m p0 base0 = do {
     p \<leftarrow> skip_space m p0;
     let (p, base) = base_prefix m p base0;
     digits_loop m p base 0 }"

definition strtol :: "memory \<Rightarrow> u32 \<Rightarrow> int \<Rightarrow> (u32 \<times> u32) option" where
  "strtol m p0 base0 = do {
     p \<leftarrow> skip_space m p0;
     let (is_neg, p) = (if m p = 45 then (True, p + 1)
                        else if m p = 43 then (False, p) else (False, p));
     let (p, base) = base_prefix m p base0;
     (v, p) \<leftarrow> digits_loop m p base 0;
     Some (if is_neg then - v else v, p) }"

section \<open>Random numbers\<close>

type_synonym seed = "u32 \<times> u32"

definition srand :: "u32 \<Rightarrow> seed" where
  "srand new_seed = (new_seed, new_seed)"

definition rand :: "seed \<Rightarrow> u32 \<times> seed" where
  "rand = (\<lambda>(seed0, seed1).
     let seed0 = seed0 + 0xa859c317;
         seed0 = seed0 + (push_bit 13 seed1 OR drop_bit 19 seed1);
         seed1 = seed1 + seed0
     in (seed0 AND 0x7FFFFFFF, (seed0, seed1)))"

section \<open>Characters\<close>

lemma c_case_roundtrip:
  "c_islower c \<Longrightarrow> c_tolower (c_toupper c) = c" "c_isupper c \<Longrightarrow> c_toupper (c_tolower c) = c"
  by (auto simp: c_islower_def c_isupper_def c_toupper_def c_tolower_def)

section \<open>Parsing\<close>

lemma skip_space_cstr:
  "cstr m p s \<Longrightarrow> skip_space m p = Some (p + of_nat (length (takeWhile (\<lambda>c. c_isspace (uint c)) s)))"
proof (induction s arbitrary: p)
  case Nil
  then show ?case by (subst skip_space.simps) (simp add: c_isspace_def)
next
  case (Cons c s)
  then show ?case by (subst skip_space.simps) (simp add: algebra_simps)
qed

lemma cstr_drop: "cstr m p s \<Longrightarrow> n \<le> length s \<Longrightarrow> cstr m (p + of_nat n) (drop n s)"
proof (induction n arbitrary: p s)
  case (Suc n)
  then show ?case using Suc.IH [of "p + 1" "tl s"] by (cases s) (simp_all add: algebra_simps)
qed simp

definition is_digit :: "int \<Rightarrow> u8 \<Rightarrow> bool" where
  "is_digit base c \<longleftrightarrow> digit_of base (uint c) \<noteq> None"

definition value_of :: "int \<Rightarrow> int \<Rightarrow> u8 list \<Rightarrow> int" where
  "value_of base v ds = foldl (\<lambda>v c. v * base + the (digit_of base (uint c))) v ds"

lemma digits_loop_cstr:
  "cstr m p s \<Longrightarrow> digits_loop m p base v =
     Some (foldl (\<lambda>v c. v * of_int base + of_int (the (digit_of base (uint c)))) v (takeWhile (is_digit base) s),
       p + of_nat (length (takeWhile (is_digit base) s)))"
proof (induction s arbitrary: p v)
  case Nil
  then show ?case by (subst digits_loop.simps) (simp add: digit_of_def)
next
  case (Cons c s)
  show ?case
  proof (cases "digit_of base (uint c)")
    case None
    then have "\<not> is_digit base c" by (simp add: is_digit_def)
    with None Cons.prems show ?thesis by (subst digits_loop.simps) simp
  next
    case (Some d)
    then have "is_digit base c" by (simp add: is_digit_def)
    with Some Cons show ?thesis by (subst digits_loop.simps) (simp add: algebra_simps)
  qed
qed

lemma value_of_word:
  "foldl (\<lambda>v c. v * of_int base + of_int (the (digit_of base (uint c)))) (of_int v) ds = (of_int (value_of base v ds) :: u32)"
  unfolding value_of_def
proof (induction ds arbitrary: v)
  case (Cons c ds)
  from Cons.IH [of "v * base + the (digit_of base (uint c))"] show ?case by simp
qed simp

text \<open>
  What both parsers accept, for a base from 1 to 36 without prefix: white space, then digits. The
  value is the number modulo \<open>2 ^ 32\<close> and the pointer is behind the digits.
\<close>

lemma strtoul_cstr:
  assumes "cstr m p (ws @ ds @ rest)" "\<forall>c\<in>set ws. c_isspace (uint c)" "\<forall>c\<in>set ds. is_digit base c"
    and "rest = [] \<or> \<not> is_digit base (rest ! 0)" "ds @ rest = [] \<or> \<not> c_isspace (uint ((ds @ rest) ! 0))"
    and "base \<noteq> 0" "base \<noteq> 16"
  shows "strtoul m p base = Some (of_int (value_of base 0 ds), p + of_nat (length ws + length ds))"
proof -
  have tw: "takeWhile P (xs @ ys) = xs" if "\<forall>c\<in>set xs. P c" "ys = [] \<or> \<not> P (ys ! 0)" for P and xs ys :: "u8 list"
    using that by (cases ys) simp_all
  have "skip_space m p = Some (p + of_nat (length ws))"
    using skip_space_cstr [OF assms(1)] tw [OF assms(2,5)] by simp
  moreover have "base_prefix m q base = (q, base)" for q using assms(6,7) by (simp add: base_prefix_def)
  moreover have "cstr m (p + of_nat (length ws)) (ds @ rest)"
    using cstr_drop [OF assms(1), of "length ws"] by simp
  from digits_loop_cstr [OF this, of base 0] tw [OF assms(3,4)] value_of_word [of base 0 ds]
  have "digits_loop m (p + of_nat (length ws)) base 0 =
      Some (of_int (value_of base 0 ds), p + of_nat (length ws) + of_nat (length ds))" by simp
  ultimately show ?thesis by (simp add: strtoul_def add.assoc)
qed

lemma strtol_cstr:
  assumes "cstr m p (ws @ 45 # ds @ rest)" "\<forall>c\<in>set ws. c_isspace (uint c)" "\<forall>c\<in>set ds. is_digit base c"
    and "rest = [] \<or> \<not> is_digit base (rest ! 0)" "base \<noteq> 0" "base \<noteq> 16"
  shows "strtol m p base = Some (- of_int (value_of base 0 ds), p + of_nat (length ws + 1 + length ds))"
proof -
  have tw: "takeWhile P (xs @ ys) = xs" if "\<forall>c\<in>set xs. P c" "ys = [] \<or> \<not> P (ys ! 0)" for P and xs ys :: "u8 list"
    using that by (cases ys) simp_all
  have "\<not> c_isspace (uint (45 :: u8))" by (simp add: c_isspace_def)
  then have "skip_space m p = Some (p + of_nat (length ws))"
    using skip_space_cstr [OF assms(1)] tw [OF assms(2), of "45 # ds @ rest"] by simp
  moreover have "m (p + of_nat (length ws)) = 45"
    using cstr_nth [OF assms(1), of "length ws"] by (simp add: nth_append)
  moreover have "base_prefix m q base = (q, base)" for q using assms(5,6) by (simp add: base_prefix_def)
  moreover have "cstr m (p + of_nat (Suc (length ws))) (ds @ rest)"
    using cstr_drop [OF assms(1), of "Suc (length ws)"] by simp
  from digits_loop_cstr [OF this, of base 0] tw [OF assms(3,4)] value_of_word [of base 0 ds]
  have "digits_loop m (p + of_nat (length ws) + 1) base 0 =
      Some (of_int (value_of base 0 ds), p + of_nat (length ws) + 1 + of_nat (length ds))"
    by (simp add: algebra_simps)
  ultimately show ?thesis by (simp add: strtol_def algebra_simps)
qed

text \<open>Digits without a sign, for bases without prefix.\<close>

lemma strtol_unsigned:
  assumes "cstr m p (ds @ rest)" "\<forall>c\<in>set ds. is_digit base c" "ds \<noteq> []"
    and "rest = [] \<or> \<not> is_digit base (rest ! 0)" "base \<noteq> 0" "base \<noteq> 16"
  shows "strtol m p base = Some (of_int (value_of base 0 ds), p + of_nat (length ds))"
proof -
  obtain d ds' where ds: "ds = d # ds'" using assms(3) by (cases ds) auto
  then have d: "m p = d" "is_digit base d" using assms(1,2) by auto
  then have nd: "\<not> c_isspace (uint d)" "d \<noteq> 45" "d \<noteq> 43"
    by (auto simp: is_digit_def digit_of_def c_isspace_def split: if_splits)
  have "skip_space m p = Some p" using d(1) nd(1) by (subst skip_space.simps) simp
  moreover have "base_prefix m p base = (p, base)" using assms(5,6) by (simp add: base_prefix_def)
  moreover have "takeWhile (is_digit base) (ds @ rest) = ds"
    using assms(2,4) by (cases rest) simp_all
  with digits_loop_cstr [OF assms(1), of base 0] value_of_word [of base 0 ds]
  have "digits_loop m p base 0 = Some (of_int (value_of base 0 ds), p + of_nat (length ds))" by simp
  ultimately show ?thesis using d(1) nd by (simp add: strtol_def)
qed

text \<open>A plus sign is recognised but not skipped, so the number behind it is not read.\<close>

lemma strtol_plus:
  assumes "cstr m p (43 # s)" "base \<noteq> 0" "base \<noteq> 16"
  shows "strtol m p base = Some (0, p)"
proof -
  have "m p = 43" using assms(1) by simp
  moreover have "skip_space m p = Some p" using \<open>m p = 43\<close> by (subst skip_space.simps) (simp add: c_isspace_def)
  moreover have "base_prefix m p base = (p, base)" using assms(2,3) by (simp add: base_prefix_def)
  moreover have "digits_loop m p base 0 = Some (0, p)"
    using \<open>m p = 43\<close> by (subst digits_loop.simps) (simp add: digit_of_def)
  ultimately show ?thesis by (simp add: strtol_def)
qed

end
