(* ===== verification/Doprnt.thy ===== *)
theory Doprnt
  imports LibC_Stdlib
begin

text \<open>
  tasks/libc/stdio/doprnt.c: the formatter behind \<open>printf\<close> and \<open>sprintf\<close>. The state \<open>'s\<close> is what the
  callback \<open>putc\<close> changes; \<open>rd\<close> reads memory in a state, because the callback may write to memory
  that holds the format. An argument list is a list of typed values. There is no result where C
  leaves the behaviour open: an argument of another type, a number that leaves the range of
  \<open>int\<close>, more digits than the buffer holds, a base of 0 or over 17, an impossible shift.
\<close>

section \<open>The code\<close>

datatype va = Word u32 | Dword u64 | Tid u32 u32

fun va_word :: "va list \<Rightarrow> (u32 \<times> va list) option" where
  "va_word (Word w # args) = Some (w, args)"
| "va_word _ = None"

fun va_dword :: "va list \<Rightarrow> (u64 \<times> va list) option" where
  "va_dword (Dword w # args) = Some (w, args)"
| "va_dword _ = None"

fun va_tid :: "va list \<Rightarrow> ((u32 \<times> u32) \<times> va list) option" where
  "va_tid (Tid high low # args) = Some ((high, low), args)"
| "va_tid _ = None"

text \<open>\<open>isdigit\<close> and \<open>Ctod\<close>.\<close>

definition dec_digit :: "u8 \<Rightarrow> bool" where
  "dec_digit d \<longleftrightarrow> d \<ge> 48 \<and> d \<le> 57"

definition Ctod :: "u8 \<Rightarrow> int" where
  "Ctod c = uint c - 48"

definition MAXBUF :: nat where "MAXBUF = 32"

text \<open>\<open>0123456789abcdef\<close> and its terminator.\<close>

definition digs :: "u8 list" where
  "digs = [48, 49, 50, 51, 52, 53, 54, 55, 56, 57, 97, 98, 99, 100, 101, 102, 0]"

subsection \<open>Numbers\<close>

text \<open>The \<open>do\<close> loop that fills a buffer of \<open>room\<close> bytes from its end.\<close>

fun build_number :: "nat \<Rightarrow> 'a::len word \<Rightarrow> 'a word \<Rightarrow> u8 list \<Rightarrow> u8 list option" where
  "build_number 0 u base buf = None"
| "build_number (Suc room) u base buf =
     (if base = 0 \<or> length digs \<le> unat (u mod base) then None
      else let buf = digs ! unat (u mod base) # buf; u = u div base
           in if u \<noteq> 0 then build_number room u base buf else Some buf)"

definition printnum :: "(u8 \<Rightarrow> 's \<Rightarrow> 's) \<Rightarrow> u32 \<Rightarrow> u32 \<Rightarrow> 's \<Rightarrow> 's option" where
  "printnum putc u base st = map_option (\<lambda>buf. fold putc buf st) (build_number MAXBUF u base [])"

text \<open>Eight hexadecimal digits.\<close>

fun build_16 :: "nat \<Rightarrow> u32 \<Rightarrow> u8 list \<Rightarrow> u8 list" where
  "build_16 0 u buf = buf"
| "build_16 (Suc i) u buf = build_16 i (drop_bit 4 u) (digs ! unat (u AND 0x0f) # buf)"

definition printnum_16 :: "(u8 \<Rightarrow> 's \<Rightarrow> 's) \<Rightarrow> u32 \<Rightarrow> 's \<Rightarrow> 's" where
  "printnum_16 putc u st = fold putc (build_16 8 u []) st"

subsection \<open>Conversion specifications\<close>

record spec =
  altfmt :: bool
  ladjust :: bool
  plus_sign :: u8
  padc :: u8
  width :: int
  prec :: int
  longopt :: nat

definition spec_init :: spec where
  "spec_init = \<lparr>altfmt = False, ladjust = False, plus_sign = 0, padc = 32, width = 0, prec = - 1, longopt = 0\<rparr>"

partial_function (option) parse_flags :: "memory \<Rightarrow> u32 \<Rightarrow> spec \<Rightarrow> (u32 \<times> spec) option" where
  "parse_flags m fmt sp =
     (if m fmt = 35 then parse_flags m (fmt + 1) (sp\<lparr>altfmt := True\<rparr>)
      else if m fmt = 45 then parse_flags m (fmt + 1) (sp\<lparr>ladjust := True\<rparr>)
      else if m fmt = 43 then parse_flags m (fmt + 1) (sp\<lparr>plus_sign := 43\<rparr>)
      else if m fmt = 32 then parse_flags m (fmt + 1) (if plus_sign sp = 0 then sp\<lparr>plus_sign := 32\<rparr> else sp)
      else Some (fmt, sp))"

partial_function (option) parse_number :: "memory \<Rightarrow> u32 \<Rightarrow> int \<Rightarrow> (u32 \<times> int) option" where
  "parse_number m fmt n =
     (if dec_digit (m fmt) then
        let n = 10 * n + Ctod (m fmt) in if n < 2 ^ 31 then parse_number m (fmt + 1) n else None
      else Some (fmt, n))"

definition parse_width :: "memory \<Rightarrow> u32 \<Rightarrow> spec \<Rightarrow> va list \<Rightarrow> (u32 \<times> spec \<times> va list) option" where
  "parse_width m fmt sp args =
     (if dec_digit (m fmt) then do { (fmt, n) \<leftarrow> parse_number m fmt 0; Some (fmt, sp\<lparr>width := n\<rparr>, args) }
      else if m fmt = 42 then do {
        (w, args) \<leftarrow> va_word args;
        let n = sint w;
        if n \<ge> 0 then Some (fmt + 1, sp\<lparr>width := n\<rparr>, args)
        else if n = - (2 ^ 31) then None
        else Some (fmt + 1, sp\<lparr>width := - n, ladjust := \<not> ladjust sp\<rparr>, args) }
      else Some (fmt, sp, args))"

definition parse_prec :: "memory \<Rightarrow> u32 \<Rightarrow> spec \<Rightarrow> va list \<Rightarrow> (u32 \<times> spec \<times> va list) option" where
  "parse_prec m fmt sp args =
     (if m fmt = 46 then
        let fmt = fmt + 1
        in if dec_digit (m fmt) then do { (fmt, n) \<leftarrow> parse_number m fmt 0; Some (fmt, sp\<lparr>prec := n\<rparr>, args) }
           else if m fmt = 42 then do { (w, args) \<leftarrow> va_word args; Some (fmt + 1, sp\<lparr>prec := sint w\<rparr>, args) }
           else Some (fmt, sp, args)
      else Some (fmt, sp, args))"

partial_function (option) parse_longs :: "memory \<Rightarrow> u32 \<Rightarrow> spec \<Rightarrow> (u32 \<times> spec) option" where
  "parse_longs m fmt sp =
     (if m fmt = 108 then parse_longs m (fmt + 1) (sp\<lparr>longopt := Suc (longopt sp)\<rparr>) else Some (fmt, sp))"

definition parse_spec :: "memory \<Rightarrow> u32 \<Rightarrow> va list \<Rightarrow> (u32 \<times> spec \<times> va list) option" where
  "parse_spec m fmt args = do {
     (fmt, sp) \<leftarrow> parse_flags m fmt spec_init;
     let (fmt, sp) = (if m fmt = 48 then (fmt + 1, sp\<lparr>padc := 48\<rparr>) else (fmt, sp));
     (fmt, sp, args) \<leftarrow> parse_width m fmt sp args;
     (fmt, sp, args) \<leftarrow> parse_prec m fmt sp args;
     (fmt, sp) \<leftarrow> parse_longs m fmt sp;
     Some (fmt, sp, args) }"

subsection \<open>The directives\<close>

text \<open>\<open>while (--length >= 0) putc(c)\<close>, with the final value of \<open>length\<close>.\<close>

definition pad :: "(u8 \<Rightarrow> 's \<Rightarrow> 's) \<Rightarrow> u8 \<Rightarrow> int \<Rightarrow> 's \<Rightarrow> int \<times> 's" where
  "pad putc c len st = (if len > 0 then - 1 else len - 1, (putc c ^^ nat len) st)"

definition print_num :: "(u8 \<Rightarrow> 's \<Rightarrow> 's) \<Rightarrow> spec \<Rightarrow> bool \<Rightarrow> u32 \<Rightarrow> u8 \<Rightarrow> u64 \<Rightarrow> 's \<Rightarrow> 's option" where
  "print_num putc sp trunc base sign_char u st =
     (let u = (if trunc then scast (ucast u :: u32) else u);
          prefix = (if u \<noteq> 0 \<and> altfmt sp then (if base = 8 then [48] else if base = 16 then [48, 120] else []) else [])
      in do {
        buf \<leftarrow> build_number MAXBUF u (scast base) [];
        let len = width sp - int (length buf);
        let len = (if sign_char \<noteq> 0 then len - 1 else len);
        let len = len - int (length prefix);
        let (len, st) = (if padc sp = 32 \<and> \<not> ladjust sp then pad putc 32 len st else (len, st));
        let st = (if sign_char \<noteq> 0 then putc sign_char st else st);
        let st = fold putc prefix st;
        let (len, st) = (if padc sp = 48 then pad putc 48 len st else (len, st));
        let st = fold putc buf st;
        Some (if ladjust sp then snd (pad putc 32 len st) else st) })"

definition print_signed :: "(u8 \<Rightarrow> 's \<Rightarrow> 's) \<Rightarrow> spec \<Rightarrow> bool \<Rightarrow> u32 \<Rightarrow> va list \<Rightarrow> 's \<Rightarrow> (va list \<times> 's) option" where
  "print_signed putc sp trunc base args st = do {
     (n, args) \<leftarrow> (if longopt sp > 1 then va_dword args
                   else map_option (\<lambda>(w, args). (scast w, args)) (va_word args));
     let (u, sign_char) = (if 0 <=s n then (n, plus_sign sp) else (- n, 45));
     st \<leftarrow> print_num putc sp trunc base sign_char u st;
     Some (args, st) }"

definition print_unsigned :: "(u8 \<Rightarrow> 's \<Rightarrow> 's) \<Rightarrow> spec \<Rightarrow> bool \<Rightarrow> u32 \<Rightarrow> va list \<Rightarrow> 's \<Rightarrow> (va list \<times> 's) option" where
  "print_unsigned putc sp trunc base args st = do {
     (u, args) \<leftarrow> (if longopt sp > 1 then va_dword args
                   else map_option (\<lambda>(w, args). (ucast w, args)) (va_word args));
     st \<leftarrow> print_num putc sp trunc base 0 u st;
     Some (args, st) }"

text \<open>\<open>%s\<close>: the loop that counts the characters to print, and the loop that prints them.\<close>

partial_function (option) count_str :: "memory \<Rightarrow> u32 \<Rightarrow> int \<Rightarrow> int \<Rightarrow> int option" where
  "count_str m p n lim = (if m p \<noteq> 0 \<and> n < lim then count_str m (p + 1) (n + 1) lim else Some n)"

partial_function (option) put_str ::
  "('s \<Rightarrow> memory) \<Rightarrow> (u8 \<Rightarrow> 's \<Rightarrow> 's) \<Rightarrow> u32 \<Rightarrow> int \<Rightarrow> int \<Rightarrow> 's \<Rightarrow> (int \<times> 's) option" where
  "put_str rd putc p n lim st =
     (if rd st p \<noteq> 0 then
        if n + 1 > lim then Some (n + 1, st)
        else put_str rd putc (p + 1) (n + 1) lim (putc (rd st p) st)
      else Some (n, st))"

definition print_str :: "('s \<Rightarrow> memory) \<Rightarrow> (u8 \<Rightarrow> 's \<Rightarrow> 's) \<Rightarrow> spec \<Rightarrow> u32 \<Rightarrow> 's \<Rightarrow> 's option" where
  "print_str rd putc sp p st =
     (let lim = (if prec sp = - 1 then 0x7fffffff else prec sp);
          rd = (\<lambda>st a. if p = 0 then 0 else rd st a)
      in do {
        st \<leftarrow> (if width sp > 0 \<and> \<not> ladjust sp then do {
                 n \<leftarrow> count_str (rd st) p 0 lim;
                 Some ((putc 32 ^^ nat (width sp - n)) st) }
               else Some st);
        (n, st) \<leftarrow> put_str rd putc p 0 lim st;
        Some (if n < width sp \<and> ladjust sp then (putc 32 ^^ nat (width sp - n)) st else st) })"

text \<open>\<open>%b\<close>: names and fields of the bits of a register.\<close>

partial_function (option) put_name ::
  "('s \<Rightarrow> memory) \<Rightarrow> (u8 \<Rightarrow> 's \<Rightarrow> 's) \<Rightarrow> u32 \<Rightarrow> 's \<Rightarrow> (u32 \<times> 's) option" where
  "put_name rd putc p st =
     (if rd st p > 32 then put_name rd putc (p + 1) (putc (rd st p) st) else Some (p, st))"

partial_function (option) skip_name :: "memory \<Rightarrow> u32 \<Rightarrow> u32 option" where
  "skip_name m p = (if m p > 32 then skip_name m (p + 1) else Some p)"

text \<open>One field: the shifts are by \<open>j - 1\<close> of a 64-bit and by \<open>i - j\<close> of a 32-bit number.\<close>

definition bit_field :: "u64 \<Rightarrow> u8 \<Rightarrow> u8 \<Rightarrow> u32 option" where
  "bit_field u i j =
     (if 1 \<le> j \<and> j \<le> 64 \<and> j \<le> i \<and> unat i - unat j < 32
      then Some (ucast (drop_bit (unat j - 1) u AND scast (push_bit (unat i - unat j) 2 - 1 :: u32)))
      else None)"

partial_function (option) print_bits ::
  "('s \<Rightarrow> memory) \<Rightarrow> (u8 \<Rightarrow> 's \<Rightarrow> 's) \<Rightarrow> u64 \<Rightarrow> u32 \<Rightarrow> bool \<Rightarrow> u32 \<Rightarrow> 's \<Rightarrow> (bool \<times> 's) option" where
  "print_bits rd putc u base any p st =
     (let i = rd st p; p = p + 1
      in if i = 0 then Some (any, st)
         else if rd st p \<le> 32 then do {
           let st = putc (if any then 44 else 60) st;
           let j = rd st p;
           (p, st) \<leftarrow> put_name rd putc (p + 1) st;
           v \<leftarrow> bit_field u i j;
           st \<leftarrow> printnum putc v base st;
           print_bits rd putc u base True p st }
         else if i > 32 then None
         else if u AND scast (push_bit (unat i - 1) 1 :: u32) \<noteq> 0 then do {
           let st = putc (if any then 44 else 60) st;
           (p, st) \<leftarrow> put_name rd putc p st;
           print_bits rd putc u base True p st }
         else do {
           p \<leftarrow> skip_name (rd st) p;
           print_bits rd putc u base any p st })"

definition print_b ::
  "('s \<Rightarrow> memory) \<Rightarrow> (u8 \<Rightarrow> 's \<Rightarrow> 's) \<Rightarrow> va list \<Rightarrow> 's \<Rightarrow> (va list \<times> 's) option" where
  "print_b rd putc args st = do {
     (u, args) \<leftarrow> va_word args;
     (p, args) \<leftarrow> va_word args;
     let base = (ucast (rd st p) :: u32);
     st \<leftarrow> printnum putc u base st;
     if u = 0 then Some (args, st)
     else do {
       (any, st) \<leftarrow> print_bits rd putc (ucast u) base False (p + 1) st;
       Some (args, if any then putc 62 st else st) } }"

text \<open>\<open>%t\<close>: L4 thread identifiers. The first word holds 10 bits of version, 7 of thread and 11 of task.\<close>

definition lthread :: "u32 \<Rightarrow> u32" where "lthread high = drop_bit 10 high AND 0x7f"
definition ltask :: "u32 \<Rightarrow> u32" where "ltask high = drop_bit 17 high AND 0x7ff"

definition print_tid :: "(u8 \<Rightarrow> 's \<Rightarrow> 's) \<Rightarrow> spec \<Rightarrow> u32 \<Rightarrow> u32 \<Rightarrow> 's \<Rightarrow> 's option" where
  "print_tid putc sp high low st =
     (if longopt sp \<noteq> 0 then
        let n = (if altfmt sp then 19 else 17);
            (n, st) = (if width sp > 0 \<and> \<not> ladjust sp
                       then (max n (width sp), (putc 32 ^^ nat (width sp - n)) st) else (n, st));
            st = (if altfmt sp then putc 91 st else st);
            st = printnum_16 putc high st;
            st = putc 58 st;
            st = printnum_16 putc low st;
            st = (if altfmt sp then putc 93 st else st)
        in Some (if width sp > 0 \<and> ladjust sp then (putc 32 ^^ nat (width sp - n)) st else st)
      else do {
        let n = (if altfmt sp then 4 else 2);
        let m = 1 + (if lthread high \<ge> 0x10 then 1 else 0);
        let n = n + (if ltask high \<ge> 0x10 then 1 else 0) + (if ltask high \<ge> 0x100 then 1 else 0);
        let (n, st) = (if width sp > 0 \<and> \<not> ladjust sp \<and> padc sp = 32
                       then (max n (width sp - 2), (putc 32 ^^ nat (width sp - 2 - n)) st) else (n, st));
        let st = (if altfmt sp then putc 91 st else st);
        let (n, st) = (if width sp > 0 \<and> \<not> ladjust sp \<and> padc sp = 48
                       then (max n (width sp - 2), (putc 48 ^^ nat (width sp - 2 - n)) st) else (n, st));
        st \<leftarrow> printnum putc (ltask high) 16 st;
        let st = putc 46 st;
        let (n, st) = (if width sp > 0 \<and> \<not> ladjust sp
                       then (max n (width sp - m), (putc (padc sp) ^^ nat (width sp - m - n)) st) else (n, st));
        st \<leftarrow> printnum putc (lthread high) 16 st;
        let st = (if altfmt sp then putc 93 st else st);
        Some (if n + m < width sp \<and> ladjust sp then (putc 32 ^^ nat (width sp - m - n)) st else st) })"

subsection \<open>The formatter\<close>

text \<open>
  The \<open>switch\<close>. The lower-case letters \<open>o d u x z r n\<close> may trunc to \<open>int\<close>, the upper-case ones do
  not. At the end of the format it steps back, so that the main loop sees the terminator.
\<close>

definition directive ::
  "('s \<Rightarrow> memory) \<Rightarrow> (u8 \<Rightarrow> 's \<Rightarrow> 's) \<Rightarrow> bool \<Rightarrow> u32 \<Rightarrow> u32 \<Rightarrow> spec \<Rightarrow> va list \<Rightarrow> 's \<Rightarrow> (u32 \<times> va list \<times> 's) option" where
  "directive rd putc truncates radix fmt sp args st =
     (let c = rd st fmt; ret = map_option (\<lambda>(args, st). (fmt, args, st))
      in if c = 98 \<or> c = 66 then ret (print_b rd putc args st)
         else if c = 99 then do { (w, args) \<leftarrow> va_word args; Some (fmt, args, putc (ucast w) st) }
         else if c = 116 then do {
           ((high, low), args) \<leftarrow> va_tid args;
           st \<leftarrow> print_tid putc sp high low st;
           Some (fmt, args, st) }
         else if c = 115 then do {
           (p, args) \<leftarrow> va_word args;
           st \<leftarrow> print_str rd putc sp p st;
           Some (fmt, args, st) }
         else if c = 111 then ret (print_unsigned putc sp truncates 8 args st)
         else if c = 79 then ret (print_unsigned putc sp False 8 args st)
         else if c = 100 then ret (print_signed putc sp truncates 10 args st)
         else if c = 68 then ret (print_signed putc sp False 10 args st)
         else if c = 117 then ret (print_unsigned putc sp truncates 10 args st)
         else if c = 85 then ret (print_unsigned putc sp False 10 args st)
         else if c = 112 then
           ret (print_unsigned putc (sp\<lparr>padc := 48, width := 8\<rparr>) truncates 16 args (putc 120 (putc 48 st)))
         else if c = 120 then ret (print_unsigned putc sp truncates 16 args st)
         else if c = 88 then ret (print_unsigned putc sp False 16 args st)
         else if c = 122 then ret (print_signed putc sp truncates 16 args st)
         else if c = 90 then ret (print_signed putc sp False 16 args st)
         else if c = 114 then ret (print_signed putc sp truncates radix args st)
         else if c = 82 then ret (print_signed putc sp False radix args st)
         else if c = 110 then ret (print_unsigned putc sp truncates radix args st)
         else if c = 78 then ret (print_unsigned putc sp False radix args st)
         else if c = 0 then Some (fmt - 1, args, st)
         else Some (fmt, args, putc c st))"

partial_function (option) doprnt ::
  "('s \<Rightarrow> memory) \<Rightarrow> (u8 \<Rightarrow> 's \<Rightarrow> 's) \<Rightarrow> bool \<Rightarrow> u32 \<Rightarrow> u32 \<Rightarrow> va list \<Rightarrow> 's \<Rightarrow> 's option" where
  "doprnt rd putc truncates radix fmt args st =
     (if rd st fmt = 0 then Some st
      else if rd st fmt \<noteq> 37 then doprnt rd putc truncates radix (fmt + 1) args (putc (rd st fmt) st)
      else do {
        (fmt, sp, args) \<leftarrow> parse_spec (rd st) (fmt + 1) args;
        (fmt, args, st) \<leftarrow> directive rd putc truncates radix fmt sp args st;
        doprnt rd putc truncates radix (fmt + 1) args st })"

section \<open>Digits\<close>

text \<open>The digits of a number, most significant first.\<close>

function digits_of :: "nat \<Rightarrow> nat \<Rightarrow> u8 list" where
  "digits_of b n = (if n < b \<or> b < 2 then [digs ! n] else digits_of b (n div b) @ [digs ! (n mod b)])"
  by pat_completeness auto
termination
  by (relation "measure snd") auto

declare digits_of.simps [simp del]

lemma digits_of_less: "n < b \<Longrightarrow> digits_of b n = [digs ! n]"
  by (simp add: digits_of.simps)

lemma digits_of_step: "b \<le> n \<Longrightarrow> 2 \<le> b \<Longrightarrow> digits_of b n = digits_of b (n div b) @ [digs ! (n mod b)]"
  by (simp add: digits_of.simps)

lemma length_digs [simp]: "length digs = 17"
  by (simp add: digs_def)

lemma build_number_digits:
  fixes u base :: "'a::len word"
  assumes "2 \<le> unat base" "unat base \<le> 17" "unat u < unat base ^ room" "0 < room"
  shows "build_number room u base buf = Some (digits_of (unat base) (unat u) @ buf)"
  using assms(3,4)
proof (induction room arbitrary: u buf)
  case (Suc room)
  have b: "base \<noteq> 0" using assms(1) by auto
  have m: "unat (u mod base) = unat u mod unat base" by (rule unat_mod)
  have d: "unat (u div base) = unat u div unat base" by (rule unat_div)
  have lt: "unat u mod unat base < 17" using assms(1,2) by (intro less_le_trans [OF mod_less_divisor]) simp_all
  show ?case
  proof (cases "u div base = 0")
    case True
    then have "unat u < unat base" using d assms(1) by (simp add: div_eq_0_iff)
    then show ?thesis using True b lt by (simp add: m digits_of_less Let_def)
  next
    case False
    then have *: "unat u div unat base \<noteq> 0" using d unat_eq_zero by metis
    then have ge: "unat base \<le> unat u" by (simp add: div_eq_0_iff)
    have "unat (u div base) < unat base ^ room"
      using Suc.prems(1) assms(1) by (simp add: d less_mult_imp_div_less mult.commute)
    moreover from this * have "0 < room" by (cases room) (simp_all add: d)
    ultimately show ?thesis
      using False b lt Suc.IH [of "u div base"] digits_of_step [OF ge assms(1)] by (simp add: m d Let_def)
  qed
qed simp

lemma digs_digit: "d < b \<Longrightarrow> b \<le> 16 \<Longrightarrow> digit_of (int b) (uint (digs ! d)) = Some (int d)"
proof -
  assume "d < b" "b \<le> 16"
  moreover from this have "d = 0 \<or> d = 1 \<or> d = 2 \<or> d = 3 \<or> d = 4 \<or> d = 5 \<or> d = 6 \<or> d = 7 \<or>
    d = 8 \<or> d = 9 \<or> d = 10 \<or> d = 11 \<or> d = 12 \<or> d = 13 \<or> d = 14 \<or> d = 15" by presburger
  ultimately show ?thesis by (elim disjE) (simp_all add: digs_def digit_of_def)
qed

lemma digits_of_digits:
  assumes "2 \<le> b" "b \<le> 16"
  shows "\<forall>c\<in>set (digits_of b n). is_digit (int b) c" "value_of (int b) 0 (digits_of b n) = int n"
    "digits_of b n \<noteq> []"
proof (induction n rule: less_induct)
  case (less n)
  {
    case 1
    show ?case
    proof (cases "n < b")
      case False
      then show ?thesis using less(1) [of "n div b"] assms digs_digit [of "n mod b" b]
        by (simp add: digits_of_step is_digit_def)
    qed (use assms digs_digit in \<open>simp add: digits_of_less is_digit_def\<close>)
  next
    case 2
    show ?case
    proof (cases "n < b")
      case False
      then have "value_of (int b) 0 (digits_of b (n div b)) = int (n div b)" using less(2) [of "n div b"] assms by simp
      then show ?thesis using False assms digs_digit [of "n mod b" b]
        by (simp add: digits_of_step value_of_def) (simp add: zdiv_int zmod_int mult.commute)
    qed (use assms digs_digit in \<open>simp add: digits_of_less value_of_def\<close>)
  next
    case 3
    show ?case by (subst digits_of.simps) simp
  }
qed

lemma length_digits_of:
  assumes "2 \<le> b" "n < b ^ k" "0 < k"
  shows "length (digits_of b n) \<le> k"
  using assms(2,3)
proof (induction k arbitrary: n)
  case (Suc k)
  show ?case
  proof (cases "n < b")
    case False
    then have "n div b < b ^ k" using Suc.prems(1) by (simp add: less_mult_imp_div_less mult.commute)
    moreover from this False have "0 < k" using assms(1) by (cases k) (simp_all add: div_eq_0_iff)
    ultimately show ?thesis using Suc.IH [of "n div b"] False assms(1) by (simp add: digits_of_step)
  qed (simp add: digits_of_less)
qed simp

text \<open>Decimal digits in particular.\<close>

lemma dec_digits_small: "c \<in> set (digits_of 10 n) \<Longrightarrow> 48 \<le> uint c \<and> uint c \<le> 57"
  using digits_of_digits(1) [of 10 n] by (auto simp: is_digit_def digit_of_def split: if_splits)

end
