(* ===== verification/Stdio.thy ===== *)
theory Stdio
  imports Doprnt
begin

text \<open>
  tasks/libc/stdio: the callers of the formatter. sprintf.c stores the characters in memory,
  printf.c collects them in a line buffer and writes it with the \<open>write\<close> call; putchar.c, puts.c
  and hexdump.c. What the library writes is the list of its \<open>write\<close> calls, each with the file
  number and the bytes.
\<close>

section \<open>Formatting to memory\<close>

text \<open>The global that no file of the repository changes.\<close>

definition doprnt_truncates :: bool where "doprnt_truncates = False"

definition SPRINTF_UNLIMITED :: u32 where "SPRINTF_UNLIMITED = - 1"

record sprintf_state =
  sp_mem :: memory
  sp_buf :: u32
  sp_len :: u32
  sp_max :: u32

definition savechar :: "u8 \<Rightarrow> sprintf_state \<Rightarrow> sprintf_state" where
  "savechar c st =
     (if sp_max st \<noteq> SPRINTF_UNLIMITED \<and> sp_len st = sp_max st then st
      else st\<lparr>sp_len := sp_len st + 1, sp_mem := (sp_mem st)(sp_buf st := c), sp_buf := sp_buf st + 1\<rparr>)"

definition vsprintf :: "u32 \<Rightarrow> u32 \<Rightarrow> va list \<Rightarrow> memory \<Rightarrow> (u32 \<times> memory) option" where
  "vsprintf s fmt args m = do {
     st \<leftarrow> doprnt sp_mem savechar doprnt_truncates 0 fmt args
       \<lparr>sp_mem = m, sp_buf = s, sp_len = 0, sp_max = SPRINTF_UNLIMITED\<rparr>;
     Some (sp_len st, (sp_mem st)(sp_buf st := 0)) }"

definition vsnprintf :: "u32 \<Rightarrow> u32 \<Rightarrow> u32 \<Rightarrow> va list \<Rightarrow> memory \<Rightarrow> (u32 \<times> memory) option" where
  "vsnprintf s limit fmt args m = do {
     st \<leftarrow> doprnt sp_mem savechar doprnt_truncates 0 fmt args
       \<lparr>sp_mem = m, sp_buf = s, sp_len = 0, sp_max = limit\<rparr>;
     Some (sp_len st, (sp_mem st)(sp_buf st := 0)) }"

definition sprintf :: "u32 \<Rightarrow> u32 \<Rightarrow> va list \<Rightarrow> memory \<Rightarrow> (u32 \<times> memory) option" where
  "sprintf s fmt args m = vsprintf s fmt args m"

definition snprintf :: "u32 \<Rightarrow> u32 \<Rightarrow> u32 \<Rightarrow> va list \<Rightarrow> memory \<Rightarrow> (u32 \<times> memory) option" where
  "snprintf s limit fmt args m = vsnprintf s limit fmt args m"

section \<open>Formatting to the console\<close>

type_synonym write_log = "(u32 \<times> u8 list) list"

definition STDOUT :: u32 where "STDOUT = 1"

text \<open>\<open>putchar\<close> writes all \<open>sizeof(c)\<close> = 4 bytes of its \<open>int\<close>.\<close>

definition putchar :: "u32 \<Rightarrow> write_log \<Rightarrow> write_log" where
  "putchar c log = log @ [(STDOUT, [ucast c, ucast (drop_bit 8 c), ucast (drop_bit 16 c), ucast (drop_bit 24 c)])]"

text \<open>\<open>puts\<close>, first for the bytes of the string.\<close>

definition puts_bytes :: "u8 list \<Rightarrow> write_log \<Rightarrow> write_log" where
  "puts_bytes s log = log @ [(STDOUT, s), (STDOUT, [10])]"

definition puts :: "memory \<Rightarrow> u32 \<Rightarrow> write_log \<Rightarrow> write_log option" where
  "puts m s log = map_option (\<lambda>n. puts_bytes (bytes m s (unat n)) log) (strlen m s)"

definition PRINTF_BUFMAX :: nat where "PRINTF_BUFMAX = 128"

text \<open>The line buffer is an array of the stack frame of \<open>vprintf\<close>, outside of the memory \<open>pf_mem\<close>.\<close>

record printf_state =
  pf_mem :: memory
  pf_buf :: "u8 list"
  pf_index :: nat
  pf_out :: write_log

definition flush :: "printf_state \<Rightarrow> printf_state" where
  "flush st =
     (let buf = (pf_buf st)[pf_index st := 0]
      in st\<lparr>pf_buf := buf, pf_out := pf_out st @ [(STDOUT, take (pf_index st) buf)], pf_index := 0\<rparr>)"

text \<open>\<open>puts(state->buf)\<close> writes the characters before the first zero byte of the buffer.\<close>

definition printf_char :: "u8 \<Rightarrow> printf_state \<Rightarrow> printf_state" where
  "printf_char c st =
     (if c = 10 then
        let buf = (pf_buf st)[pf_index st := 0]
        in st\<lparr>pf_buf := buf, pf_out := puts_bytes (takeWhile (\<lambda>x. x \<noteq> 0) buf) (pf_out st), pf_index := 0\<rparr>
      else if c = 0 \<or> pf_index st \<ge> PRINTF_BUFMAX - 1 then
        let st = flush st in st\<lparr>pf_out := putchar (ucast c) (pf_out st)\<rparr>
      else st\<lparr>pf_buf := (pf_buf st)[pf_index st := c], pf_index := pf_index st + 1\<rparr>)"

text \<open>The buffer starts with any content.\<close>

definition vprintf :: "u8 list \<Rightarrow> u32 \<Rightarrow> va list \<Rightarrow> memory \<Rightarrow> write_log \<Rightarrow> (u32 \<times> write_log) option" where
  "vprintf frame fmt args m log = do {
     st \<leftarrow> doprnt pf_mem printf_char doprnt_truncates 0 fmt args
       \<lparr>pf_mem = m, pf_buf = frame, pf_index = 0, pf_out = log\<rparr>;
     let st = (if pf_index st \<noteq> 0 then flush st else st);
     Some (0, pf_out st) }"

definition printf :: "u8 list \<Rightarrow> u32 \<Rightarrow> va list \<Rightarrow> memory \<Rightarrow> write_log \<Rightarrow> (u32 \<times> write_log) option" where
  "printf frame fmt args m log = vprintf frame fmt args m log"

section \<open>Hex dump\<close>

text \<open>
  The calls of \<open>printf\<close> that \<open>hexdump\<close> makes, each with its literal format and arguments; the same
  file is compiled into the kernel. The line counter wraps around when the buffer ends in the last
  16 bytes of the address space; then the loop does not end.
\<close>

definition hex_digit_call :: "memory \<Rightarrow> u32 \<Rightarrow> u32 \<Rightarrow> u32 \<Rightarrow> (u8 list \<times> va list) list" where
  "hex_digit_call m b len j =
     (if j mod 4 = 0 then [([32], [])] else []) @
     (if j \<ge> len then [([32, 32], [])] else [([37, 48, 50, 120], [Word (ucast (m (b + j)))])])"

definition hex_char_call :: "memory \<Rightarrow> u32 \<Rightarrow> u32 \<Rightarrow> u32 \<Rightarrow> (u8 list \<times> va list) list" where
  "hex_char_call m b len j =
     (if j \<ge> len then [([32], [])]
      else [([37, 99], [Word (if c_isgraph (uint (m (b + j))) then ucast (m (b + j)) else 46)])])"

text \<open>\<open>for (j = i; j < i+16; j++)\<close>\<close>

definition hex_columns :: "u32 \<Rightarrow> u32 list" where
  "hex_columns i = (if i < i + 16 then map (\<lambda>k. i + of_nat k) [0..<16] else [])"

definition hex_line :: "memory \<Rightarrow> u32 \<Rightarrow> u32 \<Rightarrow> u32 \<Rightarrow> (u8 list \<times> va list) list" where
  "hex_line m b len i =
     [([124, 32, 37, 48, 56, 108, 120] @ replicate 6 32, [Word i])] @
     concat (map (hex_digit_call m b len) (hex_columns i)) @
     [(replicate 7 32, [])] @
     concat (map (hex_char_call m b len) (hex_columns i)) @
     [([32, 124, 10], [])]"

partial_function (option) hex_lines ::
  "memory \<Rightarrow> u32 \<Rightarrow> u32 \<Rightarrow> u32 \<Rightarrow> (u8 list \<times> va list) list \<Rightarrow> (u8 list \<times> va list) list option" where
  "hex_lines m b len i acc =
     (if i < len then hex_lines m b len (i + 16) (acc @ hex_line m b len i) else Some acc)"

definition hexdump :: "memory \<Rightarrow> u32 \<Rightarrow> u32 \<Rightarrow> (u8 list \<times> va list) list option" where
  "hexdump m buf len = do {
     ls \<leftarrow> hex_lines m buf len 0 [([46] @ replicate 75 45 @ [46, 10], [])];
     Some (ls @ [([96] @ replicate 75 45 @ [39, 10], [])]) }"

end
