(* ===== verification/Format.thy ===== *)
theory Format
  imports Stdio
begin

text \<open>
  What the formatter prints. \<open>num_text\<close> is the text of a number: sign and prefix, digits, and the
  padding to the field width. The interface \<open>char_sink\<close> says which callbacks leave the format alone;
  \<open>sprintf\<close> and \<open>printf\<close> provide it, and their output is computed from the text.
\<close>

section \<open>Numbers\<close>

definition num_text :: "spec \<Rightarrow> u8 list \<Rightarrow> u8 list \<Rightarrow> u8 list" where
  "num_text sp lead ds =
     (let gap = nat (width sp) - (length lead + length ds)
      in if padc sp = 48 then lead @ replicate gap 48 @ ds
         else if ladjust sp then lead @ ds @ replicate gap 32
         else replicate gap 32 @ lead @ ds)"

lemma length_num_text: "length (num_text sp lead ds) = max (nat (width sp)) (length lead + length ds)"
proof -
  have "g + (l + d) = max w (l + d)" "l + (g + d) = max w (l + d)" "l + (d + g) = max w (l + d)"
    if "g = w - (l + d)" for g l d w :: nat using that by linarith+
  then show ?thesis by (simp add: num_text_def Let_def)
qed

definition num_prefix :: "spec \<Rightarrow> u32 \<Rightarrow> u64 \<Rightarrow> u8 list" where
  "num_prefix sp base u =
     (if u \<noteq> 0 \<and> altfmt sp then (if base = 8 then [48] else if base = 16 then [48, 120] else []) else [])"

definition sign_text :: "u8 \<Rightarrow> u8 list" where
  "sign_text c = (if c \<noteq> 0 then [c] else [])"

lemma print_num_text:
  assumes "padc sp = 32 \<or> padc sp = 48" "build_number MAXBUF u (scast base) [] = Some ds"
  shows "print_num putc sp False base sign_char u st =
    Some (fold putc (num_text sp (sign_text sign_char @ num_prefix sp base u) ds) st)"
proof -
  let ?p = "length (num_prefix sp base u)" and ?d = "length ds"
  have gap: "nat (width sp - int ?d - int ?p) = nat (width sp) - (?p + ?d)"
      "nat (width sp - int ?d - 1 - int ?p) = nat (width sp) - Suc (?p + ?d)" by linarith+
  show ?thesis
    unfolding print_num_def if_False num_prefix_def [symmetric] Let_def
    using assms(1)
    by (cases "sign_char = 0"; cases "padc sp = 48"; cases "ladjust sp")
      (simp_all add: assms(2) pad_def num_text_def sign_text_def gap Let_def)
qed

lemma fits_maxbuf: "unat (u :: u64) < 2 ^ 64 \<and> 2 ^ 64 \<le> (8 :: nat) ^ MAXBUF \<and> 2 ^ 64 \<le> (10 :: nat) ^ MAXBUF \<and>
    2 ^ 64 \<le> (16 :: nat) ^ MAXBUF"
  using unsigned_less [of u] by (simp add: MAXBUF_def)

lemma build_number_u64:
  fixes u :: u64
  assumes "base \<in> {8, 10, 16 :: u32}"
  shows "build_number MAXBUF u (scast base) [] = Some (digits_of (unat base) (unat u))"
proof -
  have "unat (scast base :: u64) = unat base" using assms by auto
  moreover have "unat u < unat base ^ MAXBUF" using assms fits_maxbuf [of u] by auto
  moreover have "2 \<le> unat base" "unat base \<le> 17" using assms by auto
  moreover have "0 < MAXBUF" by (simp add: MAXBUF_def)
  ultimately show ?thesis using build_number_digits [of "scast base" u MAXBUF "[]"] by simp
qed

lemma sign_extend:
  fixes w :: u32
  shows "0 \<le> sint w \<Longrightarrow> unat (scast w :: u64) = nat (sint w)"
    "sint w < 0 \<Longrightarrow> unat (- scast w :: u64) = nat (- sint w)"
    "sint (scast w :: u64) = sint w"
proof -
  have b: "- (2 ^ 31) \<le> sint w" "sint w < 2 ^ 31"
    using sint_range_size [of w] by (simp_all add: word_size)
  have s: "scast w = (word_of_int (sint w) :: u64)" by simp
  show "unat (scast w :: u64) = nat (sint w)" if "0 \<le> sint w"
  proof -
    have "uint (word_of_int (sint w) :: u64) = sint w" using that b by (simp add: uint_word_of_int mod_pos_pos_trivial del: of_int_sint of_int_minus)
    then show ?thesis unfolding s by (metis nat_uint_eq)
  qed
  show "unat (- scast w :: u64) = nat (- sint w)" if "sint w < 0"
  proof -
    have "uint (word_of_int (- sint w) :: u64) = - sint w" using that b by (simp add: uint_word_of_int mod_pos_pos_trivial del: of_int_sint of_int_minus)
    moreover have "- scast w = (word_of_int (- sint w) :: u64)" unfolding s by simp
    ultimately show ?thesis by (metis nat_uint_eq)
  qed
  show "sint (scast w :: u64) = sint w"
    unfolding s using b by (simp add: signed_of_int signed_take_bit_int_eq_self del: of_int_sint)
qed

section \<open>Directives\<close>

text \<open>What the signed and unsigned conversions of one word print.\<close>

definition signed_text :: "spec \<Rightarrow> u32 \<Rightarrow> u8 list" where
  "signed_text sp w = num_text sp (sign_text (if 0 \<le> sint w then plus_sign sp else 45))
     (digits_of 10 (nat \<bar>sint w\<bar>))"

definition unsigned_text :: "spec \<Rightarrow> u32 \<Rightarrow> u32 \<Rightarrow> u8 list" where
  "unsigned_text sp base w = num_text sp (num_prefix sp base (ucast w)) (digits_of (unat base) (unat w))"

lemma print_signed_word:
  assumes "padc sp = 32 \<or> padc sp = 48" "longopt sp \<le> 1"
  shows "print_signed putc sp False 10 (Word w # args) st = Some (args, fold putc (signed_text sp w) st)"
proof -
  have "\<not> longopt sp > 1" using assms(2) by simp
  moreover have "print_num putc sp False 10 c u st = Some (fold putc (num_text sp (sign_text c) (digits_of 10 (unat u))) st)"
    for c u st
    using print_num_text [OF assms(1) build_number_u64 [of 10 u], of putc c st] by (simp add: num_prefix_def)
  ultimately show ?thesis
    using sign_extend [of w]
    by (cases "0 \<le> sint w") (simp_all add: print_signed_def word_sle_eq signed_text_def)
qed

lemma print_unsigned_word:
  assumes "padc sp = 32 \<or> padc sp = 48" "longopt sp \<le> 1" "base \<in> {8, 10, 16}"
  shows "print_unsigned putc sp False base (Word w # args) st = Some (args, fold putc (unsigned_text sp base w) st)"
proof -
  have "\<not> longopt sp > 1" using assms(2) by simp
  moreover have "unat (ucast w :: u64) = unat w" 
    using unat_u32_less [of w] by (simp add: unsigned_ucast_eq take_bit_nat_eq_self del: unat_u32_less)
  moreover note print_num_text [OF assms(1) build_number_u64 [OF assms(3)], of putc 0 "ucast w" st]
  ultimately show ?thesis
    by (simp add: print_unsigned_def unsigned_text_def sign_text_def)
qed

section \<open>Callbacks that leave the format alone\<close>

text \<open>
  \<open>ok n s\<close>: the callback can take \<open>n\<close> more characters in state \<open>s\<close> without changing what is read at
  the addresses of \<open>kept\<close>.
\<close>

locale char_sink =
  fixes rd :: "'s \<Rightarrow> memory" and putc :: "u8 \<Rightarrow> 's \<Rightarrow> 's" and ok :: "nat \<Rightarrow> 's \<Rightarrow> bool" and kept :: "u32 set"
  assumes ok_putc: "ok (Suc n) s \<Longrightarrow> ok n (putc c s)"
    and rd_putc: "ok (Suc n) s \<Longrightarrow> a \<in> kept \<Longrightarrow> rd (putc c s) a = rd s a"
begin

lemma ok_fold: "ok (length t + n) s \<Longrightarrow> ok n (fold putc t s)"
  by (induction t arbitrary: s) (simp_all add: ok_putc)

lemma rd_fold: "ok (length t + n) s \<Longrightarrow> a \<in> kept \<Longrightarrow> rd (fold putc t s) a = rd s a"
proof (induction t arbitrary: s)
  case (Cons c t)
  then have "ok (Suc (length t + n)) s" by simp
  with Cons show ?case using ok_putc [of "length t + n" s c] rd_putc [of "length t + n" s a] by simp
qed simp

text \<open>Characters of the format that are not \<open>%\<close> are copied.\<close>

lemma doprnt_literal:
  assumes "ok (length t + n) s" "37 \<notin> set t" "0 \<notin> set t"
    and "\<And>i. i < length t \<Longrightarrow> fmt + of_nat i \<in> kept \<and> rd s (fmt + of_nat i) = t ! i"
  shows "doprnt rd putc tr radix fmt args s = doprnt rd putc tr radix (fmt + of_nat (length t)) args (fold putc t s)"
  using assms
proof (induction t arbitrary: s fmt)
  case (Cons c t)
  have c: "rd s fmt = c" "fmt \<in> kept" using Cons.prems(4) [of 0] by auto
  have ok: "ok (length t + n) (putc c s)" using Cons.prems(1) ok_putc by simp
  have "fmt + 1 + of_nat i \<in> kept \<and> rd (putc c s) (fmt + 1 + of_nat i) = t ! i" if "i < length t" for i
    using that Cons.prems(1) Cons.prems(4) [of "Suc i"] rd_putc [of "length t + n" s "fmt + 1 + of_nat i"]
    by (simp add: algebra_simps)
  from Cons.IH [OF ok _ _ this] Cons.prems(2,3)
  have "doprnt rd putc tr radix (fmt + 1) args (putc c s) =
      doprnt rd putc tr radix (fmt + 1 + of_nat (length t)) args (fold putc t (putc c s))" by simp
  then show ?case using c Cons.prems(2,3) by (subst doprnt.simps) (auto simp: algebra_simps)
qed simp

text \<open>A conversion whose directive prints \<open>t\<close>.\<close>

lemma doprnt_directive:
  assumes "rd s fmt = 37" "parse_spec (rd s) (fmt + 1) args = Some (fmt', sp, args')"
    and "directive rd putc tr radix fmt' sp args' s = Some (fmt', args'', s')"
  shows "doprnt rd putc tr radix fmt args s = doprnt rd putc tr radix (fmt' + 1) args'' s'"
  using assms by (subst doprnt.simps) simp

end

section \<open>The callbacks of the library\<close>

interpretation sp: char_sink sp_mem savechar "\<lambda>n st. \<forall>a\<in>kept. outside a (sp_buf st) n" kept for kept
proof unfold_locales
  fix n :: nat and st :: sprintf_state and c :: u8
  assume ok: "\<forall>a\<in>kept. outside a (sp_buf st) (Suc n)"
  then show "\<forall>a\<in>kept. outside a (sp_buf (savechar c st)) n"
    using outside_mono [of _ "sp_buf st" "Suc n" n] by (auto simp: savechar_def outside_Suc)
  show "sp_mem (savechar c st) a = sp_mem st a" if "a \<in> kept" for a
    using ok that by (auto simp: savechar_def outside_Suc)
qed

interpretation pf: char_sink pf_mem printf_char "\<lambda>_ _. True" UNIV
  by unfold_locales (simp_all add: printf_char_def flush_def Let_def)

lemma fold_savechar_unlimited:
  "sp_max st = SPRINTF_UNLIMITED \<Longrightarrow> fold savechar t st = st\<lparr>sp_len := sp_len st + of_nat (length t),
     sp_mem := store_bytes (sp_buf st) t (sp_mem st), sp_buf := sp_buf st + of_nat (length t)\<rparr>"
  by (induction t arbitrary: st) (simp_all add: savechar_def algebra_simps)

text \<open>With a limit the characters that are too many are dropped.\<close>

lemma fold_savechar_limited:
  "sp_max st \<noteq> SPRINTF_UNLIMITED \<Longrightarrow> fold savechar t st =
     fold savechar (take (unat (sp_max st - sp_len st)) t) (st\<lparr>sp_max := SPRINTF_UNLIMITED\<rparr>) \<lparr>sp_max := sp_max st\<rparr>"
proof (induction t arbitrary: st)
  case (Cons c t)
  show ?case
  proof (cases "sp_len st = sp_max st")
    case True
    then have full: "savechar c st = st" using Cons.prems by (simp add: savechar_def)
    then show ?thesis using Cons True by simp
  next
    case False
    then have "sp_max st - sp_len st \<noteq> 0" by simp
    then have k: "unat (sp_max st - sp_len st) = Suc (unat (sp_max st - (sp_len st + 1)))"
      using unat_minus_one [of "sp_max st - sp_len st"] unat_gt_0 [of "sp_max st - sp_len st"]
      by (simp add: algebra_simps)
    have "savechar c (st\<lparr>sp_max := SPRINTF_UNLIMITED\<rparr>) = (savechar c st)\<lparr>sp_max := SPRINTF_UNLIMITED\<rparr>"
        "sp_max (savechar c st) = sp_max st" "sp_len (savechar c st) = sp_len st + 1"
      using False by (simp_all add: savechar_def)
    then show ?thesis using Cons.IH [of "savechar c st"] Cons.prems k by simp
  qed
qed simp

section \<open>Formats\<close>

lemma parse_spec_plain:
  assumes "m p \<notin> {35, 45, 43, 32, 42, 46, 108}" "\<not> dec_digit (m p)"
  shows "parse_spec m p args = Some (p, spec_init, args)"
proof -
  have "m p \<noteq> 48" using assms(2) by (auto simp: dec_digit_def)
  then show ?thesis using assms
    by (simp add: parse_spec_def parse_flags.simps [of m p] parse_width_def parse_prec_def parse_longs.simps [of m p])
qed

text \<open>The text of \<open>%d\<close>.\<close>

definition decimal :: "int \<Rightarrow> u8 list" where
  "decimal i = (if i < 0 then [45] else []) @ digits_of 10 (nat \<bar>i\<bar>)"

lemma signed_text_init: "signed_text spec_init w = decimal (sint w)"
  by (simp add: signed_text_def spec_init_def num_text_def sign_text_def decimal_def Let_def)

lemma length_decimal: "length (decimal (sint (w :: u32))) \<le> 11"
proof -
  have "- (2 ^ 31) \<le> sint w" "sint w < 2 ^ 31" using sint_range_size [of w] by (simp_all add: word_size)
  then have "nat \<bar>sint w\<bar> < 10 ^ 10" by (simp add: nat_less_iff abs_if)
  then have "length (digits_of 10 (nat \<bar>sint w\<bar>)) \<le> 10" using length_digits_of [of 10 _ 10] by simp
  then show ?thesis unfolding decimal_def by (cases "sint w < 0") simp_all
qed

lemma decimal_chars: "c \<in> set (decimal i) \<Longrightarrow> c = 45 \<or> 48 \<le> uint c \<and> uint c \<le> 57"
  using dec_digits_small by (auto simp: decimal_def)

lemma decimal_no_0: "0 \<notin> set (decimal i)"
  using decimal_chars [of 0 i] by auto

lemma directive_d:
  assumes "rd st fmt = 100"
  shows "directive rd putc False radix fmt spec_init (Word w # args) st =
    Some (fmt, args, fold putc (decimal (sint w)) st)"
  using assms print_signed_word [of spec_init putc w args st]
  by (simp add: directive_def signed_text_init) (simp add: spec_init_def)

lemma vsprintf_d:
  assumes "cstr m fmt [37, 100]" "\<forall>i<3. outside (fmt + of_nat i) s 12"
  shows "\<exists>m'. vsprintf s fmt [Word w] m = Some (of_nat (length (decimal (sint w))), m') \<and>
    cstr m' s (decimal (sint w)) \<and> (\<forall>a. outside a s 12 \<longrightarrow> m' a = m a)"
proof -
  let ?t = "decimal (sint w)" and ?K = "{fmt, fmt + 1, fmt + 2}"
  let ?st = "\<lparr>sp_mem = m, sp_buf = s, sp_len = 0, sp_max = SPRINTF_UNLIMITED\<rparr>"
  have m: "m fmt = 37" "m (fmt + 1) = 100" "m (fmt + 2) = 0" using assms(1) by (simp_all add: add.assoc)
  have K: "\<forall>a\<in>?K. outside a s 12" using assms(2) by (auto simp: numeral_3_eq_3 All_less_Suc2 add.assoc)
  have ok: "\<forall>a\<in>?K. outside a (sp_buf ?st) (length ?t + 0)"
    using K outside_mono length_decimal [of w] by fastforce
  have end0: "sp_mem (fold savechar ?t ?st) (fmt + 2) = 0"
    using sp.rd_fold [OF ok, of "fmt + 2"] m by simp
  have "parse_spec m (fmt + 1) [Word w] = Some (fmt + 1, spec_init, [Word w])"
    by (rule parse_spec_plain) (simp_all add: m dec_digit_def)
  from sp.doprnt_directive [of ?st fmt "[Word w]", OF _ _ directive_d] this m
  have "doprnt sp_mem savechar False 0 fmt [Word w] ?st = doprnt sp_mem savechar False 0 (fmt + 2) [] (fold savechar ?t ?st)"
    by (simp add: add.assoc)
  also have "\<dots> = Some (fold savechar ?t ?st)" using end0 by (subst doprnt.simps) simp
  finally have run: "doprnt sp_mem savechar False 0 fmt [Word w] ?st = Some (fold savechar ?t ?st)" .
  let ?m' = "(store_bytes s ?t m)(s + of_nat (length ?t) := 0)"
  have "vsprintf s fmt [Word w] m = Some (of_nat (length ?t), ?m')"
    by (simp add: vsprintf_def doprnt_truncates_def run fold_savechar_unlimited)
  moreover have "cstr ?m' s ?t" using store_bytes_cstr [OF decimal_no_0] length_decimal [of w] by simp
  moreover have "?m' a = m a" if "outside a s 12" for a
  proof -
    have "outside a s (Suc (length ?t))" using that outside_mono length_decimal [of w] by fastforce
    then have "outside a s (length ?t)" "a \<noteq> s + of_nat (length ?t)" by (auto simp: outside_def)
    then show ?thesis by (simp add: store_bytes_outside)
  qed
  ultimately show ?thesis by blast
qed

text \<open>\<open>strtol\<close> reads a decimal back.\<close>

lemma strtol_decimal:
  assumes "cstr m p (decimal i)"
  shows "strtol m p 10 = Some (of_int i, p + of_nat (length (decimal i)))"
proof -
  let ?ds = "digits_of 10 (nat \<bar>i\<bar>)"
  have ds: "\<forall>c\<in>set ?ds. is_digit 10 c" "value_of 10 0 ?ds = \<bar>i\<bar>" "?ds \<noteq> []"
    using digits_of_digits [of 10] by simp_all
  show ?thesis
  proof (cases "i < 0")
    case True
    then have "cstr m p ([] @ 45 # ?ds @ [])" using assms by (simp add: decimal_def)
    from strtol_cstr [OF this _ ds(1)] True ds(2) show ?thesis by (simp add: decimal_def)
  next
    case False
    then have "cstr m p (?ds @ [])" using assms by (simp add: decimal_def)
    from strtol_unsigned [OF this ds(1,3)] False ds(2) show ?thesis by (simp add: decimal_def)
  qed
qed

section \<open>Limits\<close>

text \<open>
  \<open>vsnprintf\<close> of a literal: as many characters as the limit says, and the terminator behind them,
  which is outside of a buffer of that size when the text does not fit.
\<close>

lemma doprnt_cstr_sp:
  assumes "cstr (sp_mem st) fmt t" "37 \<notin> set t" "\<forall>i\<le>length t. outside (fmt + of_nat i) (sp_buf st) (length t)"
  shows "doprnt sp_mem savechar False 0 fmt [] st = Some (fold savechar t st)"
proof -
  let ?K = "{fmt + of_nat i |i. i \<le> length t}"
  have ok: "\<forall>a\<in>?K. outside a (sp_buf st) (length t + 0)" using assms(3) by auto
  have "doprnt sp_mem savechar False 0 fmt [] st =
      doprnt sp_mem savechar False 0 (fmt + of_nat (length t)) [] (fold savechar t st)"
  proof (rule sp.doprnt_literal [OF ok assms(2)])
    show "0 \<notin> set t" using cstr_no_0 [OF assms(1)] .
    show "fmt + of_nat i \<in> ?K \<and> sp_mem st (fmt + of_nat i) = t ! i" if "i < length t" for i
      using that cstr_nth [OF assms(1) that] by (auto intro: exI [of _ i])
  qed
  moreover have "sp_mem (fold savechar t st) (fmt + of_nat (length t)) = 0"
    using sp.rd_fold [OF ok, of "fmt + of_nat (length t)"] cstr_end [OF assms(1)] by auto
  ultimately show ?thesis by (subst (asm) (2) doprnt.simps) simp
qed

lemma vsnprintf_literal:
  assumes "cstr m fmt t" "37 \<notin> set t" "\<forall>i\<le>length t. outside (fmt + of_nat i) s (length t)" "limit \<noteq> - 1"
  defines "k \<equiv> min (unat limit) (length t)"
  shows "vsnprintf s limit fmt [] m =
    Some (of_nat k, (store_bytes s (take k t) m)(s + of_nat k := 0))"
proof -
  let ?st = "\<lparr>sp_mem = m, sp_buf = s, sp_len = 0, sp_max = limit\<rparr>"
  have "doprnt sp_mem savechar False 0 fmt [] ?st = Some (fold savechar t ?st)"
    by (rule doprnt_cstr_sp) (use assms in simp_all)
  moreover have "take (unat limit) t = take k t" by (simp add: k_def min_def)
  moreover have "length (take k t) = k" by (simp add: k_def)
  ultimately show ?thesis
    using assms(4) fold_savechar_limited [of ?st t]
    by (simp add: vsnprintf_def doprnt_truncates_def SPRINTF_UNLIMITED_def fold_savechar_unlimited)
qed

section \<open>The line buffer\<close>

definition pf_ok :: "printf_state \<Rightarrow> bool" where
  "pf_ok st \<longleftrightarrow> length (pf_buf st) = PRINTF_BUFMAX \<and> pf_index st < PRINTF_BUFMAX \<and>
     0 \<notin> set (take (pf_index st) (pf_buf st))"

text \<open>What was written so far and what is in the buffer.\<close>

definition pf_text :: "printf_state \<Rightarrow> u8 list" where
  "pf_text st = concat (map snd (pf_out st)) @ take (pf_index st) (pf_buf st)"

lemma printf_char_ok: "pf_ok st \<Longrightarrow> pf_ok (printf_char c st)"
  by (auto simp: pf_ok_def printf_char_def flush_def PRINTF_BUFMAX_def Let_def take_Suc_conv_app_nth)

lemma takeWhile_terminated:
  "i < length xs \<Longrightarrow> 0 \<notin> set (take i xs) \<Longrightarrow> takeWhile (\<lambda>x. x \<noteq> 0) (xs[i := 0]) = take i xs"
proof (induction xs arbitrary: i)
  case (Cons x xs)
  then show ?case by (cases i) auto
qed simp

lemma printf_char_text:
  assumes "pf_ok st" "c = 10 \<or> pf_index st < 127 \<and> c \<noteq> 0"
  shows "pf_text (printf_char c st) = pf_text st @ [c]"
    "pf_index (printf_char c st) = (if c = 10 then 0 else Suc (pf_index st))"
  using assms takeWhile_terminated [of "pf_index st" "pf_buf st"]
  by (auto simp: pf_text_def pf_ok_def printf_char_def PRINTF_BUFMAX_def Let_def puts_bytes_def take_Suc_conv_app_nth)

text \<open>All lines of a text, where the first one already has \<open>k\<close> characters, fit into the buffer.\<close>

fun short_lines :: "nat \<Rightarrow> u8 list \<Rightarrow> bool" where
  "short_lines k [] \<longleftrightarrow> True"
| "short_lines k (c # t) \<longleftrightarrow> (if c = 10 then short_lines 0 t else k < 127 \<and> short_lines (Suc k) t)"

lemma fold_printf_char:
  assumes "pf_ok st" "short_lines (pf_index st) t" "0 \<notin> set t"
  shows "pf_ok (fold printf_char t st) \<and> pf_text (fold printf_char t st) = pf_text st @ t"
  using assms
proof (induction t arbitrary: st)
  case (Cons c t)
  have c: "c = 10 \<or> pf_index st < 127 \<and> c \<noteq> 0" using Cons.prems by (auto split: if_splits)
  note step = printf_char_text [OF Cons.prems(1) c]
  have "short_lines (pf_index (printf_char c st)) t" using Cons.prems(2) step(2) by (auto split: if_splits)
  from Cons.IH [OF printf_char_ok [OF Cons.prems(1)] this] Cons.prems(3) step(1) show ?case by simp
qed simp

lemma doprnt_cstr_pf:
  assumes "cstr (pf_mem st) fmt t" "37 \<notin> set t"
  shows "doprnt pf_mem printf_char False 0 fmt [] st = Some (fold printf_char t st)"
proof -
  have "doprnt pf_mem printf_char False 0 fmt [] st =
      doprnt pf_mem printf_char False 0 (fmt + of_nat (length t)) [] (fold printf_char t st)"
  proof (rule pf.doprnt_literal [OF TrueI assms(2)])
    show "0 \<notin> set t" using cstr_no_0 [OF assms(1)] .
    show "fmt + of_nat i \<in> UNIV \<and> pf_mem st (fmt + of_nat i) = t ! i" if "i < length t" for i
      using cstr_nth [OF assms(1) that] by simp
  qed
  moreover have "pf_mem (fold printf_char t st) (fmt + of_nat (length t)) = 0"
    using pf.rd_fold [OF TrueI UNIV_I] cstr_end [OF assms(1)] by simp
  ultimately show ?thesis by (subst (asm) (2) doprnt.simps) simp
qed

lemma vprintf_lines:
  assumes "cstr m fmt t" "37 \<notin> set t" "short_lines 0 t" "length frame = PRINTF_BUFMAX"
  shows "\<exists>log'. vprintf frame fmt [] m log = Some (0, log') \<and> concat (map snd log') = concat (map snd log) @ t"
proof -
  let ?st = "\<lparr>pf_mem = m, pf_buf = frame, pf_index = 0, pf_out = log\<rparr>"
  let ?st' = "fold printf_char t ?st"
  have "pf_ok ?st" using assms(4) by (simp add: pf_ok_def PRINTF_BUFMAX_def)
  from fold_printf_char [OF this, of t] assms(3) cstr_no_0 [OF assms(1)]
  have t: "pf_ok ?st'" "pf_text ?st' = concat (map snd log) @ t" by (simp_all add: pf_text_def)
  have "doprnt pf_mem printf_char False 0 fmt [] ?st = Some ?st'"
    by (rule doprnt_cstr_pf) (use assms in simp_all)
  then have "vprintf frame fmt [] m log = Some (0, pf_out (if pf_index ?st' \<noteq> 0 then flush ?st' else ?st'))"
    by (simp add: vprintf_def doprnt_truncates_def)
  moreover have "concat (map snd (pf_out (if pf_index ?st' \<noteq> 0 then flush ?st' else ?st'))) = pf_text ?st'"
    using t(1) by (simp add: pf_text_def flush_def Let_def pf_ok_def)
  ultimately show ?thesis using t(2) by simp
qed

text \<open>The character that no longer fits is written as an \<open>int\<close>: with three zero bytes behind it.\<close>

lemma vprintf_overlong:
  assumes "cstr m fmt (t @ [c])" "37 \<notin> set (t @ [c])" "10 \<notin> set (t @ [c])" "length t = 127"
    and "length frame = PRINTF_BUFMAX"
  shows "vprintf frame fmt [] m log = Some (0, log @ [(STDOUT, t), (STDOUT, [c, 0, 0, 0])])"
proof -
  let ?st = "\<lparr>pf_mem = m, pf_buf = frame, pf_index = 0, pf_out = log\<rparr>"
  let ?st' = "fold printf_char t ?st"
  have z: "0 \<notin> set (t @ [c])" using cstr_no_0 [OF assms(1)] .
  have fill: "pf_buf (fold printf_char u st) = take (pf_index st) (pf_buf st) @ u @ drop (pf_index st + length u) (pf_buf st) \<and>
      pf_index (fold printf_char u st) = pf_index st + length u \<and> pf_out (fold printf_char u st) = pf_out st"
    if "0 \<notin> set u" "10 \<notin> set u" "pf_index st + length u \<le> 127" "length (pf_buf st) = 128" for u st
    using that
  proof (induction u arbitrary: st)
    case (Cons x u)
    have "printf_char x st = st\<lparr>pf_buf := (pf_buf st)[pf_index st := x], pf_index := pf_index st + 1\<rparr>"
      using Cons.prems by (auto simp: printf_char_def PRINTF_BUFMAX_def)
    then show ?case
      using Cons.IH [of "printf_char x st"] Cons.prems by (simp add: take_Suc_conv_app_nth)
  qed simp
  have st': "pf_buf ?st' = t @ drop 127 frame" "pf_index ?st' = 127" "pf_out ?st' = log"
    using fill [of t ?st] z assms(3-5) by (simp_all add: PRINTF_BUFMAX_def)
  have "c \<noteq> 10" "c \<noteq> 0" using assms(3) z by auto
  have cb: "ucast (drop_bit n (ucast c :: u32)) = (0 :: u8)" if "8 \<le> n" for n
    by (rule bit_word_eqI) (use that in \<open>auto simp: bit_simps dest: bit_imp_le_length\<close>)
  have c0: "ucast (ucast c :: u32) = c"
    by (rule bit_word_eqI) (auto simp: bit_simps)
  have run: "pf_index (printf_char c ?st') = 0"
      "pf_out (printf_char c ?st') = log @ [(STDOUT, t), (STDOUT, [c, 0, 0, 0])]"
    using st' assms(4) \<open>c \<noteq> 10\<close> \<open>c \<noteq> 0\<close>
    by (simp_all add: printf_char_def PRINTF_BUFMAX_def flush_def putchar_def Let_def list_update_append cb c0)
  have "doprnt pf_mem printf_char False 0 fmt [] ?st = Some (printf_char c ?st')"
    using doprnt_cstr_pf [of ?st fmt "t @ [c]"] assms(1,2) by simp
  then show ?thesis using run by (simp add: vprintf_def doprnt_truncates_def)
qed

end
