(* ===== verification/Doscan.thy ===== *)
theory Doscan
  imports Format
begin

text \<open>
  tasks/libc/stdio/doscan.c and sscanf.c: formatted input. The source of characters is read with
  \<open>getc\<close> and stepped back with \<open>ungetc\<close>; its position \<open>'p\<close> is what they change. The values are stored
  in memory. The result is the number of conversions, with memory and position.
\<close>

section \<open>The code\<close>

type_synonym 'p source = "memory \<Rightarrow> 'p \<Rightarrow> int \<times> 'p"

text \<open>\<open>while (isspace(c = getc(getc_arg)));\<close>\<close>

partial_function (option) scan_space :: "'p source \<Rightarrow> memory \<Rightarrow> 'p \<Rightarrow> (int \<times> 'p) option" where
  "scan_space getc m p =
     (let (c, p) = getc m p in if c_isspace c then scan_space getc m p else Some (c, p))"

text \<open>The digit loops, with the look-ahead character \<open>c\<close>; a \<open>long\<close> wraps around.\<close>

partial_function (option) scan_dec ::
  "'p source \<Rightarrow> memory \<Rightarrow> 'p \<Rightarrow> int \<Rightarrow> u32 \<Rightarrow> (u32 \<times> int \<times> 'p) option" where
  "scan_dec getc m p c n =
     (if 48 \<le> c \<and> c \<le> 57 then
        let n = n * 10 + of_int (c - 48); (c, p) = getc m p in scan_dec getc m p c n
      else Some (n, c, p))"

definition scan_hex_digit :: "int \<Rightarrow> int option" where
  "scan_hex_digit c =
     (if 48 \<le> c \<and> c \<le> 57 then Some (c - 48)
      else if 97 \<le> c \<and> c \<le> 102 then Some (c - 97 + 10)
      else if 65 \<le> c \<and> c \<le> 70 then Some (c - 65 + 10)
      else None)"

partial_function (option) scan_hex ::
  "'p source \<Rightarrow> memory \<Rightarrow> 'p \<Rightarrow> int \<Rightarrow> u32 \<Rightarrow> (u32 \<times> int \<times> 'p) option" where
  "scan_hex getc m p c n =
     (case scan_hex_digit c of
        Some d \<Rightarrow> let n = n * 16 + of_int d; (c, p) = getc m p in scan_hex getc m p c n
      | None \<Rightarrow> Some (n, c, p))"

text \<open>The cases \<open>d\<close> and \<open>x\<close>: a sign, the digits read by \<open>loop\<close>, and the store.\<close>

definition scan_number ::
  "('p source \<Rightarrow> memory \<Rightarrow> 'p \<Rightarrow> int \<Rightarrow> u32 \<Rightarrow> (u32 \<times> int \<times> 'p) option) \<Rightarrow>
   'p source \<Rightarrow> (int \<Rightarrow> 'p \<Rightarrow> 'p) \<Rightarrow> bool \<Rightarrow> va list \<Rightarrow> memory \<Rightarrow> 'p \<Rightarrow> (va list \<times> memory \<times> 'p) option" where
  "scan_number loop getc ungetc discard args m p = do {
     let (c, p) = getc m p;
     let neg = (c = 45);
     let (c, p) = (if neg then getc m p else (c, p));
     (n, c, p) \<leftarrow> loop getc m p c 0;
     let p = ungetc c p;
     let n = (if neg then - n else n);
     if discard then Some (args, m, p)
     else do { (q, args) \<leftarrow> va_word args; Some (args, store32 m q n, p) } }"

partial_function (option) scan_word ::
  "'p source \<Rightarrow> bool \<Rightarrow> memory \<Rightarrow> 'p \<Rightarrow> int \<Rightarrow> u32 \<Rightarrow> (int \<times> u32 \<times> memory \<times> 'p) option" where
  "scan_word getc discard m p c buf =
     (if \<not> c_isspace c then
        let (m, buf) = (if discard then (m, buf) else (m(buf := of_int c), buf + 1)); (c, p) = getc m p
        in scan_word getc discard m p c buf
      else Some (c, buf, m, p))"

definition scan_string ::
  "'p source \<Rightarrow> (int \<Rightarrow> 'p \<Rightarrow> 'p) \<Rightarrow> bool \<Rightarrow> va list \<Rightarrow> memory \<Rightarrow> 'p \<Rightarrow> (va list \<times> memory \<times> 'p) option" where
  "scan_string getc ungetc discard args m p = do {
     (buf, args) \<leftarrow> (if discard then Some (0, args) else va_word args);
     let (c, p) = getc m p;
     (c, buf, m, p) \<leftarrow> scan_word getc discard m p c buf;
     let p = ungetc c p;
     Some (args, if discard then m else m(buf := 0), p) }"

text \<open>The label \<open>more_fmt\<close>: every \<open>*\<close> turns the assignment off.\<close>

partial_function (option) skip_stars :: "memory \<Rightarrow> u32 \<Rightarrow> bool \<Rightarrow> (u32 \<times> bool) option" where
  "skip_stars m fmt discard =
     (if m fmt = 42 then skip_stars m (fmt + 1) True else Some (fmt, discard))"

text \<open>A format character that is not \<open>%\<close>: the scan goes on, or ends with a mismatch.\<close>

definition scan_plain ::
  "'p source \<Rightarrow> (int \<Rightarrow> 'p \<Rightarrow> 'p) \<Rightarrow> memory \<Rightarrow> u8 \<Rightarrow> 'p \<Rightarrow> (bool \<times> 'p) option" where
  "scan_plain getc ungetc m c p =
     (if c_isspace (uint c) then do { (d, p) \<leftarrow> scan_space getc m p; Some (True, ungetc d p) }
      else let (d, p) = getc m p in Some (uint c = d, p))"

text \<open>
  A conversion. Its character is taken without a test, so a format that ends in \<open>%\<close> is read on
  behind its terminator. The result has the rest of the format and whether the value counts.
\<close>

definition scan_conv ::
  "'p source \<Rightarrow> (int \<Rightarrow> 'p \<Rightarrow> 'p) \<Rightarrow> u32 \<Rightarrow> va list \<Rightarrow> memory \<Rightarrow> 'p \<Rightarrow>
   (u32 \<times> bool \<times> va list \<times> memory \<times> 'p) option" where
  "scan_conv getc ungetc fmt args m p = do {
     (fmt, discard) \<leftarrow> skip_stars m fmt False;
     let c = m fmt;
     (args, m, p) \<leftarrow> (if c = 100 then scan_number scan_dec getc ungetc discard args m p
                     else if c = 120 then scan_number scan_hex getc ungetc discard args m p
                     else if c = 115 then scan_string getc ungetc discard args m p
                     else Some (args, m, p));
     Some (fmt + 1, \<not> discard, args, m, p) }"

partial_function (option) doscan ::
  "'p source \<Rightarrow> (int \<Rightarrow> 'p \<Rightarrow> 'p) \<Rightarrow> u32 \<Rightarrow> va list \<Rightarrow> u32 \<Rightarrow> memory \<Rightarrow> 'p \<Rightarrow> (u32 \<times> memory \<times> 'p) option" where
  "doscan getc ungetc fmt args vals m p =
     (if m fmt = 0 then Some (vals, m, p)
      else if m fmt \<noteq> 37 then do {
        (match, p) \<leftarrow> scan_plain getc ungetc m (m fmt) p;
        if match then doscan getc ungetc (fmt + 1) args vals m p else Some (vals, m, p) }
      else do {
        (fmt, stored, args, m, p) \<leftarrow> scan_conv getc ungetc (fmt + 1) args m p;
        doscan getc ungetc fmt args (if stored then vals + 1 else vals) m p })"

text \<open>sscanf.c: the characters of a string.\<close>

definition readchar :: "u32 source" where
  "readchar m p = (uint (m p), p + 1)"

definition unchar :: "int \<Rightarrow> u32 \<Rightarrow> u32" where
  "unchar c p = p - 1"

definition vsscanf :: "u32 \<Rightarrow> u32 \<Rightarrow> va list \<Rightarrow> memory \<Rightarrow> (u32 \<times> memory) option" where
  "vsscanf s fmt args m = map_option (\<lambda>(vals, m, p). (vals, m)) (doscan readchar unchar fmt args 0 m s)"

definition sscanf :: "u32 \<Rightarrow> u32 \<Rightarrow> va list \<Rightarrow> memory \<Rightarrow> (u32 \<times> memory) option" where
  "sscanf s fmt args m = vsscanf s fmt args m"

section \<open>Decimal numbers\<close>

lemma digit_value: "48 \<le> uint c \<Longrightarrow> uint c \<le> 57 \<Longrightarrow> the (digit_of 10 (uint c)) = uint c - 48"
  by (simp add: digit_of_def)

lemma scan_dec_cstr:
  assumes "cstr m p (ds @ rest)" "\<forall>c\<in>set ds. 48 \<le> uint c \<and> uint c \<le> 57"
    and "rest = [] \<or> uint (rest ! 0) < 48 \<or> 57 < uint (rest ! 0)"
  shows "scan_dec readchar m (p + 1) (uint (m p)) v = Some
    (foldl (\<lambda>v c. v * of_int 10 + of_int (the (digit_of 10 (uint c)))) v ds,
     uint (m (p + of_nat (length ds))), p + of_nat (length ds) + 1)"
  using assms(1,2)
proof (induction ds arbitrary: p v)
  case Nil
  have "\<not> (48 \<le> uint (m p) \<and> uint (m p) \<le> 57)"
  proof (cases rest)
    case (Cons r rs)
    then show ?thesis using Nil assms(3) by auto
  qed (use Nil in simp)
  then show ?case by (subst scan_dec.simps) auto
next
  case (Cons c ds)
  then have c: "m p = c" "48 \<le> uint c" "uint c \<le> 57" "cstr m (p + 1) (ds @ rest)" by auto
  have "readchar m (p + 1) = (uint (m (p + 1)), p + 1 + 1)" by (simp add: readchar_def)
  with Cons.IH [OF c(4)] Cons.prems(2) c(1-3) show ?case
    by (subst scan_dec.simps) (simp add: digit_value algebra_simps)
qed

lemma scan_number_decimal:
  assumes "cstr m p (decimal i)"
  shows "scan_number scan_dec readchar unchar False [Word q] m p =
    Some ([], store32 m q (of_int i), p + of_nat (length (decimal i)))"
proof -
  let ?ds = "digits_of 10 (nat \<bar>i\<bar>)"
  have ds: "\<forall>c\<in>set ?ds. 48 \<le> uint c \<and> uint c \<le> 57" "value_of 10 0 ?ds = \<bar>i\<bar>" "?ds \<noteq> []"
    using digits_of_digits [of 10] dec_digits_small by auto
  have scan: "scan_dec readchar m (a + 1) (uint (m a)) 0 =
      Some (of_int \<bar>i\<bar>, uint (m (a + of_nat (length ?ds))), a + of_nat (length ?ds) + 1)"
    if "cstr m a ?ds" for a
    using scan_dec_cstr [of m a ?ds "[]" 0] that ds(1,2) value_of_word [of 10 0 ?ds] by simp
  show ?thesis
  proof (cases "i < 0")
    case True
    then have c: "m p = 45" "cstr m (p + 1) ?ds" using assms by (simp_all add: decimal_def)
    have "uint (m p) = 45" unfolding c(1) by simp
    then show ?thesis using True c(2) scan [of "p + 1"]
      by (simp add: scan_number_def readchar_def unchar_def decimal_def algebra_simps)
  next
    case False
    then have c: "cstr m p ?ds" using assms by (simp add: decimal_def)
    moreover have "m p \<noteq> 45" using c ds(1,3) by (cases ?ds) auto
    moreover have "uint (m p) \<noteq> 45" using \<open>m p \<noteq> 45\<close> word_uint_eq_iff [of "m p" 45] by simp
    ultimately show ?thesis using False scan [of p]
      by (simp add: scan_number_def readchar_def unchar_def decimal_def algebra_simps)
  qed
qed

lemma vsscanf_d:
  assumes "cstr m fmt [37, 100]" "cstr m s (decimal i)" "outside (fmt + 2) q 4"
  shows "vsscanf s fmt [Word q] m = Some (1, store32 m q (of_int i))"
proof -
  have f: "m fmt = 37" "m (fmt + 1) = 100" "m (fmt + 2) = 0" using assms(1) by (simp_all add: add.assoc)
  have o: "fmt + 2 \<noteq> q" "fmt + 2 \<noteq> q + 1" "fmt + 2 \<noteq> q + 2" "fmt + 2 \<noteq> q + 3"
    using assms(3) unfolding outside_def by (auto dest: spec [of _ 0] spec [of _ 1] spec [of _ 2] spec [of _ 3])
  have end0: "store32 m q w (fmt + 2) = 0" for w using f(3) o by (simp add: store32_def)
  let ?p = "s + of_nat (length (decimal i))"
  have "scan_conv readchar unchar (fmt + 1) [Word q] m s = Some (fmt + 2, True, [], store32 m q (of_int i), ?p)"
    using f scan_number_decimal [OF assms(2), of q]
    by (simp add: scan_conv_def skip_stars.simps [of m "fmt + 1"] add.assoc)
  then have "doscan readchar unchar fmt [Word q] 0 m s = doscan readchar unchar (fmt + 2) [] 1 (store32 m q (of_int i)) ?p"
    using f by (subst doscan.simps) simp
  also have "\<dots> = Some (1, store32 m q (of_int i), ?p)" using end0 by (subst doscan.simps) simp
  finally show ?thesis by (simp add: vsscanf_def)
qed

text \<open>
  \<open>%s\<close> stops at white space only: the zero byte that ends the string is copied like any other
  character, and the scan goes on behind it.
\<close>

lemma scan_word_past_end:
  assumes "m p = 0" "buf \<noteq> p" "scan_word readchar False m (p + 1) (uint (m p)) buf = Some (c, buf', m', p')"
  shows "scan_word readchar False (m(buf := 0)) (p + 2) (uint ((m(buf := 0)) (p + 1))) (buf + 1) = Some (c, buf', m', p')"
  using assms by (subst (asm) scan_word.simps) (simp add: c_isspace_def readchar_def add.assoc)

end
