(* ===== verification/Apps.thy ===== *)
theory Apps
  imports Format Syscall
begin

text \<open>
  tasks/rot13/rot13.c on the console calls of the kernel, with the C library's wrappers of \<open>read\<close> and
  \<open>write\<close> (src/tasks/libc/swi).
\<close>

section \<open>rot13\<close>

definition rot13_char :: "u8 \<Rightarrow> u8" where
  "rot13_char c =
     (if (c \<ge> 65 \<and> c \<le> 77) \<or> (c \<ge> 97 \<and> c \<le> 109) then c + 13
      else if (c \<ge> 78 \<and> c \<le> 90) \<or> (c \<ge> 110 \<and> c \<le> 122) then c - 13
      else c)"

definition rot13_translate :: "u32 \<Rightarrow> u32 \<Rightarrow> nat \<Rightarrow> memory \<Rightarrow> memory option" where
  "rot13_translate inBuffer outBuffer readResult = for_range 0 readResult (\<lambda>cnt m.
     Some (m(outBuffer + of_nat cnt := rot13_char (m (inBuffer + of_nat cnt)))))"

text \<open>The wrappers of \<open>read\<close> and \<open>write\<close> turn a negative result into -1.\<close>

definition user_result :: "u32 \<Rightarrow> u32" where
  "user_result r = (if r <s 0 then - 1 else r)"

partial_function (option) rot13_write :: "u32 \<Rightarrow> u32 \<Rightarrow> u32 \<Rightarrow> io \<Rightarrow> (u32 \<times> io) option" where
  "rot13_write outBuffer readResult writeloc s = do {
     (r, s) \<leftarrow> write_syscall STDOUT_FILENO (outBuffer + writeloc) readResult s;
     let writeResult = user_result r;
     let writeloc = (if 0 <s writeResult then writeloc + writeResult else writeloc);
     if 0 <s writeResult \<and> writeloc \<noteq> readResult then rot13_write outBuffer readResult writeloc s
     else Some (writeResult, s) }"

text \<open>The body of the loop after a read of \<open>readResult\<close> characters; \<open>N\<close> is 10.\<close>

definition rot13_reply :: "u32 \<Rightarrow> u32 \<Rightarrow> u32 \<Rightarrow> io \<Rightarrow> (u32 \<times> io) option" where
  "rot13_reply inBuffer outBuffer readResult s = do {
     m \<leftarrow> rot13_translate inBuffer outBuffer (unat readResult) (mem s);
     (writeResult, s) \<leftarrow> rot13_write outBuffer readResult 0 (s\<lparr>mem := m\<rparr>);
     if readResult = 10 \<and> mem s (outBuffer + 9) \<noteq> 10 \<and> mem s (outBuffer + 9) \<noteq> 13
     then map_option (\<lambda>(r, s). (user_result r, s)) (write_syscall STDOUT_FILENO (outBuffer + 10) 1 s)
     else Some (writeResult, s) }"

partial_function (option) rot13_loop :: "u32 \<Rightarrow> u32 \<Rightarrow> io \<Rightarrow> (u32 \<times> io) option" where
  "rot13_loop inBuffer outBuffer s = do {
     (r, s) \<leftarrow> read_syscall STDIN_FILENO inBuffer 10 s;
     if 0 <s user_result r then do {
       (w, s) \<leftarrow> rot13_reply inBuffer outBuffer (user_result r) s;
       if w <s 0 then Some (1, s) else rot13_loop inBuffer outBuffer s }
     else Some (1, s) }"

text \<open>
  The printing of the arguments, byte by byte. The literals are in the program's read-only data;
  \<open>rot13_say\<close> writes one.
\<close>

definition rot13_say :: "u8 list \<Rightarrow> io \<Rightarrow> io" where
  "rot13_say t s = s\<lparr>calls := calls s @ write_calls t\<rparr>"

partial_function (option) rot13_arg :: "u32 \<Rightarrow> io \<Rightarrow> io option" where
  "rot13_arg p s =
     (if mem s p \<noteq> 0 then do { (r, s) \<leftarrow> write_syscall STDOUT_FILENO p 1 s; rot13_arg (p + 1) s }
      else Some s)"

primrec rot13_args :: "u32 list \<Rightarrow> io \<Rightarrow> io option" where
  "rot13_args [] s = Some s"
| "rot13_args (p # argv) s = do { s \<leftarrow> rot13_arg p s; rot13_args argv (rot13_say [32, 32] s) }"

definition rot13_arguments :: "u32 list \<Rightarrow> io \<Rightarrow> io option" where
  "rot13_arguments argv s =
     (let s = rot13_say (map of_char ''Firstly, let's test the argumens'' @ [10]) s
      in if length argv = 0 then Some (rot13_say (map of_char ''There is no arguments'') s)
         else map_option (rot13_say [10]) (rot13_args argv (rot13_say (map of_char ''Arguments are: '') s)))"

definition rot13_main :: "u32 list \<Rightarrow> u32 \<Rightarrow> u32 \<Rightarrow> io \<Rightarrow> (u32 \<times> io) option" where
  "rot13_main argv inBuffer outBuffer s = do {
     s \<leftarrow> rot13_arguments argv (s\<lparr>mem := (mem s)(outBuffer + 10 := 10)\<rparr>);
     rot13_loop inBuffer outBuffer s }"

subsection \<open>The dialog\<close>

lemma rot13_involution: "rot13_char (rot13_char c) = c"
proof -
  have "unat (c + 13) = unat c + 13" if "unat c \<le> 109"
    using that by (subst unat_add_lem [THEN iffD1]) simp_all
  moreover have "unat (c - 13) = unat c - 13" if "78 \<le> unat c"
    using that by (subst unat_sub) (simp_all add: word_le_nat_alt)
  ultimately show ?thesis unfolding rot13_char_def word_le_nat_alt by auto
qed

text \<open>What the application answers to a line, and the whole dialog up to an empty line (an EOT).\<close>

definition rot13_answer :: "u8 list \<Rightarrow> uboot_call list" where
  "rot13_answer line =
     (let out = map rot13_char line
      in write_calls out @ (if length line = 10 \<and> last out \<noteq> 10 \<and> last out \<noteq> 13 then [Putc 10] else []))"

inductive rot13_dialog :: "u8 list \<Rightarrow> uboot_call list \<Rightarrow> u8 list \<Rightarrow> bool" where
  finish: "rot13_dialog inp (echo_line 10 [] inp) rest" if "edit_line 10 [] inp = Some ([], rest)"
| answer: "rot13_dialog inp (echo_line 10 [] inp @ rot13_answer line @ out) rest'"
    if "edit_line 10 [] inp = Some (line, rest)" "line \<noteq> []" "rot13_dialog rest out rest'"

lemma rot13_translate_eq:
  assumes "disjoint inb n outb n" "n \<le> 2 ^ 32"
  shows "\<exists>m'. rot13_translate inb outb n m = Some m' \<and> bytes m' outb n = map rot13_char (bytes m inb n) \<and>
    (\<forall>a. outside a outb n \<longrightarrow> m' a = m a)"
proof -
  let ?P = "\<lambda>i m'. (\<forall>j<i. m' (outb + of_nat j) = rot13_char (m (inb + of_nat j))) \<and> (\<forall>a. outside a outb i \<longrightarrow> m' a = m a)"
  have "\<exists>m'. rot13_translate inb outb n m = Some m' \<and> ?P n m'"
    unfolding rot13_translate_def
  proof (rule for_range_inv [where P = ?P])
    fix i m1
    assume i: "i < n" and P: "?P i m1"
    have "outside (inb + of_nat i) outb i"
      using assms(1) i outside_mono [OF disjoint_outside [OF assms(1) i], of i] by simp
    then have src: "m1 (inb + of_nat i) = m (inb + of_nat i)" using P by blast
    have ne: "outb + of_nat j \<noteq> outb + of_nat i" if "j < i" for j
      using that i assms(2) by (simp add: of_nat_u32_eq)
    have "?P (Suc i) (m1(outb + of_nat i := rot13_char (m1 (inb + of_nat i))))"
      using P ne src by (auto simp: less_Suc_eq outside_def)
    then show "\<exists>m2. Some (m1(outb + of_nat i := rot13_char (m1 (inb + of_nat i)))) = Some m2 \<and> ?P (Suc i) m2"
      by blast
  qed simp_all
  then obtain m' where m': "rot13_translate inb outb n m = Some m'" "?P n m'" by blast
  then have "bytes m' outb n = map rot13_char (bytes m inb n)" by (simp add: bytes_def)
  with m' show ?thesis by blast
qed

text \<open>Where the two buffers may be: in user memory and apart from each other.\<close>

definition buffers_ok :: "u32 \<Rightarrow> u32 \<Rightarrow> bool" where
  "buffers_ok inb outb \<longleftrightarrow> LEGEL_MEM_START_ADDR \<le> inb \<and> unat inb + 10 \<le> unat KERNEL_START_ADDR \<and>
     LEGEL_MEM_START_ADDR \<le> outb \<and> unat outb + 11 \<le> unat KERNEL_START_ADDR \<and> disjoint inb 10 outb 11"

lemma small_u32:
  assumes "unat r < 2147483648"
  shows "sint (r :: u32) = int (unat r)"
proof -
  have "int (unat r) < 2147483648" "- 2147483648 \<le> int (unat r)" using assms by linarith+
  then have "sint (of_int (int (unat r)) :: u32) = int (unat r)" by (intro sint_small)
  then show ?thesis by simp
qed

lemma user_result_pos: "unat r < 2147483648 \<Longrightarrow> user_result r = r \<and> (0 <s r \<longleftrightarrow> r \<noteq> 0) \<and> \<not> r <s 0"
  using small_u32 [of r] uint_ge_0 [of r] uint_0_iff [of r]
  by (auto simp: user_result_def word_sless_alt order.order_iff_strict)

lemma rot13_write_ok:
  assumes "LEGEL_MEM_START_ADDR \<le> outb" "unat outb + unat n \<le> unat KERNEL_START_ADDR" "n \<noteq> 0" "unat n \<le> 10"
  shows "rot13_write outb n 0 s = Some (n, s\<lparr>calls := calls s @ write_calls (bytes (mem s) outb (unat n))\<rparr>)"
  using write_syscall_ok [OF assms(1-3), of s] user_result_pos [of n] assms(3,4)
  by (subst rot13_write.simps) simp

lemma rot13_reply_ok:
  assumes "buffers_ok inb outb" "n \<noteq> 0" "unat n \<le> 10" "mem s (outb + 10) = 10" "bytes (mem s) inb (unat n) = line"
  shows "\<exists>w s'. rot13_reply inb outb n s = Some (w, s') \<and> \<not> w <s 0 \<and> input s' = input s \<and>
    mem s' (outb + 10) = 10 \<and> calls s' = calls s @ rot13_answer line"
proof -
  note b = assms(1) [unfolded buffers_ok_def]
  have dis: "disjoint inb (unat n) outb (unat n)" using b assms(3) by (simp add: disjoint_def)
  have "unat n \<le> 2 ^ 32" using assms(3) by simp
  with rot13_translate_eq [OF dis, of "mem s"] obtain m' where m': "rot13_translate inb outb (unat n) (mem s) = Some m'"
      "bytes m' outb (unat n) = map rot13_char line" "\<forall>a. outside a outb (unat n) \<longrightarrow> m' a = mem s a"
    using assms(5) by auto
  have "outb + 10 \<noteq> outb + of_nat i" if "i < 10" for i
    using that of_nat_u32_eq [of 10 i] by auto
  then have "outside (outb + 10) outb (unat n)" using assms(3) by (simp add: outside_def)
  then have nl: "m' (outb + 10) = 10" using m'(3) assms(4) by simp
  have w: "rot13_write outb n 0 (s\<lparr>mem := m'\<rparr>) =
      Some (n, s\<lparr>mem := m', calls := calls s @ write_calls (map rot13_char line)\<rparr>)"
    using rot13_write_ok [of outb n "s\<lparr>mem := m'\<rparr>"] b assms(2,3) m'(2) by simp
  have len: "length line = unat n" using assms(5) by auto
  have last: "m' (outb + 9) = last (map rot13_char line)" "line \<noteq> []" if "n = 10"
  proof -
    have "map rot13_char line = bytes m' outb 9 @ [m' (outb + of_nat 9)]"
      using m'(2) that bytes_Suc [of m' outb 9] by simp
    then show "m' (outb + 9) = last (map rot13_char line)" by simp
    show "line \<noteq> []" using len that by auto
  qed
  show ?thesis
  proof (cases "n = 10 \<and> m' (outb + 9) \<noteq> 10 \<and> m' (outb + 9) \<noteq> 13")
    case True
    let ?s = "s\<lparr>mem := m', calls := calls s @ write_calls (map rot13_char line)\<rparr>"
    have "bytes m' (outb + 10) 1 = [10]" using nl bytes_Suc [of m' "outb + 10" 0] by simp
    moreover have "unat (outb + 10) = unat outb + 10"
      using b by (subst unat_add_lem [THEN iffD1]) simp_all
    ultimately have "write_syscall STDOUT_FILENO (outb + 10) 1 ?s =
        Some (1, ?s\<lparr>calls := calls ?s @ [Putc 10]\<rparr>)"
      using write_syscall_ok [of "outb + 10" 1 ?s] b by (simp add: write_calls_def word_le_nat_alt)
    then have "rot13_reply inb outb n s = Some (1, ?s\<lparr>calls := calls ?s @ [Putc 10]\<rparr>)"
      using True m'(1) w user_result_pos [of 1] by (simp add: rot13_reply_def)
    then show ?thesis
      using True last len nl user_result_pos [of 1] by (simp add: rot13_answer_def Let_def)
  next
    case False
    then have "rot13_reply inb outb n s = Some (n, s\<lparr>mem := m', calls := calls s @ write_calls (map rot13_char line)\<rparr>)"
      using m'(1) w by (auto simp: rot13_reply_def)
    moreover have "rot13_answer line = write_calls (map rot13_char line)"
    proof (cases "n = 10")
      case True
      then show ?thesis using False last by (auto simp: rot13_answer_def Let_def)
    next
      case n: False
      then have "unat n \<noteq> 10" using word_unat_eq_iff [of n 10] by simp
      then show ?thesis using len by (simp add: rot13_answer_def Let_def)
    qed
    ultimately show ?thesis using nl user_result_pos [of n] assms(3) by simp
  qed
qed

lemma rot13_loop_dialog:
  "rot13_dialog inp out rest \<Longrightarrow> buffers_ok inb outb \<Longrightarrow> input s = inp \<Longrightarrow> mem s (outb + 10) = 10 \<Longrightarrow>
    \<exists>s'. rot13_loop inb outb s = Some (1, s') \<and> input s' = rest \<and> calls s' = calls s @ out"
proof (induction arbitrary: s rule: rot13_dialog.induct)
  case (finish inp rest)
  then have b: "LEGEL_MEM_START_ADDR \<le> inb" "unat inb + unat (10 :: u32) \<le> unat KERNEL_START_ADDR"
    by (simp_all add: buffers_ok_def)
  obtain s' where "read_syscall STDIN_FILENO inb 10 s = Some (0, s')" "input s' = rest"
      "calls s' = calls s @ echo_line 10 [] inp"
    using read_syscall_line [OF b, of s "[]" rest] finish by auto
  then show ?case using user_result_pos [of 0] by (subst rot13_loop.simps) simp
next
  case (answer inp line rest out rest')
  then have b: "LEGEL_MEM_START_ADDR \<le> inb" "unat inb + unat (10 :: u32) \<le> unat KERNEL_START_ADDR"
    by (simp_all add: buffers_ok_def)
  obtain s1 where s1: "read_syscall STDIN_FILENO inb 10 s = Some (of_nat (length line), s1)" "length line \<le> 10"
      "bytes (mem s1) inb (length line) = line" "input s1 = rest" "calls s1 = calls s @ echo_line 10 [] inp"
      "read_frame s s1 inb 10"
    using read_syscall_line [OF b, of s line rest] answer.hyps(1) answer.prems(2) by auto
  have n: "unat (of_nat (length line) :: u32) = length line" using s1(2) by (intro unat_lt_of_nat_iff) simp
  then have n0: "(of_nat (length line) :: u32) \<noteq> 0" using answer.hyps(2) by (metis length_0_conv unat_0)
  have "inb + of_nat i \<noteq> outb + 10" if "i < 10" for i
  proof -
    have "inb + of_nat i \<noteq> outb + of_nat 10"
      using answer.prems(1) that unfolding buffers_ok_def disjoint_def by (metis lessI eval_nat_numeral(3))
    then show ?thesis by simp
  qed
  then have nl: "mem s1 (outb + 10) = 10" using s1(6) answer.prems(3) unfolding read_frame_def by metis
  obtain w s2 where s2: "rot13_reply inb outb (of_nat (length line)) s1 = Some (w, s2)" "\<not> w <s 0"
      "input s2 = rest" "mem s2 (outb + 10) = 10" "calls s2 = calls s1 @ rot13_answer line"
    using rot13_reply_ok [OF answer.prems(1) n0, of s1 line] n s1(2-4) nl by auto
  obtain s' where "rot13_loop inb outb s2 = Some (1, s')" "input s' = rest'" "calls s' = calls s2 @ out"
    using answer.IH [OF answer.prems(1) s2(3,4)] by blast
  then show ?case
    using s1(1,5) s2 n n0 user_result_pos [of "of_nat (length line)"] s1(2) by (subst rot13_loop.simps) simp
qed


subsection \<open>The arguments\<close>

definition rot13_intro :: "u8 list list \<Rightarrow> uboot_call list" where
  "rot13_intro texts = map Putc (map of_char ''Firstly, let's test the argumens'' @ [10]) @
     (if texts = [] then map Putc (map of_char ''There is no arguments'')
      else map Putc (map of_char ''Arguments are: '') @
        concat (map (\<lambda>t. concat (map (\<lambda>c. write_calls [c]) t) @ [Putc 32, Putc 32]) texts) @ [Putc 10])"

text \<open>A string in user memory.\<close>

definition arg_ok :: "memory \<Rightarrow> u32 \<Rightarrow> u8 list \<Rightarrow> bool" where
  "arg_ok m p t \<longleftrightarrow> cstr m p t \<and> LEGEL_MEM_START_ADDR \<le> p \<and> unat p + length t \<le> unat KERNEL_START_ADDR"

lemma rot13_arg_eq:
  "arg_ok (mem s) p t \<Longrightarrow>
    rot13_arg p s = Some (s\<lparr>calls := calls s @ concat (map (\<lambda>c. write_calls [c]) t)\<rparr>)"
proof (induction t arbitrary: p s)
  case Nil
  then show ?case by (subst rot13_arg.simps) (simp add: arg_ok_def)
next
  case (Cons c t)
  have c: "mem s p = c" "c \<noteq> 0" "cstr (mem s) (p + 1) t" using Cons.prems by (auto simp: arg_ok_def)
  have r: "LEGEL_MEM_START_ADDR \<le> p" "unat p + unat (1 :: u32) \<le> unat KERNEL_START_ADDR"
    using Cons.prems by (simp_all add: arg_ok_def)
  then have p1: "unat (p + 1) = unat p + 1" by (subst unat_add_lem [THEN iffD1]) simp_all
  let ?s = "s\<lparr>calls := calls s @ write_calls [c]\<rparr>"
  have "write_syscall STDOUT_FILENO p 1 s = Some (1, ?s)"
    using write_syscall_ok [OF r, of s] c(1) bytes_Suc [of "mem s" p 0] by simp
  moreover have "arg_ok (mem ?s) (p + 1) t"
    using Cons.prems c(3) p1 by (auto simp: arg_ok_def word_le_nat_alt)
  ultimately show ?case using c Cons.IH [of ?s "p + 1"] by (subst rot13_arg.simps) simp
qed

lemma rot13_args_eq:
  "list_all2 (arg_ok (mem s)) argv texts \<Longrightarrow> rot13_args argv s = Some (s\<lparr>calls := calls s @
     concat (map (\<lambda>t. concat (map (\<lambda>c. write_calls [c]) t) @ [Putc 32, Putc 32]) texts)\<rparr>)"
proof (induction argv arbitrary: texts s)
  case (Cons p argv)
  then obtain t ts where t: "texts = t # ts" "arg_ok (mem s) p t" "list_all2 (arg_ok (mem s)) argv ts"
    by (auto simp: list_all2_Cons1)
  let ?s = "rot13_say [32, 32] (s\<lparr>calls := calls s @ concat (map (\<lambda>c. write_calls [c]) t)\<rparr>)"
  have "list_all2 (arg_ok (mem ?s)) argv ts" using t(3) by (simp add: rot13_say_def)
  from Cons.IH [OF this] show ?case
    using rot13_arg_eq [OF t(2)] by (simp add: t(1) rot13_say_def write_calls_def)
qed simp

lemma rot13_arguments_eq:
  assumes "list_all2 (arg_ok (mem s)) argv texts"
  shows "rot13_arguments argv s = Some (s\<lparr>calls := calls s @ rot13_intro texts\<rparr>)"
proof -
  have say: "rot13_say (map of_char ''Firstly, let's test the argumens'' @ [10]) s =
      s\<lparr>calls := calls s @ map Putc (map of_char ''Firstly, let's test the argumens'' @ [10])\<rparr>"
      "rot13_say (map of_char ''There is no arguments'') u = u\<lparr>calls := calls u @ map Putc (map of_char ''There is no arguments'')\<rparr>"
      "rot13_say (map of_char ''Arguments are: '') u = u\<lparr>calls := calls u @ map Putc (map of_char ''Arguments are: '')\<rparr>"
      "rot13_say [10] u = u\<lparr>calls := calls u @ [Putc 10]\<rparr>" for u
    by (simp_all add: rot13_say_def write_calls_def)
  show ?thesis
  proof (cases argv)
    case Nil
    then show ?thesis using assms by (simp add: rot13_arguments_def Let_def rot13_intro_def say del: list.map)
  next
    case (Cons p ps)
    then have ne: "texts \<noteq> []" using assms by auto
    let ?s = "rot13_say (map of_char ''Arguments are: '') (rot13_say (map of_char ''Firstly, let's test the argumens'' @ [10]) s)"
    have "list_all2 (arg_ok (mem ?s)) argv texts" using assms by (simp add: rot13_say_def)
    from rot13_args_eq [OF this] show ?thesis
      using Cons ne by (simp add: rot13_arguments_def Let_def rot13_intro_def say del: list.map rot13_args.simps)
  qed
qed

end
