(* ===== verification/Render.thy ===== *)
theory Render
  imports Format
begin

text \<open>
  A reference for the formats that the repository's own programs use: literals, \<open>%d\<close>, \<open>%lu\<close>, \<open>%c\<close>,
  \<open>%02x\<close> and \<open>%08lx\<close>. The formatter prints what the reference says, for every callback that leaves
  the format alone.
\<close>

section \<open>The reference\<close>

definition hex_text :: "nat \<Rightarrow> u32 \<Rightarrow> u8 list" where
  "hex_text n w = (let ds = digits_of 16 (unat w) in replicate (n - length ds) 48 @ ds)"

text \<open>
  A conversion at the start of what follows a percent sign: its length, the specification in front
  of its last character, and what it prints.
\<close>

definition conv :: "u8 list \<Rightarrow> (nat \<times> spec \<times> (u32 \<Rightarrow> u8 list)) option" where
  "conv t =
     (if take 1 t = [100] then Some (1, spec_init, \<lambda>w. decimal (sint w))
      else if take 1 t = [99] then Some (1, spec_init, \<lambda>w. [ucast w])
      else if take 2 t = [108, 117] then Some (2, spec_init\<lparr>longopt := 1\<rparr>, \<lambda>w. digits_of 10 (unat w))
      else if take 3 t = [48, 50, 120] then Some (3, spec_init\<lparr>padc := 48, width := 2\<rparr>, hex_text 2)
      else if take 4 t = [48, 56, 108, 120] then Some (4, spec_init\<lparr>padc := 48, width := 8, longopt := 1\<rparr>, hex_text 8)
      else None)"

lemma conv_length: "conv t = Some (n, sp, f) \<Longrightarrow> 0 < n \<and> n \<le> length t"
  by (auto simp: conv_def split: if_splits dest: arg_cong [where f = length])

function render :: "u8 list \<Rightarrow> va list \<Rightarrow> u8 list option" where
  "render t args = (case t of
     [] \<Rightarrow> Some []
   | c # t \<Rightarrow>
       if c \<noteq> 37 then map_option ((#) c) (render t args)
       else (case conv t of
         None \<Rightarrow> None
       | Some (n, sp, f) \<Rightarrow> (case args of
           Word w # args \<Rightarrow> map_option ((@) (f w)) (render (drop n t) args)
         | _ \<Rightarrow> None)))"
  by pat_completeness auto
termination
  by (relation "measure (\<lambda>(t, _). length t)") auto

declare render.simps [simp del]

lemma render_Nil [simp]: "render [] args = Some []"
  by (subst render.simps) simp

lemma render_lit [simp]: "c \<noteq> 37 \<Longrightarrow> render (c # t) args = map_option ((#) c) (render t args)"
  by (subst render.simps) simp

lemma render_literal: "37 \<notin> set t \<Longrightarrow> render (t @ u) args = map_option ((@) t) (render u args)"
  by (induction t) (cases "render u args"; simp)+

lemma render_conv:
  "conv t = Some (n, sp, f) \<Longrightarrow> render (37 # t) (Word w # args) = map_option ((@) (f w)) (render (drop n t) args)"
  by (subst render.simps) simp

lemma render_literal_only: "37 \<notin> set t \<Longrightarrow> render t args = Some t"
  using render_literal [of t "[]" args] by simp

section \<open>The formatter prints what the reference says\<close>

lemma nth_take_eq: "take n t = u \<Longrightarrow> length u = n \<Longrightarrow> i < n \<Longrightarrow> t ! i = u ! i"
  by auto

context char_sink
begin

lemma conv_directive:
  assumes cv: "conv t = Some (n, sp, f)" and m: "\<And>i. i < length t \<Longrightarrow> rd s (fmt + of_nat i) = t ! i"
  shows "parse_spec (rd s) fmt args = Some (fmt + of_nat (n - 1), sp, args)"
    "directive rd putc False radix (fmt + of_nat (n - 1)) sp (Word w # args) s =
       Some (fmt + of_nat (n - 1), args, fold putc (f w) s)"
proof -
  have len: "n \<le> length t" using conv_length [OF cv] by simp
  have at: "rd s (fmt + of_nat i) = u ! i" if "take k t = u" "length u = k" "n = k" "i < k" for k u i
    using that m [of i] len nth_take_eq [of k t u i] by simp
  consider (d) "take 1 t = [100]" "n = 1" "sp = spec_init" "f = (\<lambda>w. decimal (sint w))"
    | (c) "take 1 t = [99]" "n = 1" "sp = spec_init" "f = (\<lambda>w. [ucast w])"
    | (lu) "take 2 t = [108, 117]" "n = 2" "sp = spec_init\<lparr>longopt := 1\<rparr>" "f = (\<lambda>w. digits_of 10 (unat w))"
    | (x2) "take 3 t = [48, 50, 120]" "n = 3" "sp = spec_init\<lparr>padc := 48, width := 2\<rparr>" "f = hex_text 2"
    | (x8) "take 4 t = [48, 56, 108, 120]" "n = 4" "sp = spec_init\<lparr>padc := 48, width := 8, longopt := 1\<rparr>" "f = hex_text 8"
    using cv unfolding conv_def by (auto split: if_splits)
  then have "parse_spec (rd s) fmt args = Some (fmt + of_nat (n - 1), sp, args) \<and>
    directive rd putc False radix (fmt + of_nat (n - 1)) sp (Word w # args) s =
       Some (fmt + of_nat (n - 1), args, fold putc (f w) s)"
  proof cases
    case d
    have a: "rd s fmt = 100" using at [OF d(1) _ d(2), of 0] by simp
    have "parse_spec (rd s) fmt args = Some (fmt, spec_init, args)"
      by (rule parse_spec_plain) (simp_all add: a dec_digit_def)
    then show ?thesis using d(2-4) directive_d [of rd s fmt, OF a] by simp
  next
    case c
    have a: "rd s fmt = 99" using at [OF c(1) _ c(2), of 0] by simp
    have "parse_spec (rd s) fmt args = Some (fmt, spec_init, args)"
      by (rule parse_spec_plain) (simp_all add: a dec_digit_def)
    moreover have "directive rd putc False radix fmt spec_init (Word w # args) s = Some (fmt, args, putc (ucast w) s)"
      by (simp only: directive_def Let_def a va_word.simps) simp
    ultimately show ?thesis using c(2-4) by simp
  next
    case lu
    have a: "rd s fmt = 108" "rd s (fmt + 1) = 117" using at [OF lu(1) _ lu(2), of 0] at [OF lu(1) _ lu(2), of 1] by simp_all
    have "parse_spec (rd s) fmt args = Some (fmt + 1, sp, args)"
      using a lu by (simp add: parse_spec_def parse_flags.simps [of "rd s" fmt] parse_width_def parse_prec_def
        parse_longs.simps [of "rd s" fmt] parse_longs.simps [of "rd s" "fmt + 1"] dec_digit_def spec_init_def)
    moreover have "unsigned_text sp 10 w = digits_of 10 (unat w)"
      using lu by (simp add: unsigned_text_def num_text_def num_prefix_def spec_init_def)
    moreover have "directive rd putc False radix (fmt + 1) sp (Word w # args) s =
        map_option (\<lambda>(args, st). (fmt + 1, args, st)) (print_unsigned putc sp False 10 (Word w # args) s)"
      using a by (simp add: directive_def)
    ultimately show ?thesis
      using lu print_unsigned_word [of sp 10 putc w args s] by (simp add: spec_init_def)
  next
    case x2
    have a: "rd s fmt = 48" "rd s (fmt + 1) = 50" "rd s (fmt + 2) = 120"
      using at [OF x2(1) _ x2(2), of 0] at [OF x2(1) _ x2(2), of 1] at [OF x2(1) _ x2(2), of 2] by simp_all
    have "parse_spec (rd s) fmt args = Some (fmt + 2, sp, args)"
      using a x2 by (simp add: parse_spec_def parse_flags.simps [of "rd s" fmt] parse_width_def parse_prec_def
        parse_number.simps [of "rd s" "fmt + 1"] parse_number.simps [of "rd s" "fmt + 2"]
        parse_longs.simps [of "rd s" "fmt + 2"] dec_digit_def Ctod_def spec_init_def add.assoc)
    moreover have "unsigned_text sp 16 w = hex_text 2 w"
      using x2 by (simp add: unsigned_text_def num_text_def num_prefix_def spec_init_def hex_text_def Let_def)
    moreover have "directive rd putc False radix (fmt + 2) sp (Word w # args) s =
        map_option (\<lambda>(args, st). (fmt + 2, args, st)) (print_unsigned putc sp False 16 (Word w # args) s)"
      using a by (simp add: directive_def)
    ultimately show ?thesis
      using x2 print_unsigned_word [of sp 16 putc w args s] by (simp add: spec_init_def)
  next
    case x8
    have a: "rd s fmt = 48" "rd s (fmt + 1) = 56" "rd s (fmt + 2) = 108" "rd s (fmt + 3) = 120"
      using at [OF x8(1) _ x8(2), of 0] at [OF x8(1) _ x8(2), of 1] at [OF x8(1) _ x8(2), of 2] at [OF x8(1) _ x8(2), of 3]
      by simp_all
    have "parse_spec (rd s) fmt args = Some (fmt + 3, sp, args)"
      using a x8 by (simp add: parse_spec_def parse_flags.simps [of "rd s" fmt] parse_width_def parse_prec_def
        parse_number.simps [of "rd s" "fmt + 1"] parse_number.simps [of "rd s" "fmt + 2"]
        parse_longs.simps [of "rd s" "fmt + 2"] parse_longs.simps [of "rd s" "fmt + 3"]
        dec_digit_def Ctod_def spec_init_def add.assoc)
    moreover have "unsigned_text sp 16 w = hex_text 8 w"
      using x8 by (simp add: unsigned_text_def num_text_def num_prefix_def spec_init_def hex_text_def Let_def)
    moreover have "directive rd putc False radix (fmt + 3) sp (Word w # args) s =
        map_option (\<lambda>(args, st). (fmt + 3, args, st)) (print_unsigned putc sp False 16 (Word w # args) s)"
      using a by (simp add: directive_def)
    ultimately show ?thesis
      using x8 print_unsigned_word [of sp 16 putc w args s] by (simp add: spec_init_def)
  qed
  then show "parse_spec (rd s) fmt args = Some (fmt + of_nat (n - 1), sp, args)"
    "directive rd putc False radix (fmt + of_nat (n - 1)) sp (Word w # args) s =
       Some (fmt + of_nat (n - 1), args, fold putc (f w) s)" by simp_all
qed

lemma doprnt_render:
  assumes "render t args = Some out" "ok (length out) s" "0 \<notin> set t"
    and "\<And>i. i \<le> length t \<Longrightarrow> fmt + of_nat i \<in> kept \<and> rd s (fmt + of_nat i) = (t @ [0]) ! i"
  shows "doprnt rd putc False radix fmt args s = Some (fold putc out s)"
  using assms
proof (induction t args arbitrary: out s fmt rule: render.induct)
  case (1 t args)
  show ?case
  proof (cases t)
    case Nil
    then show ?thesis using 1(3,6) by (subst doprnt.simps) simp
  next
    case (Cons c t')
    have tail: "fmt + 1 + of_nat i \<in> kept \<and> rd s (fmt + 1 + of_nat i) = (t' @ [0]) ! i" if "i \<le> length t'" for i
      using 1(6) [of "Suc i"] that Cons by (simp add: algebra_simps)
    have c: "rd s fmt = c" "c \<noteq> 0" "0 \<notin> set t'" using 1(5) 1(6) [of 0] Cons by auto
    show ?thesis
    proof (cases "c = 37")
      case False
      then obtain out' where out': "render t' args = Some out'" "out = c # out'" using 1(3) Cons by auto
      then have ok: "ok (length out') (putc c s)" "\<And>a. a \<in> kept \<Longrightarrow> rd (putc c s) a = rd s a"
        using 1(4) ok_putc [of "length out'" s c] rd_putc [of "length out'" s _ c] by simp_all
      have "doprnt rd putc False radix (fmt + 1) args (putc c s) = Some (fold putc out' (putc c s))"
        by (rule 1(1) [OF Cons False out'(1) ok(1) c(3)]) (use tail ok(2) in simp)
      then show ?thesis using c False out'(2) by (subst doprnt.simps) simp
    next
      case True
      from 1(3) Cons True obtain n sp f w args' out' where cv: "conv t' = Some (n, sp, f)" "args = Word w # args'"
          "render (drop n t') args' = Some out'" "out = f w @ out'"
        by (subst (asm) render.simps) (auto split: option.splits list.splits va.splits prod.splits)
      note n = conv_length [OF cv(1)]
      have at: "rd s (fmt + 1 + of_nat i) = t' ! i" if "i < length t'" for i
        using tail [of i] that by (simp add: nth_append)
      note dir = conv_directive [OF cv(1), of s "fmt + 1", OF at]
      have ok: "ok (length (f w) + length out') s" using 1(4) cv(4) by simp
      have next_fmt: "fmt + 1 + of_nat (n - 1) + 1 = fmt + 1 + (of_nat n :: u32)"
        using n by (cases n) simp_all
      have "doprnt rd putc False radix fmt args s =
          doprnt rd putc False radix (fmt + 1 + of_nat n) args' (fold putc (f w) s)"
      proof -
        let ?q = "fmt + 1 + of_nat (n - 1)"
        have "parse_spec (rd s) (fmt + 1) args = Some (?q, sp, args)" by (rule dir(1))
        moreover have "directive rd putc False radix ?q sp args s = Some (?q, args', fold putc (f w) s)"
          unfolding cv(2) by (rule dir(2))
        moreover have "rd s fmt = 37" using c(1) True by simp
        ultimately show ?thesis using doprnt_directive [of s fmt args ?q sp args False radix args'] next_fmt by metis
      qed
      also have "\<dots> = Some (fold putc out' (fold putc (f w) s))"
      proof (rule 1(2) [OF Cons _ cv(1) refl refl cv(2) refl cv(3) ok_fold [OF ok]])
        show "\<not> c \<noteq> 37" using True by simp
        show "0 \<notin> set (drop n t')" using c(3) by (meson in_set_dropD)
        fix i assume i: "i \<le> length (drop n t')"
        then have ni: "n + i \<le> length t'" using n by (simp add: le_diff_conv2 add.commute)
        have "drop n t' @ [0] = drop n (t' @ [0])" using n by simp
        then have "(drop n t' @ [0]) ! i = (t' @ [0]) ! (n + i)" using n nth_drop [of n "t' @ [0]" i] by (metis le_SucI length_append_singleton)
        moreover have eq: "fmt + 1 + of_nat n + of_nat i = fmt + 1 + of_nat (n + i)" by simp
        ultimately show "fmt + 1 + of_nat n + of_nat i \<in> kept \<and>
            rd (fold putc (f w) s) (fmt + 1 + of_nat n + of_nat i) = (drop n t' @ [0]) ! i"
          unfolding eq using tail [OF ni] rd_fold [OF ok, of "fmt + 1 + of_nat (n + i)"] by (simp del: of_nat_add)
      qed
      finally show ?thesis using cv(4) by simp
    qed
  qed
qed

end

section \<open>\<open>printf\<close>\<close>

lemma printf_render:
  assumes fmt: "cstr m fmt t" and out: "render t args = Some out" "short_lines 0 out" "0 \<notin> set out"
    and frame: "length frame = PRINTF_BUFMAX"
  shows "\<exists>log'. printf frame fmt args m log = Some (0, log') \<and> concat (map snd log') = concat (map snd log) @ out"
proof -
  let ?st = "\<lparr>pf_mem = m, pf_buf = frame, pf_index = 0, pf_out = log\<rparr>"
  let ?st' = "fold printf_char out ?st"
  have "pf_ok ?st" using frame by (simp add: pf_ok_def PRINTF_BUFMAX_def)
  from fold_printf_char [OF this, of out] out(2,3)
  have t: "pf_ok ?st'" "pf_text ?st' = concat (map snd log) @ out" by (simp_all add: pf_text_def)
  have "doprnt pf_mem printf_char False 0 fmt args ?st = Some ?st'"
  proof (rule pf.doprnt_render [OF out(1) TrueI cstr_no_0 [OF fmt]])
    show "fmt + of_nat i \<in> UNIV \<and> pf_mem ?st (fmt + of_nat i) = (t @ [0]) ! i" if "i \<le> length t" for i
      using that cstr_nth [OF fmt, of i] cstr_end [OF fmt] by (cases "i = length t") (simp_all add: nth_append)
  qed
  then have "printf frame fmt args m log = Some (0, pf_out (if pf_index ?st' \<noteq> 0 then flush ?st' else ?st'))"
    by (simp add: printf_def vprintf_def doprnt_truncates_def)
  moreover have "concat (map snd (pf_out (if pf_index ?st' \<noteq> 0 then flush ?st' else ?st'))) = pf_text ?st'"
    using t(1) by (simp add: pf_text_def flush_def Let_def pf_ok_def)
  ultimately show ?thesis using t(2) by simp
qed

section \<open>Hex dumps\<close>

text \<open>What a list of calls of \<open>printf\<close> prints.\<close>

definition calls_text :: "(u8 list \<times> va list) list \<Rightarrow> u8 list option" where
  "calls_text cs = (if \<exists>(f, a) \<in> set cs. render f a = None then None
     else Some (concat (map (\<lambda>(f, a). the (render f a)) cs)))"

lemma calls_text_Nil [simp]: "calls_text [] = Some []"
  by (simp add: calls_text_def)

lemma calls_text_append:
  "calls_text cs = Some t \<Longrightarrow> calls_text ds = Some u \<Longrightarrow> calls_text (cs @ ds) = Some (t @ u)"
  by (auto simp: calls_text_def split: if_splits)

lemma calls_text_single: "render f a = Some t \<Longrightarrow> calls_text [(f, a)] = Some t"
  by (simp add: calls_text_def)

text \<open>A group of calls that prints \<open>n\<close> characters, none of them a newline.\<close>

definition prints :: "nat \<Rightarrow> (u8 list \<times> va list) list \<Rightarrow> bool" where
  "prints n cs \<longleftrightarrow> (\<exists>t. calls_text cs = Some t \<and> length t = n \<and> 10 \<notin> set t)"

lemma prints_append: "prints n cs \<Longrightarrow> prints k ds \<Longrightarrow> prints (n + k) (cs @ ds)"
  unfolding prints_def using calls_text_append by fastforce

lemma prints_concat:
  "(\<And>x. x \<in> set xs \<Longrightarrow> prints (w x) (f x)) \<Longrightarrow> prints (sum_list (map w xs)) (concat (map f xs))"
proof (induction xs)
  case Nil
  then show ?case by (simp add: prints_def)
next
  case (Cons x xs)
  then show ?case using prints_append [of "w x" "f x"] by simp
qed

lemma prints_literal: "37 \<notin> set t \<Longrightarrow> 10 \<notin> set t \<Longrightarrow> length t = n \<Longrightarrow> prints n [(t, [])]"
  using calls_text_single [OF render_literal_only] by (simp add: prints_def)

lemma hex_digit_range: "c \<in> set (digits_of 16 n) \<Longrightarrow> c \<noteq> 10"
  using digits_of_digits(1) [of 16 n] by (auto simp: is_digit_def digit_of_def)

lemma length_hex_text: "unat w < 16 ^ n \<Longrightarrow> 0 < n \<Longrightarrow> length (hex_text n w) = n"
  using length_digits_of [of 16 "unat w" n] by (simp add: hex_text_def Let_def)

lemma hex_text_no_newline: "10 \<notin> set (hex_text n w)"
  using hex_digit_range by (auto simp: hex_text_def Let_def)

lemma hex_address: "prints 16 [([124, 32, 37, 48, 56, 108, 120] @ replicate 6 32, [Word i])]"
proof -
  have "render (37 # [48, 56, 108, 120] @ replicate 6 32) [Word i] = Some (hex_text 8 i @ replicate 6 32)"
    using render_literal_only [of "replicate 6 32" "[]"]
    by (subst render_conv [of _ 4 "spec_init\<lparr>padc := 48, width := 8, longopt := 1\<rparr>" "hex_text 8"])
      (simp_all add: conv_def)
  then have "render ([124, 32, 37, 48, 56, 108, 120] @ replicate 6 32) [Word i] = Some ([124, 32] @ hex_text 8 i @ replicate 6 32)"
    by simp
  from calls_text_single [OF this] show ?thesis
    using length_hex_text [of i 8] unat_u32_less [of i] hex_text_no_newline [of 8 i] by (simp add: prints_def)
qed

lemma hex_digit_prints: "prints (if j mod 4 = 0 then 3 else 2) (hex_digit_call m b len j)"
proof -
  have space: "prints 1 [([32], [])]" "prints 2 [([32, 32], [])]"
    by (rule prints_literal; simp)+
  have byte: "prints 2 [([37, 48, 50, 120], [Word (ucast c)])]" for c :: u8
  proof -
    have "render (37 # [48, 50, 120]) [Word (ucast c)] = Some (hex_text 2 (ucast c))"
      by (subst render_conv [of _ 3 "spec_init\<lparr>padc := 48, width := 2\<rparr>" "hex_text 2"]) (simp_all add: conv_def)
    moreover have "unat (ucast c :: u32) < 16 ^ 2" using unat_u8_less [of c] by (simp add: unat_ucast_u8)
    ultimately show ?thesis
      using calls_text_single length_hex_text [of "ucast c" 2] hex_text_no_newline [of 2 "ucast c"] by (auto simp: prints_def)
  qed
  have rest: "prints 2 (if j \<ge> len then [([32, 32], [])] else [([37, 48, 50, 120], [Word (ucast (m (b + j)))])])"
    using space(2) byte by simp
  show ?thesis
  proof (cases "j mod 4 = 0")
    case True
    have "1 + 2 = (3 :: nat)" by simp
    then have "prints 3 ([([32], [])] @ (if j \<ge> len then [([32, 32], [])] else [([37, 48, 50, 120], [Word (ucast (m (b + j)))])]))"
      using prints_append [OF space(1) rest] by metis
    then show ?thesis using True by (simp add: hex_digit_call_def)
  next
    case False
    then show ?thesis using rest by (simp add: hex_digit_call_def)
  qed
qed

lemma hex_char_prints: "prints 1 (hex_char_call m b len j)"
proof (cases "j \<ge> len")
  case True
  then show ?thesis using prints_literal [of "[32]" 1] by (simp add: hex_char_call_def)
next
  case False
  let ?w = "if c_isgraph (uint (m (b + j))) then ucast (m (b + j)) else 46 :: u32"
  have "render (37 # [99]) [Word ?w] = Some [ucast ?w]"
    by (subst render_conv [of _ 1 spec_init "\<lambda>w. [ucast w]"]) (simp_all add: conv_def)
  from calls_text_single [OF this] have "calls_text [([37, 99], [Word ?w])] = Some [ucast ?w]" by simp
  moreover have "(ucast ?w :: u8) \<noteq> 10"
  proof (cases "c_isgraph (uint (m (b + j)))")
    case True
    then have "m (b + j) \<noteq> 10" by (auto simp: c_isgraph_def)
    moreover have "ucast (ucast (m (b + j)) :: u32) = m (b + j)" by (rule bit_word_eqI) (auto simp: bit_simps)
    ultimately show ?thesis using True by simp
  qed simp
  ultimately show ?thesis using False by (simp add: prints_def hex_char_call_def)
qed

text \<open>A line of the dump: 77 characters and a newline.\<close>

definition table_line :: "u8 list \<Rightarrow> bool" where
  "table_line t \<longleftrightarrow> length t = 78 \<and> last t = 10 \<and> 10 \<notin> set (butlast t)"

lemma hex_line_table:
  assumes i: "i = of_nat (16 * k)" and small: "16 * k + 16 < 2 ^ 32"
  shows "\<exists>t. calls_text (hex_line m b len i) = Some t \<and> table_line t"
proof -
  have ui: "unat i = 16 * k" unfolding i using small by (intro unat_lt_of_nat_iff) simp
  then have "i < i + 16" using small by (subst word_less_nat_alt, subst unat_add_lem [THEN iffD1]) simp_all
  then have cols: "hex_columns i = map (\<lambda>j. i + of_nat j) [0..<16]" by (simp add: hex_columns_def)
  have mod4: "(i + of_nat j) mod 4 = 0 \<longleftrightarrow> j mod 4 = 0" if "j < 16" for j
  proof -
    have "unat (i + of_nat j) = 16 * k + j"
      using that small ui by (subst unat_add_lem [THEN iffD1]) (simp_all add: unat_lt_of_nat_iff)
    then have "unat ((i + of_nat j) mod 4) = (16 * k + j) mod 4" by (simp add: unat_mod)
    moreover have "(16 * k + j) mod 4 = j mod 4" by presburger
    ultimately show ?thesis using unat_eq_0 [of "(i + of_nat j) mod 4"] by simp
  qed
  have "prints (sum_list (map (\<lambda>j. if (i + of_nat j) mod 4 = 0 then 3 else 2) [0..<16]))
      (concat (map (\<lambda>j. hex_digit_call m b len (i + of_nat j)) [0..<16]))"
    by (rule prints_concat) (rule hex_digit_prints)
  moreover have "map (\<lambda>j. if (i + of_nat j) mod 4 = 0 then 3 else 2) [0..<16] = map (\<lambda>j. if j mod 4 = 0 then 3 else 2 :: nat) [0..<16]"
    using mod4 by simp
  moreover have "sum_list (map (\<lambda>j. if j mod 4 = 0 then 3 else 2 :: nat) [0..<16]) = 36" by (simp add: upt_rec)
  ultimately have digits: "prints 36 (concat (map (hex_digit_call m b len) (hex_columns i)))"
    unfolding cols by (simp add: comp_def)
  have "prints (sum_list (map (\<lambda>_. 1) (hex_columns i))) (concat (map (hex_char_call m b len) (hex_columns i)))"
    by (rule prints_concat) (rule hex_char_prints)
  then have chars: "prints 16 (concat (map (hex_char_call m b len) (hex_columns i)))"
    by (simp add: cols comp_def sum_list_triv)
  have gap: "prints 7 [(replicate 7 32, [])]" by (rule prints_literal) simp_all
  have "prints (16 + (36 + (7 + 16))) ([([124, 32, 37, 48, 56, 108, 120] @ replicate 6 32, [Word i])] @
      concat (map (hex_digit_call m b len) (hex_columns i)) @ [(replicate 7 32, [])] @
      concat (map (hex_char_call m b len) (hex_columns i)))"
    by (intro prints_append hex_address digits gap chars)
  then obtain t where t: "calls_text ([([124, 32, 37, 48, 56, 108, 120] @ replicate 6 32, [Word i])] @
      concat (map (hex_digit_call m b len) (hex_columns i)) @ [(replicate 7 32, [])] @
      concat (map (hex_char_call m b len) (hex_columns i))) = Some t" "length t = 75" "10 \<notin> set t"
    by (auto simp: prints_def)
  have "calls_text [([32, 124, 10], [])] = Some [32, 124, 10]" by (intro calls_text_single render_literal_only) simp
  from calls_text_append [OF t(1) this] have "calls_text (hex_line m b len i) = Some (t @ [32, 124, 10])"
    by (simp add: hex_line_def)
  then show ?thesis using t(2,3) by (simp add: table_line_def butlast_append)
qed

lemma hex_lines_eq:
  assumes "unat len \<le> 2 ^ 32 - 16" "k \<le> (unat len + 15) div 16"
  shows "hex_lines m b len (of_nat (16 * k)) acc =
    Some (acc @ concat (map (\<lambda>j. hex_line m b len (of_nat (16 * j))) [k..<(unat len + 15) div 16]))"
  using assms(2)
proof (induction "(unat len + 15) div 16 - k" arbitrary: k acc)
  case 0
  then have k: "k = (unat len + 15) div 16" by simp
  have "16 * k < 2 ^ 32" using k assms(1) by simp
  then have "unat (of_nat (16 * k) :: u32) = 16 * k" by (intro unat_lt_of_nat_iff) simp
  moreover have "unat len \<le> 16 * k" unfolding k by simp
  ultimately have "\<not> of_nat (16 * k) < len" by (simp add: word_less_nat_alt del: of_nat_mult)
  then show ?case using k by (subst hex_lines.simps) (simp del: of_nat_mult)
next
  case (Suc d)
  then have k: "k < (unat len + 15) div 16" by simp
  then have lt: "16 * k < unat len" by linarith
  then have "unat (of_nat (16 * k) :: u32) = 16 * k" using assms(1) by (intro unat_lt_of_nat_iff) simp
  then have less: "of_nat (16 * k) < len" using lt by (simp add: word_less_nat_alt del: of_nat_mult)
  have "of_nat (16 * k) + 16 = (of_nat (16 * Suc k) :: u32)" by simp
  moreover have "[k..<(unat len + 15) div 16] = k # [Suc k..<(unat len + 15) div 16]" using k by (simp add: upt_conv_Cons)
  moreover note Suc.hyps(1) [of "Suc k" "acc @ hex_line m b len (of_nat (16 * k))"]
  ultimately show ?case using less Suc.hyps(2) k by (subst hex_lines.simps) (simp add: add.commute del: of_nat_mult)
qed

lemma calls_text_lines:
  "(\<And>x. x \<in> set xs \<Longrightarrow> \<exists>t. calls_text (f x) = Some t \<and> P t) \<Longrightarrow>
    \<exists>ts. calls_text (concat (map f xs)) = Some (concat ts) \<and> length ts = length xs \<and> (\<forall>t \<in> set ts. P t)"
proof (induction xs)
  case (Cons x xs)
  obtain t where "calls_text (f x) = Some t" "P t" using Cons.prems [of x] by auto
  moreover obtain ts where "calls_text (concat (map f xs)) = Some (concat ts)"
      "length ts = length xs" "\<forall>t \<in> set ts. P t" using Cons by fastforce
  ultimately show ?case using calls_text_append [of "f x" t] by (intro exI [of _ "t # ts"]) simp
qed simp

lemma hexdump_lines:
  assumes "unat len \<le> 2 ^ 32 - 16"
  shows "\<exists>cs ls. hexdump m buf len = Some cs \<and> calls_text cs = Some (concat ls) \<and>
    length ls = (unat len + 15) div 16 + 2 \<and> (\<forall>l \<in> set ls. table_line l)"
proof -
  let ?n = "(unat len + 15) div 16" and ?f = "\<lambda>j. hex_line m buf len (of_nat (16 * j))"
  let ?top = "[46 :: u8] @ replicate 75 45 @ [46, 10]" and ?bottom = "[96 :: u8] @ replicate 75 45 @ [39, 10]"
  have run: "hexdump m buf len = Some ([(?top, [])] @ concat (map ?f [0..<?n]) @ [(?bottom, [])])"
    using hex_lines_eq [OF assms, of 0] by (simp add: hexdump_def)
  have "\<exists>t. calls_text (?f j) = Some t \<and> table_line t" if "j \<in> set [0..<?n]" for j
    using that assms by (intro hex_line_table [of _ j]) auto
  from calls_text_lines [of "[0..<?n]" ?f table_line, OF this]
  obtain ts where ts: "calls_text (concat (map ?f [0..<?n])) = Some (concat ts)" "length ts = ?n" "\<forall>t \<in> set ts. table_line t"
    by auto
  have lits: "calls_text [(?top, [])] = Some ?top" "calls_text [(?bottom, [])] = Some ?bottom"
    by (intro calls_text_single render_literal_only; simp)+
  have "calls_text ([(?top, [])] @ concat (map ?f [0..<?n]) @ [(?bottom, [])]) = Some (?top @ concat ts @ ?bottom)"
    by (rule calls_text_append [OF lits(1) calls_text_append [OF ts(1) lits(2)]])
  moreover have "table_line ?top" "table_line ?bottom" by (simp_all add: table_line_def butlast_append)
  moreover have "concat (?top # ts @ [?bottom]) = ?top @ concat ts @ ?bottom" by simp
  ultimately show ?thesis
    using run ts(2,3)
    by (intro exI [of _ "[(?top, [])] @ concat (map ?f [0..<?n]) @ [(?bottom, [])]"] exI [of _ "?top # ts @ [?bottom]"] conjI)
      (simp_all only: list.set set_append length_append list.size, auto)
qed

end
