(* ===== verification/Typo.thy ===== *)
theory Typo
  imports Apps Render "HOL-Library.Signed_Division"
begin

text \<open>
  tasks/typo/typo.c: the application echoes each line and reports how long the user took, in seconds
  with one decimal place.
\<close>

section \<open>The program\<close>

text \<open>
  The line that five calls of \<open>printf\<close> print; \<open>Time\<close> is an \<open>int\<close> and the divisions round towards 0.
  The last call, of a newline alone, writes an empty buffer first: the byte in front of the line buffer
  of \<open>printf\<close> is taken not to be a carriage return (see \<open>empty_write_runs_away\<close> of the root theory).
\<close>

definition typo_report :: "u32 \<Rightarrow> u8 list" where
  "typo_report Time =
     (let timeSpentInt = sint Time sdiv 100;
          timeSpentFloat = sint Time sdiv 10 - timeSpentInt * 10
      in map of_char ''Time spent: '' @ decimal timeSpentInt @ map of_char ''.'' @ decimal timeSpentFloat @ [10])"

partial_function (option) typo_write :: "u32 \<Rightarrow> u32 \<Rightarrow> u32 \<Rightarrow> io \<Rightarrow> io option" where
  "typo_write Buffer readResult writeloc s = do {
     (r, s) \<leftarrow> write_syscall STDOUT_FILENO (Buffer + writeloc) readResult s;
     let writeResult = user_result r;
     let writeloc = (if 0 <s writeResult then writeloc + writeResult else writeloc);
     if 0 <s writeResult \<and> writeloc \<noteq> readResult then typo_write Buffer readResult writeloc s
     else Some s }"

text \<open>\<open>clock i\<close> is what the \<open>i\<close>-th call of \<open>time\<close> returns; \<open>N\<close> is 10.\<close>

partial_function (option) typo_loop :: "u32 \<Rightarrow> (nat \<Rightarrow> u32) \<Rightarrow> nat \<Rightarrow> u32 \<Rightarrow> io \<Rightarrow> (u32 \<times> io) option" where
  "typo_loop Buffer clock i lasttime s = do {
     (r, s) \<leftarrow> read_syscall STDIN_FILENO Buffer 10 s;
     if 0 <s user_result r then do {
       let Time = clock i - lasttime;
       s \<leftarrow> typo_write Buffer (user_result r) 0 s;
       let s = s\<lparr>calls := calls s @ map Putc (typo_report Time)\<rparr>;
       typo_loop Buffer clock (i + 2) (clock (i + 1)) s }
     else Some (0, s) }"

definition typo_main :: "u32 \<Rightarrow> (nat \<Rightarrow> u32) \<Rightarrow> io \<Rightarrow> (u32 \<times> io) option" where
  "typo_main Buffer clock s = typo_loop Buffer clock 1 (clock 0) s"

section \<open>The dialog\<close>

text \<open>
  The report of the line number \<open>i\<close>: from the end of the last report to the end of the line, in tenths
  of a second, when the clock ticks every 10 ms.
\<close>

definition tenths_text :: "nat \<Rightarrow> u8 list" where
  "tenths_text n = map of_char ''Time spent: '' @ digits_of 10 (n div 10) @ map of_char ''.'' @
     digits_of 10 (n mod 10) @ [10]"

lemma typo_report_tenths:
  assumes "unat t < 2147483648"
  shows "typo_report t = tenths_text (unat t div 10)"
proof -
  have s: "sint t = int (unat t)" by (rule small_u32 [OF assms])
  have i: "sint t sdiv 100 = int (unat t div 10 div 10)" "sint t sdiv 10 = int (unat t div 10)"
    unfolding s by (cases "t = 0"; simp add: signed_divide_int_def zdiv_int div_mult2_eq [symmetric])+
  have "int (unat t div 10) - int (unat t div 10 div 10) * 10 = int (unat t div 10 mod 10)"
    using div_mult_mod_eq [of "unat t div 10" 10] by linarith
  then show ?thesis unfolding typo_report_def i Let_def tenths_text_def by (simp add: decimal_def)
qed

inductive typo_dialog :: "(nat \<Rightarrow> u32) \<Rightarrow> nat \<Rightarrow> u8 list \<Rightarrow> uboot_call list \<Rightarrow> u8 list \<Rightarrow> bool" for clock where
  finish: "typo_dialog clock i inp (echo_line 10 [] inp) rest" if "edit_line 10 [] inp = Some ([], rest)"
| answer: "typo_dialog clock i inp (echo_line 10 [] inp @ write_calls line @
      map Putc (tenths_text (unat (clock (2 * i + 1) - clock (2 * i)) div 10)) @ out) rest'"
    if "edit_line 10 [] inp = Some (line, rest)" "line \<noteq> []" "unat (clock (2 * i + 1) - clock (2 * i)) < 2147483648"
      "typo_dialog clock (Suc i) rest out rest'"

lemma typo_write_ok:
  assumes "LEGEL_MEM_START_ADDR \<le> buf" "unat buf + unat n \<le> unat KERNEL_START_ADDR" "n \<noteq> 0" "unat n \<le> 10"
  shows "typo_write buf n 0 s = Some (s\<lparr>calls := calls s @ write_calls (bytes (mem s) buf (unat n))\<rparr>)"
  using write_syscall_ok [OF assms(1-3), of s] user_result_pos [of n] assms(3,4)
  by (subst typo_write.simps) simp

lemma typo_loop_dialog:
  "typo_dialog clock i inp out rest \<Longrightarrow> LEGEL_MEM_START_ADDR \<le> buf \<Longrightarrow> unat buf + 10 \<le> unat KERNEL_START_ADDR \<Longrightarrow>
    input s = inp \<Longrightarrow>
    \<exists>s'. typo_loop buf clock (2 * i + 1) (clock (2 * i)) s = Some (0, s') \<and> input s' = rest \<and> calls s' = calls s @ out"
proof (induction arbitrary: s rule: typo_dialog.induct)
  case (finish inp rest i)
  then have b: "LEGEL_MEM_START_ADDR \<le> buf" "unat buf + unat (10 :: u32) \<le> unat KERNEL_START_ADDR" by simp_all
  obtain s' where "read_syscall STDIN_FILENO buf 10 s = Some (0, s')" "input s' = rest"
      "calls s' = calls s @ echo_line 10 [] inp"
    using read_syscall_line [OF b, of s "[]" rest] finish by auto
  then show ?case using user_result_pos [of 0] by (subst typo_loop.simps) simp
next
  case (answer inp line rest i out rest')
  then have b: "LEGEL_MEM_START_ADDR \<le> buf" "unat buf + unat (10 :: u32) \<le> unat KERNEL_START_ADDR" by simp_all
  obtain s1 where s1: "read_syscall STDIN_FILENO buf 10 s = Some (of_nat (length line), s1)" "length line \<le> 10"
      "bytes (mem s1) buf (length line) = line" "input s1 = rest" "calls s1 = calls s @ echo_line 10 [] inp"
    using read_syscall_line [OF b, of s line rest] answer.hyps(1) answer.prems(3) by auto
  let ?n = "of_nat (length line) :: u32"
  have n: "unat ?n = length line" using s1(2) by (intro unat_lt_of_nat_iff) simp
  then have n0: "?n \<noteq> 0" using answer.hyps(2) by (metis length_0_conv unat_0)
  have r: "user_result ?n = ?n" "0 <s ?n" using user_result_pos [of ?n] n n0 s1(2) by simp_all
  have w: "typo_write buf ?n 0 s1 = Some (s1\<lparr>calls := calls s1 @ write_calls line\<rparr>)"
    using typo_write_ok [of buf ?n s1] b n n0 s1(2,3) by simp
  let ?report = "map Putc (typo_report (clock (2 * i + 1) - clock (2 * i)))"
  let ?s2 = "s1\<lparr>calls := (calls s1 @ write_calls line) @ ?report\<rparr>"
  obtain s' where s': "typo_loop buf clock (2 * Suc i + 1) (clock (2 * Suc i)) ?s2 = Some (0, s')" "input s' = rest'"
      "calls s' = calls ?s2 @ out"
    using answer.IH [OF answer.prems(1,2), of ?s2] s1(4) by auto
  have "typo_loop buf clock (2 * i + 1) (clock (2 * i)) s =
      typo_loop buf clock (2 * i + 1 + 2) (clock (2 * i + 1 + 1)) ?s2"
    using s1(1) r w by (subst typo_loop.simps) simp
  moreover have "typo_loop buf clock (2 * i + 1 + 2) (clock (2 * i + 1 + 1)) ?s2 = Some (0, s')"
    using s'(1) by (simp add: numeral_2_eq_2 numeral_3_eq_3)
  ultimately show ?case using s' s1(5) typo_report_tenths [OF answer.hyps(3)] by (intro exI [of _ s']) simp
qed

end
