(* ===== verification/Dagger.thy ===== *)
theory Dagger
  imports Launch
begin

text \<open>
  tasks/dagger/dagger.c: four periodic tasks that print a character each. The first holds a mutex
  while it prints five of its characters, one per period of its device, and the third prints under the
  same mutex: the bursts of the first are never interrupted by the character of the third.
\<close>

section \<open>The program\<close>

text \<open>
  The places in the four functions. \<open>F1_put i\<close> and \<open>F1_wait i\<close> are in the loop of \<open>fun1\<close> with the loop
  counter; an integer is the mutex number that was loaded for a call.
\<close>

datatype dagger_pc =
    F1_head | F1_lock int | F1_put nat | F1_wait nat | F1_load | F1_unlock int | F1_again
  | F2_put | F2_wait
  | F3_head | F3_lock int | F3_put | F3_load | F3_unlock int | F3_wait
  | F4_put | F4_wait
  | Panic string | Panic_loop

record dagger_local =
  pc :: dagger_pc
  str :: u32

record dagger_globals =
  mutex1 :: u32
  errno :: u32

fun dagger_request :: "dagger_local \<Rightarrow> request" where
  "dagger_request l = (case pc l of
     F1_head \<Rightarrow> Compute
   | F1_lock m \<Rightarrow> Lock m
   | F1_put i \<Rightarrow> Send (int_bytes (str l))
   | F1_wait i \<Rightarrow> Wait 0
   | F1_load \<Rightarrow> Compute
   | F1_unlock m \<Rightarrow> Unlock m
   | F1_again \<Rightarrow> Wait 0
   | F2_put \<Rightarrow> Send (int_bytes (str l))
   | F2_wait \<Rightarrow> Wait 1
   | F3_head \<Rightarrow> Compute
   | F3_lock m \<Rightarrow> Lock m
   | F3_put \<Rightarrow> Send (int_bytes (str l))
   | F3_load \<Rightarrow> Compute
   | F3_unlock m \<Rightarrow> Unlock m
   | F3_wait \<Rightarrow> Wait 2
   | F4_put \<Rightarrow> Send (int_bytes (str l))
   | F4_wait \<Rightarrow> Wait 3
   | Panic s \<Rightarrow> Send (text_bytes s @ [10])
   | Panic_loop \<Rightarrow> Compute)"

text \<open>\<open>if (event_wait(d) < 0) panic(msg);\<close>\<close>

definition unless_panic :: "u32 \<Rightarrow> string \<Rightarrow> dagger_pc \<Rightarrow> dagger_pc" where
  "unless_panic r msg next = (if r <s 0 then Panic msg else next)"

fun dagger_next :: "u32 \<Rightarrow> u32 \<Rightarrow> dagger_pc \<Rightarrow> dagger_pc" where
  "dagger_next m r F1_head = F1_lock (sint m)"
| "dagger_next m r (F1_lock _) = F1_put 0"
| "dagger_next m r (F1_put i) = (if i = 4 then F1_load else F1_wait i)"
| "dagger_next m r (F1_wait i) = unless_panic r ''Dev 0 failed'' (if i + 1 < 5 then F1_put (i + 1) else F1_load)"
| "dagger_next m r F1_load = F1_unlock (sint m)"
| "dagger_next m r (F1_unlock _) = F1_again"
| "dagger_next m r F1_again = unless_panic r ''Dev 0 failed'' F1_head"
| "dagger_next m r F2_put = F2_wait"
| "dagger_next m r F2_wait = unless_panic r ''Dev 1 failed'' F2_put"
| "dagger_next m r F3_head = F3_lock (sint m)"
| "dagger_next m r (F3_lock _) = F3_put"
| "dagger_next m r F3_put = F3_load"
| "dagger_next m r F3_load = F3_unlock (sint m)"
| "dagger_next m r (F3_unlock _) = F3_wait"
| "dagger_next m r F3_wait = unless_panic r ''Dev 2 failed'' F3_head"
| "dagger_next m r F4_put = F4_wait"
| "dagger_next m r F4_wait = unless_panic r ''Dev 3 failed'' F4_put"
| "dagger_next m r (Panic _) = Panic_loop"
| "dagger_next m r Panic_loop = Panic_loop"

text \<open>The wrappers of \<open>mutex_lock\<close>, \<open>mutex_unlock\<close> and \<open>event_wait\<close> store their result in \<open>errno\<close>.\<close>

fun stores_errno :: "request \<Rightarrow> bool" where
  "stores_errno (Lock _) = True"
| "stores_errno (Unlock _) = True"
| "stores_errno (Wait _) = True"
| "stores_errno _ = False"

definition dagger :: "(dagger_globals, dagger_local) program" where
  "dagger = \<lparr>request_of = dagger_request,
     returns = (\<lambda>r g l. (if stores_errno (dagger_request l) then g\<lparr>errno := r\<rparr> else g,
       l\<lparr>pc := dagger_next (mutex1 g) r (pc l)\<rparr>))\<rparr>"

text \<open>
  \<open>main\<close>. The link addresses of the four functions and of the task array are parameters, as are
  those of the kernel's \<open>launch_task\<close> and \<open>idle\<close>.
\<close>

definition dagger_tasks :: "u32 \<Rightarrow> u32 \<Rightarrow> u32 \<Rightarrow> u32 \<Rightarrow> task list" where
  "dagger_tasks f1 f2 f3 f4 =
     [\<lparr>lambda = f1, data = 0x40, stack_pos = 0xa2000000, task_C = 1, task_T = dev_freq ! 0\<rparr>,
      \<lparr>lambda = f2, data = 0x3c, stack_pos = 0xa1800000, task_C = 1, task_T = dev_freq ! 1\<rparr>,
      \<lparr>lambda = f3, data = 0x3e, stack_pos = 0xa1000000, task_C = 1, task_T = dev_freq ! 2\<rparr>,
      \<lparr>lambda = f4, data = 0x2a, stack_pos = 0xa0800000, task_C = 1, task_T = dev_freq ! 3\<rparr>]"

definition dagger_entry :: "u32 \<Rightarrow> u32 \<Rightarrow> u32 \<Rightarrow> u32 \<Rightarrow> u32 \<Rightarrow> u32 \<Rightarrow> dagger_local" where
  "dagger_entry f1 f2 f3 f4 f s = \<lparr>pc = (if f = f1 then F1_head else if f = f2 then F2_put
     else if f = f3 then F3_head else if f = f4 then F4_put else Panic_loop), str = s\<rparr>"

definition dagger_main ::
  "u32 \<Rightarrow> u32 \<Rightarrow> u32 \<Rightarrow> u32 \<Rightarrow> u32 \<Rightarrow> u32 \<Rightarrow> u32 \<Rightarrow> kernel \<Rightarrow> (dagger_globals, dagger_local) app main_result option" where
  "dagger_main f1 f2 f3 f4 launch_task idle tasks k = do {
     (out, k) \<leftarrow> mutex_create_syscall k;
     case out of
       Return r \<Rightarrow> do {
         let m = create_result r 0;
         (out, _, k) \<leftarrow> task_create_syscall launch_task idle tasks (dagger_tasks f1 f2 f3 f4) 4 k;
         started out (launched (dagger_entry f1 f2 f3 f4) \<lparr>mutex1 = fst m, errno = snd m\<rparr> [] k)
           (text_bytes ''Why did your code get here!'' @ [10, 10]) }
     | _ \<Rightarrow> None }"

section \<open>The bursts on the console\<close>

text \<open>
  An automaton over the console: its state is the number of characters of the first task in the
  current burst of five; a character of the third task is refused inside of a burst.
\<close>

fun burst_step :: "u8 \<Rightarrow> nat option \<Rightarrow> nat option" where
  "burst_step c None = None"
| "burst_step c (Some i) =
     (if c = 0x40 then Some ((i + 1) mod 5) else if c = 0x3e then (if i = 0 then Some 0 else None) else Some i)"

definition bursts :: "u8 list \<Rightarrow> nat option" where
  "bursts cs = fold burst_step cs (Some 0)"

lemma bursts_snoc [simp]: "bursts (cs @ [c]) = burst_step c (bursts cs)"
  by (simp add: bursts_def)

text \<open>What acceptance by the automaton means.\<close>

lemma bursts_count: "bursts cs = Some i \<Longrightarrow> count_list cs 0x40 mod 5 = i"
proof (induction cs arbitrary: i rule: rev_induct)
  case (snoc c cs)
  then obtain j where "bursts cs = Some j" "burst_step c (Some j) = Some i" by (cases "bursts cs") auto
  with snoc.IH [of j] show ?case by (auto simp: mod_Suc split: if_splits)
qed (simp add: bursts_def)

lemma fold_burst_None: "fold burst_step cs None = None"
  by (induction cs) simp_all

lemma bursts_between:
  assumes "bursts (xs @ 0x3e # ys) \<noteq> None"
  shows "5 dvd count_list xs 0x40"
proof -
  have "burst_step 0x3e (bursts xs) \<noteq> None"
    using assms fold_burst_None [of ys] by (cases "burst_step 0x3e (bursts xs)") (auto simp: bursts_def simp del: burst_step.simps)
  then have "bursts xs = Some 0" by (cases "bursts xs") (auto split: if_splits)
  then show ?thesis using bursts_count by (simp add: dvd_eq_mod_eq_0)
qed

text \<open>The number of characters of the current burst that the first task has printed or is printing.\<close>

fun position :: "dagger_pc \<Rightarrow> nat" where
  "position (F1_put i) = i"
| "position (F1_wait i) = i + 1"
| "position _ = 0"

fun critical :: "dagger_pc \<Rightarrow> bool" where
  "critical (F1_put _) = True"
| "critical (F1_wait _) = True"
| "critical F1_load = True"
| "critical (F1_unlock _) = True"
| "critical F3_put = True"
| "critical F3_load = True"
| "critical (F3_unlock _) = True"
| "critical _ = False"

text \<open>Where each of the four tasks can be, in the order of their periods, and with which mutex number.\<close>

fun dagger_place :: "nat \<Rightarrow> dagger_pc \<Rightarrow> bool" where
  "dagger_place 0 p \<longleftrightarrow> p \<in> {F4_put, F4_wait}"
| "dagger_place (Suc 0) p \<longleftrightarrow> p \<in> {F1_head, F1_lock 0, F1_load, F1_unlock 0, F1_again} \<or>
     (\<exists>i. p = F1_put i \<and> i < 5 \<or> p = F1_wait i \<and> i < 4)"
| "dagger_place (Suc (Suc 0)) p \<longleftrightarrow> p \<in> {F2_put, F2_wait}"
| "dagger_place (Suc (Suc (Suc 0))) p \<longleftrightarrow> p \<in> {F3_head, F3_lock 0, F3_put, F3_load, F3_unlock 0, F3_wait}"
| "dagger_place _ p \<longleftrightarrow> False"

definition dagger_char :: "nat \<Rightarrow> u32" where
  "dagger_char t = [0x2a, 0x40, 0x3c, 0x3e] ! t"

text \<open>What a task may have left to send, and where it is then.\<close>

definition rest_of :: "u32 \<Rightarrow> u8 list set" where
  "rest_of c = {[], [0], [0, 0], [0, 0, 0], int_bytes c}"

fun after_put :: "dagger_pc \<Rightarrow> bool" where
  "after_put (F1_wait _) = True"
| "after_put F1_load = True"
| "after_put F2_wait = True"
| "after_put F3_load = True"
| "after_put F4_wait = True"
| "after_put _ = False"

definition dagger_task_ok :: "nat \<Rightarrow> dagger_local \<Rightarrow> u8 list \<Rightarrow> bool" where
  "dagger_task_ok t l p \<longleftrightarrow> dagger_place t (pc l) \<and> str l = dagger_char t \<and> p \<in> rest_of (str l) \<and>
     (p \<noteq> [] \<longrightarrow> after_put (pc l))"

definition dagger_inv :: "(dagger_globals, dagger_local) thread_spec \<Rightarrow> bool" where
  "dagger_inv a \<longleftrightarrow> mutex1 (globals a) = 0 \<and> 0 \<in> made a \<and>
     (\<forall>t<4. dagger_task_ok t (locals a t) (pending a t) \<and> (own a 0 = Some t \<longleftrightarrow> critical (pc (locals a t)))) \<and>
     bursts (console a @ pending a 1) = Some (position (pc (locals a 1)) mod 5)"

section \<open>The invariant\<close>

lemma dagger_place_simps [simp]:
  "dagger_place 1 p \<longleftrightarrow> dagger_place (Suc 0) p" "dagger_place 2 p \<longleftrightarrow> p \<in> {F2_put, F2_wait}"
  "dagger_place 3 p \<longleftrightarrow> p \<in> {F3_head, F3_lock 0, F3_put, F3_load, F3_unlock 0, F3_wait}"
  by (simp_all add: numeral_eq_Suc)

lemma dagger_char_simps [simp]:
  "dagger_char 0 = 0x2a" "dagger_char 1 = 0x40" "dagger_char (Suc 0) = 0x40" "dagger_char 2 = 0x3c" "dagger_char 3 = 0x3e"
  by (simp_all add: dagger_char_def)

lemma int_bytes_chars [simp]:
  "int_bytes 0x2a = [0x2a, 0, 0, 0]" "int_bytes 0x40 = [0x40, 0, 0, 0]" "int_bytes 0x3c = [0x3c, 0, 0, 0]"
  "int_bytes 0x3e = [0x3e, 0, 0, 0]"
  by (simp_all add: int_bytes_def)

lemma return_to_dagger:
  "return_to dagger t (Return r) s = s\<lparr>globals := (if stores_errno (dagger_request (locals s t))
       then (globals s)\<lparr>errno := r\<rparr> else globals s),
     locals := (locals s)(t := (locals s t)\<lparr>pc := dagger_next (mutex1 (globals s)) r (pc (locals s t))\<rparr>)\<rparr>"
  by (simp add: return_to_def dagger_def)

text \<open>A task that is not in its critical section has nothing left to send.\<close>

lemma burst_other:
  assumes "bursts (cs @ p) = Some i" "burst_step c (Some i) = Some i" "c = 0x3e \<longrightarrow> p = []" "c \<noteq> 0x40"
  shows "bursts (cs @ c # p) = Some i"
proof (cases "c = 0x3e")
  case False
  then have "burst_step c x = x" for x using assms(4) by (cases x) simp_all
  then show ?thesis using assms(1) by (simp add: bursts_def)
qed (use assms in simp)

lemma dagger_inv_update:
  assumes inv: "dagger_inv a" and t: "t < 4"
    and g: "mutex1 (globals a') = 0" "made a' = made a"
    and upd: "locals a' = (locals a)(t := l)" "pending a' = (pending a)(t := p)"
    and ok: "dagger_task_ok t l p"
    and own: "own a' 0 = own a 0 \<and> critical (pc l) = critical (pc (locals a t)) \<or>
      own a 0 = None \<and> own a' 0 = Some t \<and> critical (pc l) \<or> own a 0 = Some t \<and> own a' 0 = None \<and> \<not> critical (pc l)"
    and burst: "bursts (console a' @ pending a' 1) = Some (position (pc (locals a' 1)) mod 5)"
  shows "dagger_inv a'"
  unfolding dagger_inv_def
proof (intro conjI allI impI)
  fix u :: nat
  assume u: "u < 4"
  have a: "dagger_task_ok u (locals a u) (pending a u)" "own a 0 = Some u \<longleftrightarrow> critical (pc (locals a u))"
    "own a 0 = Some t \<longleftrightarrow> critical (pc (locals a t))"
    using inv u t unfolding dagger_inv_def by blast+
  show "dagger_task_ok u (locals a' u) (pending a' u)" using a ok upd by simp
  show "own a' 0 = Some u \<longleftrightarrow> critical (pc (locals a' u))"
    using a own upd by (cases "u = t") auto
qed (use inv g burst in \<open>simp_all add: dagger_inv_def\<close>)

lemma dagger_invD:
  assumes "dagger_inv a" "t < 4"
  shows "dagger_place t (pc (locals a t))" "str (locals a t) = dagger_char t" "pending a t \<in> rest_of (str (locals a t))"
    "pending a t \<noteq> [] \<Longrightarrow> after_put (pc (locals a t))" "own a 0 = Some t \<longleftrightarrow> critical (pc (locals a t))"
    "mutex1 (globals a) = 0" "0 \<in> made a" "bursts (console a @ pending a 1) = Some (position (pc (locals a 1)) mod 5)"
  using assms unfolding dagger_inv_def dagger_task_ok_def by blast+

lemma dagger_send:
  assumes inv: "dagger_inv a" and t: "t < 4" and p: "pending a t \<noteq> []"
  shows "dagger_inv (send_char t a)"
proof -
  note d = dagger_invD [OF inv t]
  obtain c cs where c: "pending a t = c # cs" using p by (cases "pending a t") auto
  have rest: "cs \<in> rest_of (str (locals a t)) \<and> (c = 0 \<or> c = ucast (dagger_char t))"
    using d(2,3) c t by (auto simp: rest_of_def four_tasks)
  have burst: "bursts (console (send_char t a) @ pending (send_char t a) 1) = Some (position (pc (locals a 1)) mod 5)"
  proof (cases "t = 1")
    case True
    then show ?thesis using d(8) c by (simp add: send_char_def)
  next
    case False
    have "burst_step c (Some (position (pc (locals a 1)) mod 5)) = Some (position (pc (locals a 1)) mod 5) \<and>
        (c = 0x3e \<longrightarrow> pending a 1 = []) \<and> c \<noteq> 0x40"
    proof (cases "t = 3 \<and> c = 0x3e")
      case True
      then have "critical (pc (locals a 3))" using d(1) d(4) p by auto
      then have "own a 0 = Some 3" using d(5) True by simp
      then have nc: "\<not> critical (pc (locals a 1))" using dagger_invD(5) [OF inv, of 1] by simp
      then have "\<not> after_put (pc (locals a 1))" "position (pc (locals a 1)) = 0"
        using dagger_invD(1) [OF inv, of 1] by auto
      moreover have "pending a 1 = []" using dagger_invD(4) [OF inv, of 1] calculation(1) by auto
      ultimately show ?thesis using True by simp
    qed (use False rest t in \<open>auto simp: four_tasks\<close>)
    then have "bursts (console a @ c # pending a 1) = Some (position (pc (locals a 1)) mod 5)"
      by (intro burst_other [OF d(8)]) blast+
    then show ?thesis using False c by (simp add: send_char_def)
  qed
  show ?thesis
  proof (rule dagger_inv_update [OF inv t])
    show "dagger_task_ok t (locals a t) cs"
      using d(1-4) rest c by (auto simp: dagger_task_ok_def)
    show "own (send_char t a) 0 = own a 0 \<and> critical (pc (locals a t)) = critical (pc (locals a t)) \<or>
      own a 0 = None \<and> own (send_char t a) 0 = Some t \<and> critical (pc (locals a t)) \<or>
      own a 0 = Some t \<and> own (send_char t a) 0 = None \<and> \<not> critical (pc (locals a t))"
      by (simp add: send_char_def)
  qed (use d burst c in \<open>simp_all add: send_char_def\<close>)
qed

text \<open>The steps at which a call returns to a task with nothing left to send.\<close>

lemma dagger_return:
  assumes inv: "dagger_inv a" and t: "t < 4" "pending a t = []"
    and b: "globals b = globals a" "locals b = locals a" "made b = made a" "console b = console a"
    and p: "pending b = (pending a)(t := p)"
    and ok: "dagger_task_ok t ((locals a t)\<lparr>pc := dagger_next 0 r (pc (locals a t))\<rparr>) p"
    and own: "own b 0 = own a 0 \<and> critical (dagger_next 0 r (pc (locals a t))) = critical (pc (locals a t)) \<or>
      own a 0 = None \<and> own b 0 = Some t \<and> critical (dagger_next 0 r (pc (locals a t))) \<or>
      own a 0 = Some t \<and> own b 0 = None \<and> \<not> critical (dagger_next 0 r (pc (locals a t)))"
    and pos: "t = 1 \<longrightarrow> fold burst_step p (Some (position (pc (locals a t)) mod 5)) =
      Some (position (dagger_next 0 r (pc (locals a t))) mod 5)"
  shows "dagger_inv (return_to dagger t (Return r) b)"
proof -
  note d = dagger_invD [OF inv t(1)]
  have "bursts (console a @ pending b 1) = Some (position (pc (locals (return_to dagger t (Return r) b) 1)) mod 5)"
  proof (cases "t = 1")
    case True
    then have "bursts (console a) = Some (position (pc (locals a 1)) mod 5)" using d(8) t(2) by simp
    then show ?thesis using True pos d(6) b p by (simp add: return_to_dagger bursts_def)
  next
    case False
    then show ?thesis using d(8) b p by (simp add: return_to_dagger)
  qed
  then show ?thesis
    by (intro dagger_inv_update [OF inv t(1) _ _ _ _ ok]) (use b p d(6) own in \<open>simp_all add: return_to_dagger\<close>)
qed

lemma dagger_step:
  assumes inv: "dagger_inv a" and step: "tstep dagger {..<4} a a'"
  shows "dagger_inv a'"
  using step
proof (cases rule: tstep.cases)
  case (t_send t)
  then show ?thesis using dagger_send [OF inv] by simp
next
  case (t_write t bs)
  then have t: "t < 4" by simp
  have req: "dagger_request (locals a t) = Send bs" using t_write by (simp add: dagger_def)
  show ?thesis
    unfolding t_write(1)
  proof (rule dagger_return [OF inv t t_write(3)])
    show "pending (start_send t bs a) = (pending a)(t := bs)" by (simp add: start_send_def)
    have pc: "pc (locals a t) \<in> {F2_put, F3_put, F4_put} \<or> (t = 1 \<and> (\<exists>i<5. pc (locals a t) = F1_put i))"
      "bs = int_bytes (dagger_char t)"
      using req dagger_invD(1,2) [OF inv t] t by (auto simp: four_tasks)
    then show "dagger_task_ok t ((locals a t)\<lparr>pc := dagger_next 0 (of_nat (length bs)) (pc (locals a t))\<rparr>) bs"
      using dagger_invD(1,2) [OF inv t] t by (auto simp: four_tasks dagger_task_ok_def rest_of_def)
    show "own (start_send t bs a) 0 = own a 0 \<and>
        critical (dagger_next 0 (of_nat (length bs)) (pc (locals a t))) = critical (pc (locals a t)) \<or>
      own a 0 = None \<and> own (start_send t bs a) 0 = Some t \<and> critical (dagger_next 0 (of_nat (length bs)) (pc (locals a t))) \<or>
      own a 0 = Some t \<and> own (start_send t bs a) 0 = None \<and> \<not> critical (dagger_next 0 (of_nat (length bs)) (pc (locals a t)))"
      using pc(1) by (auto simp: start_send_def split: if_splits)
    show "t = 1 \<longrightarrow> fold burst_step bs (Some (position (pc (locals a t)) mod 5)) =
        Some (position (dagger_next 0 (of_nat (length bs)) (pc (locals a t))) mod 5)"
      using pc dagger_invD(1) [OF inv t] by auto
  qed (simp_all add: start_send_def)
next
  case (t_value t r msec d)
  then have t: "t < 4" by simp
  note inv_t = dagger_invD [OF inv t]
  have r: "r = 0" and calls: "\<forall>m. pc (locals a t) \<notin> {F1_lock m, F1_unlock m, F3_lock m, F3_unlock m}"
      "\<forall>i. pc (locals a t) \<notin> {F1_put i, F2_put, F3_put, F4_put}"
    using t_value(4) inv_t(1) t by (auto simp: four_tasks dagger_def)
  show ?thesis
    unfolding t_value(1) r
  proof (rule dagger_return [OF inv t t_value(3), where p = "[]"])
    show "pending a = (pending a)(t := [])" using t_value(3) by (simp add: fun_upd_idem)
    show "dagger_task_ok t ((locals a t)\<lparr>pc := dagger_next 0 0 (pc (locals a t))\<rparr>) []"
      using inv_t(1,2) t calls by (auto simp: four_tasks dagger_task_ok_def rest_of_def unless_panic_def)
    show "own a 0 = own a 0 \<and> critical (dagger_next 0 0 (pc (locals a t))) = critical (pc (locals a t)) \<or>
      own a 0 = None \<and> own a 0 = Some t \<and> critical (dagger_next 0 0 (pc (locals a t))) \<or>
      own a 0 = Some t \<and> own a 0 = None \<and> \<not> critical (dagger_next 0 0 (pc (locals a t)))"
      using inv_t(1) t calls by (auto simp: four_tasks unless_panic_def)
    show "t = 1 \<longrightarrow> fold burst_step [] (Some (position (pc (locals a t)) mod 5)) =
        Some (position (dagger_next 0 0 (pc (locals a t))) mod 5)"
      using inv_t(1) calls by (auto simp: unless_panic_def)
  qed simp_all
next
  case (t_lock t m)
  then have t: "t < 4" by simp
  note inv_t = dagger_invD [OF inv t]
  have pc: "m = 0" "pc (locals a t) \<in> {F1_lock 0, F3_lock 0}"
    using t_lock(4) inv_t(1) t by (auto simp: four_tasks dagger_def)
  show ?thesis
    unfolding t_lock(1) pc(1)
    by (rule dagger_return [OF inv t t_lock(3), where p = "[]"])
      (use pc inv_t(1,2) t t_lock(3,6) in \<open>auto simp: four_tasks dagger_task_ok_def rest_of_def fun_upd_idem\<close>)
next
  case (t_unlock t m)
  then have t: "t < 4" by simp
  note inv_t = dagger_invD [OF inv t]
  have pc: "m = 0" "pc (locals a t) \<in> {F1_unlock 0, F3_unlock 0}"
    using t_unlock(4) inv_t(1) t by (auto simp: four_tasks dagger_def)
  show ?thesis
    unfolding t_unlock(1) pc(1)
    by (rule dagger_return [OF inv t t_unlock(3), where p = "[]"])
      (use pc inv_t(1,2) t t_unlock(3,5) in \<open>auto simp: four_tasks dagger_task_ok_def rest_of_def fun_upd_idem\<close>)
next
  case (t_refused t m r)
  then have t: "t < 4" by simp
  note inv_t = dagger_invD [OF inv t]
  have "m = 0 \<and> (pc (locals a t) \<in> {F1_lock 0, F3_lock 0} \<or> pc (locals a t) \<in> {F1_unlock 0, F3_unlock 0} \<and> own a 0 = Some t)"
    using t_refused(4) inv_t(1,5) t by (auto simp: four_tasks dagger_def)
  moreover have "own a 0 \<noteq> Some t" if "pc (locals a t) \<in> {F1_lock 0, F3_lock 0}" using that inv_t(5) by auto
  ultimately show ?thesis using t_refused(4) inv_t(7) by (auto simp: dagger_def)
next
  case (t_create t m)
  then show ?thesis using dagger_invD(1) [OF inv, of t] by (auto simp: four_tasks dagger_def)
next
  case (t_create_fails t)
  then show ?thesis using dagger_invD(1) [OF inv, of t] by (auto simp: four_tasks dagger_def)
qed

lemma dagger_reach: "treach dagger {..<4} a0 a \<Longrightarrow> dagger_inv a0 \<Longrightarrow> dagger_inv a"
  by (induction rule: treach.induct) (simp_all add: dagger_step)

lemma dagger_requests_ok:
  assumes "dagger_inv a"
  shows "\<forall>t\<in>{..<4}. request_ok (request_of dagger (locals a t))"
proof
  fix t :: nat
  assume "t \<in> {..<4}"
  then have t: "t < 4" by simp
  show "request_ok (request_of dagger (locals a t))"
    using dagger_invD(1) [OF assms t] t by (auto simp: four_tasks dagger_def request_ok_def)
qed

section \<open>The start\<close>

lemma dagger_starts:
  assumes k: "booted k" and fs: "functions_ok [f1, f2, f3, f4]" and addr: "\<not> bad_user_addr tasks"
  shows "\<exists>s. dagger_main f1 f2 f3 f4 launch_task idle tasks k = Some (Running s) \<and>
    app_inv dagger {..<4} s \<and> dagger_inv (spec_of s) \<and> console s = []"
proof -
  let ?ts = "dagger_tasks f1 f2 f3 f4" and ?a = "abs_state k"
  obtain out k1 where k1: "mutex_create_syscall k = Some (out, k1)" "quiet k1" "spec_create ?a = (out, abs_state k1)"
    using mutex_create_quiet [of k] k unfolding booted_def by blast
  have "spec_create ?a = (Return (of_nat 0), ?a\<lparr>created := (created ?a)(0 := True)\<rparr>)"
    using k by (intro spec_create_next) (auto simp: booted_def)
  then have out: "out = Return 0" "abs_state k1 = ?a\<lparr>created := (created ?a)(0 := True)\<rparr>" using k1(3) by simp_all
  let ?e = "dagger_entry f1 f2 f3 f4" and ?g = "\<lparr>mutex1 = 0, errno = 0\<rparr>"
  have free: "owner (abs_state k1) = (\<lambda>_. None)" using out(2) k by (simp add: booted_def)
  have ts: "device_tasks ?ts" using fs by (simp add: device_tasks_def dagger_tasks_def functions_ok_def bad_user_addr_def dev_freq_def)
  obtain k2 s where k2: "task_create_syscall launch_task idle tasks ?ts 4 k1 = Some (Switched, map ((!) ?ts) [3, 0, 1, 2], k2)"
      "s = launched ?e ?g [] k2" "app_inv dagger {..<4} s" "own (spec_of s) = (\<lambda>_. None)"
      "made (spec_of s) = {m. created (abs_state k1) m}"
      "locals s 0 = ?e (lambda (?ts ! 3)) (data (?ts ! 3))" "locals s 1 = ?e (lambda (?ts ! 0)) (data (?ts ! 0))"
      "locals s 2 = ?e (lambda (?ts ! 1)) (data (?ts ! 1))" "locals s 3 = ?e (lambda (?ts ! 2)) (data (?ts ! 2))"
    using device_tasks_start [OF k1(2) free ts addr, of launch_task idle ?e ?g "[]" dagger] by (elim exE conjE) (rule that)
  have "dagger_main f1 f2 f3 f4 launch_task idle tasks k = Some (Running s)"
    using k1(1) out(1) k2(1,2) by (simp add: dagger_main_def create_result_def)
  moreover have ne: "f2 \<noteq> f1" "f3 \<noteq> f1" "f3 \<noteq> f2" "f4 \<noteq> f1" "f4 \<noteq> f2" "f4 \<noteq> f3"
    using fs by (auto simp: functions_ok_def)
  moreover have loc: "locals s 0 = \<lparr>pc = F4_put, str = 0x2a\<rparr>" "locals s 1 = \<lparr>pc = F1_head, str = 0x40\<rparr>"
      "locals s 2 = \<lparr>pc = F2_put, str = 0x3c\<rparr>" "locals s 3 = \<lparr>pc = F3_head, str = 0x3e\<rparr>"
    using k2(6-9) ne by (simp_all add: dagger_tasks_def dagger_entry_def)
  moreover have "dagger_task_ok t (locals s t) [] \<and> \<not> critical (pc (locals s t))" if "t < 4" for t
    using that [unfolded four_tasks] loc by (elim disjE) (simp_all add: dagger_task_ok_def rest_of_def)
  moreover have "console s = []" "pending s = (\<lambda>_. [])" "mutex1 (globals s) = 0" using k2(2) by simp_all
  ultimately show ?thesis
    using k2(3-5) out(2) by (simp add: dagger_inv_def bursts_def del: made_of_simp)
qed

lemma dagger_runs:
  assumes "booted k" "functions_ok [f1, f2, f3, f4]" "\<not> bad_user_addr tasks"
    and "dagger_main f1 f2 f3 f4 launch_task idle tasks k = Some (Running s0)" "areach dagger s0 s"
  shows "dagger_inv (spec_of s)"
proof -
  have s0: "app_inv dagger {..<4} s0" "dagger_inv (spec_of s0)"
    using dagger_starts [OF assms(1-3), of launch_task idle] assms(4) by auto
  then have "treach dagger {..<4} (spec_of s0) (spec_of s)"
    using areach_simulated [OF s0(1) _ assms(5)] dagger_reach dagger_requests_ok by blast
  then show ?thesis using dagger_reach s0(2) by blast
qed

end
