(* ===== verification/Chaser.thy ===== *)
theory Chaser
  imports Launch Format
begin

text \<open>
  tasks/mutex_chaser/mutex_chaser.c: four tasks update 31 shared variables, each under its mutex. No
  task ever panics, no update is lost, and the final check accepts a variable exactly when the
  tasks took its mutex in the order of their numbers.
\<close>

section \<open>The program\<close>

text \<open>
  The four functions differ in the operation, the device and the messages, and in what follows the
  loop. \<open>C_store\<close> is the assignment \<open>mutex_val[cur_mutex] = ...\<close>, the right-hand side of which has
  been read into a register in \<open>C_load\<close>. \<open>C_unlock_failed\<close> to \<open>C_say_eperm\<close> are the error branch of
  \<open>fun1\<close>, \<open>C_check\<close> to \<open>C_done\<close> the final check of \<open>fun4\<close> with its counter.
\<close>

datatype chaser_pc =
    C_while | C_put | C_print | C_lock | C_load | C_store | C_unlock | C_wait | C_idle
  | C_unlock_failed | C_say_einval | C_test_eperm | C_say_eperm
  | C_check nat | C_report nat | C_verdict nat | C_done
  | C_panic string | C_panic_loop

record chaser_local =
  fn :: nat
  cpc :: chaser_pc
  cur_mutex :: int
  tmp :: u32
  res :: u32
  arg :: u32

record chaser_globals =
  mutex_val :: "u32 list"
  cerrno :: u32
  result_val :: u32

definition MUTEX_NUM :: int where "MUTEX_NUM = 32"

definition fun1_opval :: u32 where "fun1_opval = 3"
definition fun2_opval :: u32 where "fun2_opval = 11"
definition fun3_opval :: u32 where "fun3_opval = 7"
definition fun4_opval :: u32 where "fun4_opval = 13"
definition init_val :: u32 where "init_val = 2"

text \<open>The operation and the device of the functions \<open>fun1\<close> to \<open>fun4\<close>, numbered from 0.\<close>

definition chaser_op :: "nat \<Rightarrow> u32 \<Rightarrow> u32" where
  "chaser_op f v = (if f = 0 then v + fun1_opval else if f = 1 then v * fun2_opval
     else if f = 2 then v - fun3_opval else v * fun4_opval)"

definition chaser_dev :: "nat \<Rightarrow> u32" where
  "chaser_dev f = (if f = 0 then 3 else if f = 1 then 0 else if f = 2 then 1 else 2)"

definition dev_failed :: "nat \<Rightarrow> string" where
  "dev_failed f = (if f = 0 then ''Dev 3 failed'' else if f = 1 then ''Dev 0 failed''
     else if f = 2 then ''Dev 1 failed'' else ''Dev 2 failed'')"

definition YES_STR :: "u8 list" where "YES_STR = [27] @ text_bytes ''[32;1mYes!'' @ [27] @ text_bytes ''[0m'' @ [10]"
definition NO_STR :: "u8 list" where "NO_STR = [27] @ text_bytes ''[31;1mNo!'' @ [27] @ text_bytes ''[0m'' @ [10]"
definition TEST_DONE :: "u8 list" where
  "TEST_DONE = [27] @ text_bytes ''[32;1mTEST PASSED SUCCESSFULLY!'' @ [27] @ text_bytes ''[0m'' @ [10]"

text \<open>What \<open>printf\<close> and \<open>puts\<close> write.\<close>

definition puts_text :: "u8 list \<Rightarrow> u8 list" where "puts_text s = s @ [10]"

definition mutex_text :: "int \<Rightarrow> u8 list" where
  "mutex_text m = text_bytes ''>>mutex '' @ decimal m @ [10]"

definition final_text :: "nat \<Rightarrow> u32 \<Rightarrow> u32 \<Rightarrow> u8 list" where
  "final_text i m_val result = text_bytes ''Final mutex'' @ decimal (int i) @ text_bytes '' value '' @ decimal (sint m_val) @
     text_bytes '' == result value '' @ decimal (sint result) @ [10]"

definition chaser_request :: "chaser_local \<Rightarrow> request" where
  "chaser_request l = (case cpc l of
     C_while \<Rightarrow> Compute
   | C_put \<Rightarrow> Send (int_bytes (arg l))
   | C_print \<Rightarrow> Send (mutex_text (cur_mutex l))
   | C_lock \<Rightarrow> Lock (cur_mutex l)
   | C_load \<Rightarrow> Compute
   | C_store \<Rightarrow> Compute
   | C_unlock \<Rightarrow> Unlock (cur_mutex l)
   | C_wait \<Rightarrow> Wait (chaser_dev (fn l))
   | C_idle \<Rightarrow> Wait (chaser_dev (fn l))
   | C_unlock_failed \<Rightarrow> Compute
   | C_say_einval \<Rightarrow> Send (puts_text (text_bytes ''EINVAL''))
   | C_test_eperm \<Rightarrow> Compute
   | C_say_eperm \<Rightarrow> Send (puts_text (text_bytes ''EPERM''))
   | C_check i \<Rightarrow> Compute
   | C_report i \<Rightarrow> Send (final_text i (tmp l) (res l))
   | C_verdict i \<Rightarrow> Send (puts_text (if tmp l = res l then YES_STR else NO_STR))
   | C_done \<Rightarrow> Send (puts_text TEST_DONE)
   | C_panic s \<Rightarrow> Send (puts_text (text_bytes s))
   | C_panic_loop \<Rightarrow> Compute)"

definition chaser_next :: "chaser_globals \<Rightarrow> u32 \<Rightarrow> chaser_local \<Rightarrow> chaser_local" where
  "chaser_next g r l = (case cpc l of
     C_while \<Rightarrow> l\<lparr>cpc := (if cur_mutex l < MUTEX_NUM then C_put else if fn l = 3 then C_check 0 else C_idle)\<rparr>
   | C_put \<Rightarrow> l\<lparr>cpc := C_print\<rparr>
   | C_print \<Rightarrow> l\<lparr>cpc := C_lock\<rparr>
   | C_lock \<Rightarrow> l\<lparr>cpc := (if r \<noteq> 0 then C_panic ''Failed to acquire mutex'' else C_load)\<rparr>
   | C_load \<Rightarrow> l\<lparr>cpc := C_store, tmp := mutex_val g ! nat (cur_mutex l)\<rparr>
   | C_store \<Rightarrow> l\<lparr>cpc := C_unlock\<rparr>
   | C_unlock \<Rightarrow>
       if r \<noteq> 0 then l\<lparr>cpc := (if fn l = 0 then C_unlock_failed else C_panic ''Failed to release mutex'')\<rparr>
       else l\<lparr>cpc := C_wait, cur_mutex := cur_mutex l + 1\<rparr>
   | C_wait \<Rightarrow> l\<lparr>cpc := (if r <s 0 then C_panic (dev_failed (fn l)) else C_while)\<rparr>
   | C_idle \<Rightarrow> l\<lparr>cpc := (if r <s 0 then C_panic (dev_failed (fn l)) else C_idle)\<rparr>
   | C_unlock_failed \<Rightarrow> l\<lparr>cpc := (if cerrno g = EINVAL then C_say_einval else C_test_eperm)\<rparr>
   | C_say_einval \<Rightarrow> l\<lparr>cpc := C_test_eperm\<rparr>
   | C_test_eperm \<Rightarrow> l\<lparr>cpc := (if cerrno g = EPERM then C_say_eperm else C_panic ''Failed to release mutex'')\<rparr>
   | C_say_eperm \<Rightarrow> l\<lparr>cpc := C_panic ''Failed to release mutex''\<rparr>
   | C_check i \<Rightarrow>
       if int i < MUTEX_NUM then l\<lparr>cpc := C_report i, tmp := mutex_val g ! i, res := result_val g\<rparr> else l\<lparr>cpc := C_done\<rparr>
   | C_report i \<Rightarrow> l\<lparr>cpc := C_verdict i\<rparr>
   | C_verdict i \<Rightarrow> l\<lparr>cpc := C_check (i + 1)\<rparr>
   | C_done \<Rightarrow> l\<lparr>cpc := C_idle\<rparr>
   | C_panic s \<Rightarrow> l\<lparr>cpc := C_panic_loop\<rparr>
   | C_panic_loop \<Rightarrow> l)"

definition chaser_effect :: "u32 \<Rightarrow> chaser_local \<Rightarrow> chaser_globals \<Rightarrow> chaser_globals" where
  "chaser_effect r l g =
     (if cpc l = C_store then g\<lparr>mutex_val := (mutex_val g)[nat (cur_mutex l) := chaser_op (fn l) (tmp l)]\<rparr>
      else if cpc l \<in> {C_lock, C_unlock, C_wait, C_idle} then g\<lparr>cerrno := r\<rparr> else g)"

definition chaser :: "(chaser_globals, chaser_local) program" where
  "chaser = \<lparr>request_of = chaser_request,
     returns = (\<lambda>r g l. (chaser_effect r l g, chaser_next g r l))\<rparr>"

subsection \<open>The main function\<close>

definition chaser_tasks :: "u32 \<Rightarrow> u32 \<Rightarrow> u32 \<Rightarrow> u32 \<Rightarrow> task list" where
  "chaser_tasks f1 f2 f3 f4 =
     [\<lparr>lambda = f2, data = 0x32, stack_pos = 0xa2000000, task_C = 1, task_T = dev_freq ! 0\<rparr>,
      \<lparr>lambda = f3, data = 0x33, stack_pos = 0xa1000000, task_C = 1, task_T = dev_freq ! 1\<rparr>,
      \<lparr>lambda = f4, data = 0x34, stack_pos = 0xa1500000, task_C = 1, task_T = dev_freq ! 2\<rparr>,
      \<lparr>lambda = f1, data = 0x31, stack_pos = 0xa2500000, task_C = 1, task_T = dev_freq ! 3\<rparr>]"

definition chaser_entry :: "u32 \<Rightarrow> u32 \<Rightarrow> u32 \<Rightarrow> u32 \<Rightarrow> u32 \<Rightarrow> u32 \<Rightarrow> chaser_local" where
  "chaser_entry f1 f2 f3 f4 f s =
     \<lparr>fn = (if f = f1 then 0 else if f = f2 then 1 else if f = f3 then 2 else 3),
      cpc = (if f \<in> {f1, f2, f3, f4} then C_while else C_panic_loop), cur_mutex = 1, tmp = 0, res = 0, arg = s\<rparr>"

definition chaser_result :: u32 where
  "chaser_result = ((init_val + fun1_opval) * fun2_opval - fun3_opval) * fun4_opval"

text \<open>The loop that creates the mutexes; the console text is the third part of the state.\<close>

definition chaser_create :: "(chaser_globals \<times> kernel \<times> u8 list) \<Rightarrow> (chaser_globals \<times> kernel \<times> u8 list) option" where
  "chaser_create = for_range 0 32 (\<lambda>i (g, k, out). do {
     (r, k) \<leftarrow> mutex_create_syscall k;
     case r of
       Return r \<Rightarrow> do {
         let errno = snd (create_result r (cerrno g));
         let out = (if errno = ENOMEM then out @ puts_text (text_bytes ''failed to create a mutex!!'') else out);
         vals \<leftarrow> aset (mutex_val g) i init_val;
         Some (g\<lparr>cerrno := errno, mutex_val := vals\<rparr>, k, out) }
     | _ \<Rightarrow> None })"

definition chaser_main ::
  "u32 \<Rightarrow> u32 \<Rightarrow> u32 \<Rightarrow> u32 \<Rightarrow> u32 \<Rightarrow> u32 \<Rightarrow> u32 \<Rightarrow> kernel \<Rightarrow> (chaser_globals, chaser_local) app main_result option" where
  "chaser_main f1 f2 f3 f4 launch_task idle tasks k = do {
     (g, k, out) \<leftarrow> chaser_create (\<lparr>mutex_val = replicate 32 0, cerrno = 0, result_val = chaser_result\<rparr>, k,
       puts_text (text_bytes ''TEST STARTING...''));
     let out = out @ puts_text (text_bytes ''Successfully created all the mutexes!!'') @ puts_text YES_STR;
     (r, _, k) \<leftarrow> task_create_syscall launch_task idle tasks (chaser_tasks f1 f2 f3 f4) 4 k;
     started r (launched (chaser_entry f1 f2 f3 f4) g out k) out }"

section \<open>No lost updates\<close>

text \<open>Task \<open>f\<close> has updated the variable of mutex \<open>m\<close>.\<close>

definition updated :: "chaser_local \<Rightarrow> nat \<Rightarrow> bool" where
  "updated l m \<longleftrightarrow> 1 \<le> m \<and> (int m < cur_mutex l \<or> int m = cur_mutex l \<and> cpc l = C_unlock)"

definition chaser_holds :: "chaser_local \<Rightarrow> nat \<Rightarrow> bool" where
  "chaser_holds l m \<longleftrightarrow> cpc l \<in> {C_load, C_store, C_unlock} \<and> cur_mutex l = int m"

definition chaser_running :: "chaser_pc \<Rightarrow> bool" where
  "chaser_running p \<longleftrightarrow> p \<in> {C_put, C_print, C_lock, C_load, C_store, C_unlock}"

definition chaser_failed :: "chaser_pc \<Rightarrow> bool" where
  "chaser_failed p \<longleftrightarrow> p \<in> {C_unlock_failed, C_say_einval, C_test_eperm, C_say_eperm, C_panic_loop} \<or> (\<exists>s. p = C_panic s)"

definition chaser_task_ok :: "nat \<Rightarrow> chaser_local \<Rightarrow> bool" where
  "chaser_task_ok t l \<longleftrightarrow> fn l = t \<and> 1 \<le> cur_mutex l \<and> cur_mutex l \<le> 32 \<and>
     (chaser_running (cpc l) \<longrightarrow> cur_mutex l < 32) \<and> \<not> chaser_failed (cpc l) \<and>
     (cpc l = C_report 0 \<or> cpc l = C_verdict 0 \<longrightarrow> tmp l = init_val \<and> res l = chaser_result)"

text \<open>The value of a variable is that of some order of the tasks that have updated it.\<close>

definition update_order :: "(nat \<Rightarrow> chaser_local) \<Rightarrow> nat \<Rightarrow> nat list \<Rightarrow> bool" where
  "update_order ls m ord \<longleftrightarrow> distinct ord \<and> set ord = {t. t < 4 \<and> updated (ls t) m}"

definition chaser_inv :: "(chaser_globals, chaser_local) thread_spec \<Rightarrow> bool" where
  "chaser_inv a \<longleftrightarrow> {..<32} \<subseteq> made a \<and> length (mutex_val (globals a)) = 32 \<and> result_val (globals a) = chaser_result \<and>
     (\<forall>t<4. chaser_task_ok t (locals a t)) \<and>
     (\<forall>t<4. \<forall>m. own a m = Some t \<longleftrightarrow> chaser_holds (locals a t) m) \<and>
     (\<forall>t<4. cpc (locals a t) = C_store \<longrightarrow> tmp (locals a t) = mutex_val (globals a) ! nat (cur_mutex (locals a t))) \<and>
     (\<forall>m<32. \<exists>ord. update_order (locals a) m ord \<and> mutex_val (globals a) ! m = fold chaser_op ord init_val)"

lemma return_to_chaser:
  "return_to chaser t (Return r) s = s\<lparr>globals := chaser_effect r (locals s t) (globals s),
     locals := (locals s)(t := chaser_next (globals s) r (locals s t))\<rparr>"
  by (simp add: return_to_def chaser_def)

lemma request_chaser [simp]: "request_of chaser = chaser_request"
  by (simp add: chaser_def)

lemma chaser_invD:
  assumes "chaser_inv a"
  shows "m < 32 \<Longrightarrow> m \<in> made a" "length (mutex_val (globals a)) = 32" "result_val (globals a) = chaser_result"
    "t < 4 \<Longrightarrow> chaser_task_ok t (locals a t)" "t < 4 \<Longrightarrow> own a m = Some t \<longleftrightarrow> chaser_holds (locals a t) m"
    "t < 4 \<Longrightarrow> cpc (locals a t) = C_store \<Longrightarrow> tmp (locals a t) = mutex_val (globals a) ! nat (cur_mutex (locals a t))"
    "m < 32 \<Longrightarrow> \<exists>ord. update_order (locals a) m ord \<and> mutex_val (globals a) ! m = fold chaser_op ord init_val"
  using assms unfolding chaser_inv_def by blast+

text \<open>Nobody updates the variable of mutex 0.\<close>

lemma chaser_mutex0:
  assumes "chaser_inv a"
  shows "mutex_val (globals a) ! 0 = init_val"
proof -
  obtain ord where "update_order (locals a) 0 ord" "mutex_val (globals a) ! 0 = fold chaser_op ord init_val"
    using chaser_invD(7) [OF assms, of 0] by auto
  then show ?thesis by (simp add: update_order_def updated_def)
qed

text \<open>A step of task \<open>t\<close> that changes no variable.\<close>

lemma chaser_keep:
  assumes inv: "chaser_inv a" and t: "t < 4"
    and g: "mutex_val (globals a') = mutex_val (globals a)" "result_val (globals a') = result_val (globals a)"
      "made a' = made a" "locals a' = (locals a)(t := l)"
    and ok: "chaser_task_ok t l" "\<And>m. updated l m = updated (locals a t) m"
    and own: "\<And>m u. u < 4 \<Longrightarrow> own a' m = Some u \<longleftrightarrow> (if u = t then chaser_holds l m else own a m = Some u)"
    and store: "cpc l = C_store \<Longrightarrow> tmp l = mutex_val (globals a) ! nat (cur_mutex l)"
  shows "chaser_inv a'"
proof -
  have "update_order (locals a') m = update_order (locals a) m" for m
  proof -
    have "{u. u < 4 \<and> updated (locals a' u) m} = {u. u < 4 \<and> updated (locals a u) m}"
      using g(4) ok(2) by (auto simp: fun_upd_def split: if_splits)
    then show ?thesis by (simp add: update_order_def fun_eq_iff)
  qed
  moreover have "chaser_task_ok u (locals a' u) \<and> (own a' m = Some u \<longleftrightarrow> chaser_holds (locals a' u) m) \<and>
      (cpc (locals a' u) = C_store \<longrightarrow> tmp (locals a' u) = mutex_val (globals a') ! nat (cur_mutex (locals a' u)))"
    if "u < 4" for u m
    using that chaser_invD(4-6) [OF inv, of u] ok own [of u m] store g by (cases "u = t") simp_all
  ultimately show ?thesis using inv g(1-3) unfolding chaser_inv_def by simp
qed

text \<open>The assignment: nobody else updates this variable in between, so it appends to the order.\<close>

lemma chaser_store:
  assumes inv: "chaser_inv a" and t: "t < 4" and pc: "cpc (locals a t) = C_store"
  shows "chaser_inv (return_to chaser t (Return 0) a)"
proof -
  let ?l = "locals a t" and ?a = "return_to chaser t (Return 0) a" and ?v = "mutex_val (globals a)"
  let ?m = "nat (cur_mutex (locals a t))"
  note d = chaser_invD [OF inv]
  have m: "1 \<le> ?m" "?m < 32" "cur_mutex ?l = int ?m"
    using d(4) [OF t] pc by (auto simp: chaser_task_ok_def chaser_running_def)
  have new: "locals ?a = (locals a)(t := ?l\<lparr>cpc := C_unlock\<rparr>)" "own ?a = own a" "made ?a = made a"
      "mutex_val (globals ?a) = ?v[?m := chaser_op t (?v ! ?m)]" "result_val (globals ?a) = result_val (globals a)"
    using pc d(4,6) [OF t] by (simp_all add: return_to_chaser chaser_next_def chaser_effect_def chaser_task_ok_def)
  have upd: "updated (locals ?a u) n \<longleftrightarrow> updated (locals a u) n \<or> u = t \<and> n = ?m" for u n
    using new(1) pc m by (auto simp: updated_def)
  have other: "?m \<noteq> nat (cur_mutex (locals a u))" if "u < 4" "u \<noteq> t" "cpc (locals a u) = C_store" for u
  proof
    assume eq: "?m = nat (cur_mutex (locals a u))"
    have "0 \<le> cur_mutex (locals a u)" using d(4) [OF that(1)] by (simp add: chaser_task_ok_def)
    then have "own a ?m = Some u" using d(5) [OF that(1), of ?m] that(3) eq by (simp add: chaser_holds_def)
    moreover have "own a ?m = Some t" using d(5) [OF t, of ?m] pc m by (simp add: chaser_holds_def)
    ultimately show False using that(2) by simp
  qed
  have "\<exists>ord. update_order (locals ?a) n ord \<and> mutex_val (globals ?a) ! n = fold chaser_op ord init_val" if n: "n < 32" for n
  proof -
    obtain ord where ord: "update_order (locals a) n ord" "?v ! n = fold chaser_op ord init_val" using d(7) [OF n] by blast
    show ?thesis
    proof (cases "n = ?m")
      case True
      have "t \<notin> set ord" using ord(1) pc m True by (auto simp: update_order_def updated_def)
      then have "update_order (locals ?a) n (ord @ [t])" using ord(1) t True by (auto simp: update_order_def upd)
      moreover have "mutex_val (globals ?a) ! n = fold chaser_op (ord @ [t]) init_val"
        using True ord(2) new(4) d(2) m by simp
      ultimately show ?thesis by blast
    next
      case False
      then have "update_order (locals ?a) n ord" using ord(1) by (simp add: update_order_def upd)
      then show ?thesis using ord(2) False new(4) by auto
    qed
  qed
  moreover have "chaser_task_ok u (locals ?a u) \<and> (own ?a n = Some u \<longleftrightarrow> chaser_holds (locals ?a u) n) \<and>
      (cpc (locals ?a u) = C_store \<longrightarrow> tmp (locals ?a u) = mutex_val (globals ?a) ! nat (cur_mutex (locals ?a u)))"
    if u: "u < 4" for u n
  proof (cases "u = t")
    case True
    then show ?thesis
      using new d(4,5) [OF t] pc by (auto simp: chaser_task_ok_def chaser_running_def chaser_failed_def chaser_holds_def)
  next
    case False
    then show ?thesis using new d(4-6) [OF u] other [OF u] by auto
  qed
  ultimately show ?thesis using inv new(3-5) unfolding chaser_inv_def by simp
qed

lemmas chaser_defs = chaser_task_ok_def chaser_running_def chaser_failed_def chaser_holds_def updated_def
  chaser_next_def chaser_effect_def

lemma chaser_dev_le [simp]: "\<not> 62 < chaser_dev f"
  by (simp add: chaser_dev_def)

text \<open>The requests of a task that has not failed.\<close>

lemma chaser_requestD:
  assumes "chaser_task_ok t l"
  shows "chaser_request l = Send bs \<Longrightarrow> cpc l \<in> {C_put, C_print, C_done} \<or> (\<exists>i. cpc l = C_report i \<or> cpc l = C_verdict i)"
    "chaser_request l = Compute \<Longrightarrow> cpc l \<in> {C_while, C_load, C_store} \<or> (\<exists>i. cpc l = C_check i)"
    "chaser_request l = Wait d \<Longrightarrow> cpc l \<in> {C_wait, C_idle} \<and> \<not> d > 62"
    "chaser_request l = Lock i \<Longrightarrow> cpc l = C_lock \<and> cur_mutex l = i"
    "chaser_request l = Unlock i \<Longrightarrow> cpc l = C_unlock \<and> cur_mutex l = i"
    "chaser_request l \<noteq> Now" "chaser_request l \<noteq> Sleep ms" "chaser_request l \<noteq> Create"
  using assms by (auto simp: chaser_request_def chaser_task_ok_def chaser_failed_def split: chaser_pc.splits)

text \<open>Steps without a mutex.\<close>

fun chaser_private :: "chaser_pc \<Rightarrow> bool" where
  "chaser_private C_while = True"
| "chaser_private C_load = True"
| "chaser_private C_put = True"
| "chaser_private C_print = True"
| "chaser_private C_wait = True"
| "chaser_private C_idle = True"
| "chaser_private (C_check _) = True"
| "chaser_private (C_report _) = True"
| "chaser_private (C_verdict _) = True"
| "chaser_private C_done = True"
| "chaser_private _ = False"

lemma chaser_private_next:
  assumes "chaser_private (cpc l)" "chaser_task_ok t l" "cpc l \<in> {C_wait, C_idle} \<Longrightarrow> r = 0"
    and "mutex_val g ! 0 = init_val" "result_val g = chaser_result"
  shows "chaser_task_ok t (chaser_next g r l)" "updated (chaser_next g r l) m = updated l m"
    "chaser_holds (chaser_next g r l) m = chaser_holds l m"
    "cpc (chaser_next g r l) = C_store \<Longrightarrow> tmp (chaser_next g r l) = mutex_val g ! nat (cur_mutex (chaser_next g r l))"
    "mutex_val (chaser_effect r l g) = mutex_val g" "result_val (chaser_effect r l g) = result_val g"
  using assms by (cases "cpc l"; simp add: chaser_defs MUTEX_NUM_def split: if_splits)+

lemma chaser_local:
  assumes inv: "chaser_inv a" and t: "t < 4" and pc: "chaser_private (cpc (locals a t))"
    and r: "cpc (locals a t) \<in> {C_wait, C_idle} \<Longrightarrow> r = 0"
    and b: "globals b = globals a" "locals b = locals a" "made b = made a" "own b = own a"
  shows "chaser_inv (return_to chaser t (Return r) b)"
proof (rule chaser_keep [OF inv t])
  let ?l = "chaser_next (globals a) r (locals a t)"
  note d = chaser_invD [OF inv]
  show "locals (return_to chaser t (Return r) b) = (locals a)(t := ?l)" by (simp add: return_to_chaser b)
  note n = chaser_private_next [OF pc d(4) [OF t] r chaser_mutex0 [OF inv] d(3)]
  show "chaser_task_ok t ?l" "\<And>m. updated ?l m = updated (locals a t) m" using n(1,2) by simp_all
  show "own (return_to chaser t (Return r) b) m = Some u \<longleftrightarrow> (if u = t then chaser_holds ?l m else own a m = Some u)"
    if "u < 4" for m u
    using d(5) [OF t, of m] n(3) [of m] by (simp add: return_to_chaser b)
  show "tmp ?l = mutex_val (globals a) ! nat (cur_mutex ?l)" if "cpc ?l = C_store"
    using n(4) that by simp
qed (use chaser_private_next(5,6) [OF pc chaser_invD(4) [OF inv t] r chaser_mutex0 [OF inv] chaser_invD(3) [OF inv]] in \<open>simp_all add: return_to_chaser b\<close>)

lemma chaser_step:
  assumes inv: "chaser_inv a" and step: "tstep chaser {..<4} a a'"
  shows "chaser_inv a'"
proof -
  note d = chaser_invD [OF inv]
  from step show ?thesis
  proof (cases rule: tstep.cases)
    case (t_send t)
    then have t: "t < 4" by simp
    show ?thesis
      by (rule chaser_keep [OF inv t, where l = "locals a t"])
        (use t_send d(4-6) t in \<open>simp_all add: send_char_def fun_upd_idem\<close>)
  next
    case (t_write t bs)
    then have t: "t < 4" by simp
    have "chaser_private (cpc (locals a t)) \<and> cpc (locals a t) \<notin> {C_wait, C_idle}"
      using chaser_requestD(1) [OF d(4) [OF t]] t_write(4) by auto
    then show ?thesis
      unfolding t_write(1) by (intro chaser_local [OF inv t]) (auto simp: start_send_def)
  next
    case (t_value t r msec dev)
    then have t: "t < 4" by simp
    note q = chaser_requestD [OF d(4) [OF t]]
    have r: "r = 0" using t_value(4) q(3,6,7) by auto
    show ?thesis
    proof (cases "cpc (locals a t) = C_store")
      case True
      then show ?thesis using chaser_store [OF inv t] t_value(1) r by simp
    next
      case False
      then have "chaser_private (cpc (locals a t))" using t_value(4) q(2,3,6,7) by auto
      then show ?thesis unfolding t_value(1) using r by (intro chaser_local [OF inv t]) auto
    qed
  next
    case (t_lock t m)
    then have t: "t < 4" by simp
    have pc: "cpc (locals a t) = C_lock" "cur_mutex (locals a t) = int m"
      using chaser_requestD(4) [OF d(4) [OF t]] t_lock(4) by auto
    show ?thesis
      unfolding t_lock(1)
    proof (rule chaser_keep [OF inv t])
      let ?l = "(locals a t)\<lparr>cpc := C_load\<rparr>"
      show "locals (return_to chaser t (Return 0) (a\<lparr>own := (own a)(m \<mapsto> t)\<rparr>)) = (locals a)(t := ?l)"
        using pc by (simp add: return_to_chaser chaser_next_def)
      show "chaser_task_ok t ?l" using d(4) [OF t] pc by (auto simp: chaser_defs)
      show "own (return_to chaser t (Return 0) (a\<lparr>own := (own a)(m \<mapsto> t)\<rparr>)) n = Some u \<longleftrightarrow>
          (if u = t then chaser_holds ?l n else own a n = Some u)" if "u < 4" for n u
        using d(5) [OF t, of n] pc t_lock(6) by (auto simp: return_to_chaser chaser_defs)
    qed (use pc in \<open>simp_all add: return_to_chaser chaser_defs\<close>)
  next
    case (t_unlock t m)
    then have t: "t < 4" by simp
    have pc: "cpc (locals a t) = C_unlock" "cur_mutex (locals a t) = int m"
      using chaser_requestD(5) [OF d(4) [OF t]] t_unlock(4) by auto
    show ?thesis
      unfolding t_unlock(1)
    proof (rule chaser_keep [OF inv t])
      let ?l = "(locals a t)\<lparr>cpc := C_wait, cur_mutex := cur_mutex (locals a t) + 1\<rparr>"
      show "locals (return_to chaser t (Return 0) (a\<lparr>own := (own a)(m := None)\<rparr>)) = (locals a)(t := ?l)"
        using pc by (simp add: return_to_chaser chaser_next_def)
      show "chaser_task_ok t ?l" using d(4) [OF t] pc by (auto simp: chaser_defs)
      show "updated ?l n = updated (locals a t) n" for n using pc by (auto simp: chaser_defs)
      show "own (return_to chaser t (Return 0) (a\<lparr>own := (own a)(m := None)\<rparr>)) n = Some u \<longleftrightarrow>
          (if u = t then chaser_holds ?l n else own a n = Some u)" if "u < 4" for n u
        using d(5) [OF t, of n] pc t_unlock(5) by (auto simp: return_to_chaser chaser_defs)
    qed (use pc in \<open>simp_all add: return_to_chaser chaser_defs\<close>)
  next
    case (t_refused t m r)
    then have t: "t < 4" by simp
    note q = chaser_requestD [OF d(4) [OF t]]
    have pc: "cpc (locals a t) = C_lock \<or> cpc (locals a t) = C_unlock" "cur_mutex (locals a t) = int m"
      using t_refused(4) q(4,5) by auto
    then have "m \<in> made a" using d(4) [OF t] d(1) by (auto simp: chaser_defs)
    then show ?thesis using t_refused(4) q(4,5) d(5) [OF t, of m] pc by (auto simp: chaser_holds_def)
  next
    case (t_create t m)
    then show ?thesis using chaser_requestD(8) [OF d(4), of t] by auto
  next
    case (t_create_fails t)
    then show ?thesis using chaser_requestD(8) [OF d(4), of t] by auto
  qed
qed

lemma chaser_reach: "treach chaser {..<4} a0 a \<Longrightarrow> chaser_inv a0 \<Longrightarrow> chaser_inv a"
  by (induction rule: treach.induct) (simp_all add: chaser_step)

lemma chaser_requests_ok:
  assumes "chaser_inv a"
  shows "\<forall>t\<in>{..<4}. request_ok (request_of chaser (locals a t))"
proof
  fix t :: nat
  assume "t \<in> {..<4}"
  then have ok: "chaser_task_ok t (locals a t)" using chaser_invD(4) [OF assms] by simp
  then have cur: "0 \<le> cur_mutex (locals a t)" by (simp add: chaser_task_ok_def)
  show "request_ok (request_of chaser (locals a t))"
  proof (cases "chaser_request (locals a t)")
    case (Lock i)
    then show ?thesis using chaser_requestD(4) [OF ok Lock] cur by (simp add: request_ok_def)
  next
    case (Unlock i)
    then show ?thesis using chaser_requestD(5) [OF ok Unlock] cur by (simp add: request_ok_def)
  qed (simp_all add: request_ok_def)
qed

section \<open>The start\<close>

text \<open>The loop of \<open>main\<close> creates all 32 mutexes and reports no failure.\<close>

lemma chaser_create_ok:
  assumes k: "booted k" and g: "length (mutex_val g) = 32" "cerrno g = 0"
  shows "\<exists>k'. chaser_create (g, k, out) = Some (g\<lparr>mutex_val := replicate 32 init_val\<rparr>, k', out) \<and>
    quiet k' \<and> owner (abs_state k') = (\<lambda>_. None) \<and> (\<forall>m<32. created (abs_state k') m)"
proof -
  let ?P = "\<lambda>i (g', k', out'). g' = g\<lparr>mutex_val := replicate i init_val @ drop i (mutex_val g)\<rparr> \<and> out' = out \<and>
    quiet k' \<and> owner (abs_state k') = (\<lambda>_. None) \<and> (\<forall>m<32. created (abs_state k') m \<longleftrightarrow> m < i)"
  have "\<exists>s. chaser_create (g, k, out) = Some s \<and> ?P 32 s"
    unfolding chaser_create_def
  proof (rule for_range_inv [where P = ?P])
    show "?P 0 (g, k, out)" using k by (auto simp: booted_def)
  next
    fix i and s :: "chaser_globals \<times> kernel \<times> u8 list"
    assume i: "i < 32" and P: "?P i s"
    obtain g' k' out' where s: "s = (g', k', out')" by (cases s)
    have q: "quiet k'" "\<forall>m<32. created (abs_state k') m \<longleftrightarrow> m < i" using P s by simp_all
    obtain k1 where k1: "mutex_create_syscall k' = Some (Return (of_nat i), k1)" "quiet k1"
        "abs_state k1 = (abs_state k')\<lparr>created := (created (abs_state k'))(i := True)\<rparr>"
      using mutex_create_quiet [OF q(1)] spec_create_next [OF q(2) i] by auto
    have "sint (of_nat i :: u32) = int i" using sint_small [of "int i"] i by simp
    then have "\<not> of_nat i <s (0 :: u32)" by (simp add: word_sless_alt)
    then have r: "create_result (of_nat i) 0 = (of_nat i, 0)" by (simp add: create_result_def)
    have "(replicate i init_val @ drop i (mutex_val g))[i := init_val] = replicate (Suc i) init_val @ drop (Suc i) (mutex_val g)"
      using i g(1) by (simp add: list_update_append Cons_nth_drop_Suc [symmetric] replicate_append_same)
    then show "\<exists>s'. (case s of (g, k, out) \<Rightarrow> do {
        (r, k) \<leftarrow> mutex_create_syscall k;
        case r of
          Return r \<Rightarrow> do {
            let errno = snd (create_result r (cerrno g));
            let out = (if errno = ENOMEM then out @ puts_text (text_bytes ''failed to create a mutex!!'') else out);
            vals \<leftarrow> aset (mutex_val g) i init_val;
            Some (g\<lparr>cerrno := errno, mutex_val := vals\<rparr>, k, out) }
        | _ \<Rightarrow> None }) = Some s' \<and> ?P (Suc i) s'"
      using P s k1 r i g by (auto simp: less_Suc_eq)
  qed simp
  then show ?thesis using g by auto
qed

lemma chaser_starts:
  assumes k: "booted k" and fs: "functions_ok [f1, f2, f3, f4]" and addr: "\<not> bad_user_addr tasks"
  shows "\<exists>s. chaser_main f1 f2 f3 f4 launch_task idle tasks k = Some (Running s) \<and>
    app_inv chaser {..<4} s \<and> chaser_inv (spec_of s)"
proof -
  let ?ts = "chaser_tasks f1 f2 f3 f4" and ?e = "chaser_entry f1 f2 f3 f4"
  let ?z = "\<lparr>mutex_val = replicate 32 0, cerrno = 0, result_val = chaser_result\<rparr>"
  let ?g = "\<lparr>mutex_val = replicate 32 init_val, cerrno = 0, result_val = chaser_result\<rparr>"
  let ?out = "puts_text (text_bytes ''TEST STARTING...'')"
  let ?txt = "?out @ puts_text (text_bytes ''Successfully created all the mutexes!!'') @ puts_text YES_STR"
  obtain k1 where k1: "chaser_create (?z, k, ?out) = Some (?g, k1, ?out)" "quiet k1"
      "owner (abs_state k1) = (\<lambda>_. None)" "\<forall>m<32. created (abs_state k1) m"
    using chaser_create_ok [OF k, of ?z ?out] by auto
  have ts: "device_tasks ?ts" using fs by (simp add: device_tasks_def chaser_tasks_def functions_ok_def bad_user_addr_def dev_freq_def)
  obtain k2 s where k2: "task_create_syscall launch_task idle tasks ?ts 4 k1 = Some (Switched, map ((!) ?ts) [3, 0, 1, 2], k2)"
      "s = launched ?e ?g ?txt k2" "app_inv chaser {..<4} s" "own (spec_of s) = (\<lambda>_. None)"
      "made (spec_of s) = {m. created (abs_state k1) m}"
      "locals s 0 = ?e (lambda (?ts ! 3)) (data (?ts ! 3))" "locals s 1 = ?e (lambda (?ts ! 0)) (data (?ts ! 0))"
      "locals s 2 = ?e (lambda (?ts ! 1)) (data (?ts ! 1))" "locals s 3 = ?e (lambda (?ts ! 2)) (data (?ts ! 2))"
    using device_tasks_start [OF k1(2,3) ts addr, of launch_task idle ?e ?g ?txt chaser] by (elim exE conjE) (rule that)
  have main: "chaser_main f1 f2 f3 f4 launch_task idle tasks k = Some (Running s)"
    unfolding chaser_main_def k1(1) k2(2) by (simp add: k2(1) del: list.map)
  have ne: "f2 \<noteq> f1" "f3 \<noteq> f1" "f3 \<noteq> f2" "f4 \<noteq> f1" "f4 \<noteq> f2" "f4 \<noteq> f3"
    using fs by (auto simp: functions_ok_def)
  have loc: "fn (locals s t) = t \<and> cpc (locals s t) = C_while \<and> cur_mutex (locals s t) = 1" if t: "t < 4" for t
  proof -
    consider "t = 0" | "t = 1" | "t = 2" | "t = 3" using t [unfolded four_tasks] by blast
    then show ?thesis using k2(6-9) ne by cases (simp_all add: chaser_tasks_def chaser_entry_def)
  qed
  have "update_order (locals s) m []" for m using loc by (auto simp: update_order_def updated_def)
  moreover have "globals s = ?g" using k2(2) by simp
  ultimately have "\<forall>m<32. \<exists>ord. update_order (locals s) m ord \<and> mutex_val (globals s) ! m = fold chaser_op ord init_val"
    by (intro allI impI exI [of _ "[]"]) simp
  moreover have "chaser_task_ok t (locals s t)" "\<not> chaser_holds (locals s t) m" "cpc (locals s t) \<noteq> C_store" if "t < 4" for t m
    using loc [OF that] by (simp_all add: chaser_defs)
  moreover have "{..<32} \<subseteq> made (spec_of s)" using k2(5) k1(4) by auto
  ultimately have "chaser_inv (spec_of s)" using k2(2,4) by (auto simp: chaser_inv_def)
  with main k2(3) show ?thesis by blast
qed

text \<open>What an application in a reachable state means for the properties.\<close>

lemma chaser_runs:
  assumes "booted k" "functions_ok [f1, f2, f3, f4]" "\<not> bad_user_addr tasks"
    and "chaser_main f1 f2 f3 f4 launch_task idle tasks k = Some (Running s0)" "areach chaser s0 s"
  shows "chaser_inv (spec_of s)"
proof -
  have s0: "app_inv chaser {..<4} s0" "chaser_inv (spec_of s0)" 
    using chaser_starts [OF assms(1-3), of launch_task idle] assms(4) by auto
  then have "treach chaser {..<4} (spec_of s0) (spec_of s)"
    using areach_simulated [OF s0(1) _ assms(5)] chaser_reach chaser_requests_ok by blast
  then show ?thesis using chaser_reach s0(2) by blast
qed

text \<open>Only one order of the four operations gives the expected result.\<close>

lemma chaser_orders:
  "list_all (\<lambda>a. list_all (\<lambda>b. a \<noteq> b \<longrightarrow> list_all (\<lambda>c. c \<noteq> a \<longrightarrow> c \<noteq> b \<longrightarrow>
     list_all (\<lambda>d. d \<noteq> a \<longrightarrow> d \<noteq> b \<longrightarrow> d \<noteq> c \<longrightarrow>
       (fold chaser_op [a, b, c, d] init_val = chaser_result) = ([a, b, c, d] = [0, 1, 2, 3]))
     [0, 1, 2, 3]) [0, 1, 2, 3]) [0, 1, 2, 3]) [0, 1, 2, 3]"
  by code_simp

lemma chaser_result_order:
  assumes "distinct ord" "set ord = {0, 1, 2, 3}"
  shows "fold chaser_op ord init_val = chaser_result \<longleftrightarrow> ord = [0, 1, 2, 3]"
proof -
  have "length ord = 4" using distinct_card [OF assms(1)] assms(2) by simp
  then obtain a b c d where ord: "ord = [a, b, c, d]" by (auto simp: length_Suc_conv eval_nat_numeral)
  have "x \<in> set [0, 1, 2, 3]" if "x \<in> set ord" for x using that assms(2) by simp
  then have mem: "a \<in> set [0, 1, 2, 3]" "b \<in> set [0, 1, 2, 3]" "c \<in> set [0, 1, 2, 3]" "d \<in> set [0, 1, 2, 3]"
    by (simp_all only: ord list.set insert_iff simp_thms)
  have ne: "a \<noteq> b" "c \<noteq> a" "c \<noteq> b" "d \<noteq> a" "d \<noteq> b" "d \<noteq> c" using assms(1) ord by auto
  show ?thesis
    unfolding ord by (rule chaser_orders [unfolded list_all_iff, rule_format, OF mem(1,2) ne(1) mem(3) ne(2,3) mem(4) ne(4-6)])
qed

end
