(* ===== verification/Sys_Err.thy ===== *)
theory Sys_Err
  imports Launch Format
begin

text \<open>
  tasks/sys_err/sys_err.c: a task that provokes the errors of the system calls and compares \<open>errno\<close>
  with what it expects. Whatever the timer interrupts do, every check succeeds, so that the console
  shows a prefix of the transcript of a successful test.
\<close>

section \<open>The program\<close>

text \<open>The checks have the numbers of their messages; \<open>S_create\<close> counts the calls of \<open>mutex_create\<close>.\<close>

datatype sys_pc = S_create nat | S_call nat | S_check nat | S_report nat u32 | S_end | S_spin

record sys_local =
  spc :: sys_pc
  ret2 :: u32

definition MAX_MUTEX :: nat where "MAX_MUTEX = 32"

definition sys_expected :: "nat \<Rightarrow> u32" where
  "sys_expected n = (if n = 1 then EINVAL else if n = 2 then EFAULT else if n = 3 then ENOMEM else if n = 4 then EINVAL
     else if n = 5 then EPERM else if n = 6 then EINVAL else if n = 7 then 0 else if n = 8 then EDEADLOCK
     else if n = 9 then 0 else EINVAL)"

definition sys_message :: "nat \<Rightarrow> string" where
  "sys_message n = (if n = 1 then ''1. Test create return EINVAL'' else if n = 2 then ''2. Test create return EFAULT''
     else if n = 3 then ''3. Mutex Create returns ENOMEM'' else if n = 4 then ''4. Mutex Unlock return EINVAL''
     else if n = 5 then ''5. Mutex Unlock return EPERM'' else if n = 6 then ''6. Mutex Lock return EINVAL''
     else if n = 7 then ''7. Mutex Lock return success'' else if n = 8 then ''8. Mutex Lock return EDEADLOCK''
     else if n = 9 then ''9. Mutex Unlock return success'' else ''10. Event Wait return EINVAL'')"

definition report_suc :: "string \<Rightarrow> u8 list" where
  "report_suc s = text_bytes s @ [10] @ text_bytes ''        SUCCESS ****************'' @ [10, 10]"

definition report_fail :: "string \<Rightarrow> u8 list" where
  "report_fail s = text_bytes s @ [10] @ text_bytes ''        FAIL xxxxxxxxxxxxxxxxxx'' @ [10, 10]"

definition check_return :: "u32 \<Rightarrow> u32 \<Rightarrow> string \<Rightarrow> u8 list" where
  "check_return r expected s = (if r = expected then report_suc s
     else text_bytes ''expect '' @ decimal (sint expected) @ text_bytes '', get '' @ decimal (sint r) @ [10] @ report_fail s)"

definition sys_call :: "nat \<Rightarrow> request" where
  "sys_call n = (if n = 4 then Unlock 165 else if n = 5 then Unlock 23 else if n = 6 then Lock 124
     else if n = 7 then Lock 4 else if n = 8 then Lock 4 else if n = 9 then Unlock 4 else Wait 10000)"

text \<open>The checks 7 and 9 look at the value that the call returned, the others at \<open>errno\<close>.\<close>

definition checks_ret2 :: "nat \<Rightarrow> bool" where
  "checks_ret2 n \<longleftrightarrow> n = 7 \<or> n = 9"

definition sys_end_text :: "u8 list" where
  "sys_end_text = text_bytes ''TEST END!'' @ [10, 10]"

definition sys_request :: "sys_local \<Rightarrow> request" where
  "sys_request l = (case spc l of
     S_create i \<Rightarrow> Create
   | S_call n \<Rightarrow> sys_call n
   | S_check n \<Rightarrow> Compute
   | S_report n r \<Rightarrow> Send (check_return r (sys_expected n) (sys_message n))
   | S_end \<Rightarrow> Send sys_end_text
   | S_spin \<Rightarrow> Compute)"

definition sys_next :: "u32 \<Rightarrow> u32 \<Rightarrow> sys_local \<Rightarrow> sys_local" where
  "sys_next errno r l = (case spc l of
     S_create i \<Rightarrow> l\<lparr>spc := (if i < MAX_MUTEX then S_create (i + 1) else S_check 3), ret2 := fst (create_result r errno)\<rparr>
   | S_call n \<Rightarrow> l\<lparr>spc := S_check n, ret2 := r\<rparr>
   | S_check n \<Rightarrow> l\<lparr>spc := S_report n (if checks_ret2 n then ret2 l else errno)\<rparr>
   | S_report n r \<Rightarrow> l\<lparr>spc := (if n < 10 then S_call (n + 1) else S_end)\<rparr>
   | S_end \<Rightarrow> l\<lparr>spc := S_spin\<rparr>
   | S_spin \<Rightarrow> l)"

definition sys_errno :: "u32 \<Rightarrow> sys_local \<Rightarrow> u32 \<Rightarrow> u32" where
  "sys_errno r l errno = (case spc l of S_create i \<Rightarrow> snd (create_result r errno) | S_call n \<Rightarrow> r | _ \<Rightarrow> errno)"

text \<open>The global variable is \<open>errno\<close>.\<close>

definition sys_err :: "(u32, sys_local) program" where
  "sys_err = \<lparr>request_of = sys_request, returns = (\<lambda>r g l. (sys_errno r l g, sys_next g r l))\<rparr>"

text \<open>
  \<open>main\<close> up to the call of \<open>task_create\<close> that does not return; \<open>wild\<close> is what memory holds at the
  address \<open>0xdeadbeef\<close>, \<open>fun1\<close> and \<open>tasks\<close> are link addresses.
\<close>

definition sys_tasks :: "u32 \<Rightarrow> task list" where
  "sys_tasks fun1 = [\<lparr>lambda = fun1, data = 0x40, stack_pos = 0xa2000000, task_C = 1, task_T = dev_freq ! 0\<rparr>]"

definition sys_entry :: "u32 \<Rightarrow> u32 \<Rightarrow> u32 \<Rightarrow> sys_local" where
  "sys_entry fun1 f s = \<lparr>spc = (if f = fun1 then S_create 0 else S_spin), ret2 = 0\<rparr>"

definition sys_main :: "u32 \<Rightarrow> task list \<Rightarrow> u32 \<Rightarrow> u32 \<Rightarrow> u32 \<Rightarrow> kernel \<Rightarrow> (u32, sys_local) app main_result option" where
  "sys_main fun1 wild launch_task idle tasks k = do {
     let out = text_bytes ''TEST BEGIN!'' @ [10, 10];
     (r1, _, k) \<leftarrow> task_create_syscall launch_task idle tasks (sys_tasks fun1) 65 k;
     case r1 of Return errno1 \<Rightarrow> do {
       let out = out @ check_return errno1 EINVAL (sys_message 1);
       (r2, _, k) \<leftarrow> task_create_syscall launch_task idle 0xdeadbeef wild 30 k;
       case r2 of Return errno2 \<Rightarrow> do {
         let out = out @ check_return errno2 EFAULT (sys_message 2);
         (r3, _, k) \<leftarrow> task_create_syscall launch_task idle tasks (sys_tasks fun1) 1 k;
         started r3 (launched (sys_entry fun1) errno2 out k) (out @ text_bytes ''TEST END!'' @ [10, 10]) }
       | _ \<Rightarrow> None }
     | _ \<Rightarrow> None }"

section \<open>Every check succeeds\<close>

text \<open>The transcript of a successful test up to (without) check \<open>n\<close>, and of the whole test.\<close>

definition sys_transcript :: "nat \<Rightarrow> u8 list" where
  "sys_transcript n = text_bytes ''TEST BEGIN!'' @ [10, 10] @ concat (map (\<lambda>i. report_suc (sys_message i)) [1..<n])"

definition sys_passed :: "u8 list" where
  "sys_passed = sys_transcript 11 @ sys_end_text"

fun sys_place :: "sys_pc \<Rightarrow> u32 \<Rightarrow> u32 \<Rightarrow> bool" where
  "sys_place (S_create i) r errno \<longleftrightarrow> i \<le> 32"
| "sys_place (S_call n) r errno \<longleftrightarrow> n \<in> {4..10}"
| "sys_place (S_check n) r errno \<longleftrightarrow> n \<in> {3..10} \<and> (if checks_ret2 n then r else errno) = sys_expected n"
| "sys_place (S_report n x) r errno \<longleftrightarrow> n \<in> {3..10} \<and> x = sys_expected n"
| "sys_place S_end r errno \<longleftrightarrow> True"
| "sys_place S_spin r errno \<longleftrightarrow> True"

fun sys_own :: "sys_pc \<Rightarrow> nat \<Rightarrow> nat option" where
  "sys_own (S_call n) = (if n \<in> {8, 9} then [4 \<mapsto> 0] else (\<lambda>_. None))"
| "sys_own (S_check n) = (if n \<in> {7, 8} then [4 \<mapsto> 0] else (\<lambda>_. None))"
| "sys_own (S_report n x) = (if n \<in> {7, 8} then [4 \<mapsto> 0] else (\<lambda>_. None))"
| "sys_own _ = (\<lambda>_. None)"

fun sys_made :: "sys_pc \<Rightarrow> nat" where
  "sys_made (S_create i) = i"
| "sys_made _ = 32"

fun sys_shown :: "sys_pc \<Rightarrow> u8 list" where
  "sys_shown (S_create i) = sys_transcript 3"
| "sys_shown (S_call n) = sys_transcript n"
| "sys_shown (S_check n) = sys_transcript n"
| "sys_shown (S_report n x) = sys_transcript n"
| "sys_shown S_end = sys_transcript 11"
| "sys_shown S_spin = sys_passed"

definition sys_inv :: "(u32, sys_local) thread_spec \<Rightarrow> bool" where
  "sys_inv a \<longleftrightarrow> sys_place (spc (locals a 0)) (ret2 (locals a 0)) (globals a) \<and>
     own a = sys_own (spc (locals a 0)) \<and> made a = {..<sys_made (spc (locals a 0))} \<and>
     console a @ pending a 0 = sys_shown (spc (locals a 0))"

lemma next_mutex_upto: "next_mutex {..<n} = (if n < 32 then Some n else None)"
proof (cases "n < 32")
  case True
  then have "[0..<32] = [0..<n] @ n # [Suc n..<32]" by (metis less_imp_add_positive upt_add_eq_append upt_conv_Cons zero_le less_imp_le_nat le_add_diff_inverse)
  moreover have "filter (\<lambda>m. m \<notin> {..<n}) [0..<n] = []" by (simp add: filter_empty_conv)
  ultimately show ?thesis using True by (simp add: next_mutex_def)
next
  case False
  then have "filter (\<lambda>m. m \<notin> {..<n}) [0..<32] = []" by (simp add: filter_empty_conv)
  then show ?thesis using False by (simp add: next_mutex_def)
qed

lemma return_to_sys:
  "return_to sys_err t (Return r) s = s\<lparr>globals := sys_errno r (locals s t) (globals s),
     locals := (locals s)(t := sys_next (globals s) r (locals s t))\<rparr>"
  by (simp add: return_to_def sys_err_def)

lemma sys_call_form [simp]:
  "sys_call n \<noteq> Send bs" "sys_call n \<noteq> Compute" "sys_call n \<noteq> Create" "sys_call n \<noteq> Now" "sys_call n \<noteq> Sleep ms"
  by (simp_all add: sys_call_def)

lemma sys_requestD:
  "sys_request l = Send bs \<Longrightarrow> (\<exists>n r. spc l = S_report n r \<and> bs = check_return r (sys_expected n) (sys_message n)) \<or>
     spc l = S_end \<and> bs = sys_end_text"
  "sys_request l = Compute \<Longrightarrow> (\<exists>n. spc l = S_check n) \<or> spc l = S_spin"
  "sys_request l = Create \<Longrightarrow> \<exists>i. spc l = S_create i"
  "sys_request l = Lock i \<Longrightarrow> \<exists>n. spc l = S_call n \<and> sys_call n = Lock i"
  "sys_request l = Unlock i \<Longrightarrow> \<exists>n. spc l = S_call n \<and> sys_call n = Unlock i"
  "sys_request l = Wait d \<Longrightarrow> \<exists>n. spc l = S_call n \<and> sys_call n = Wait d"
  "sys_request l \<noteq> Now" "sys_request l \<noteq> Sleep ms"
  by (auto simp: sys_request_def split: sys_pc.splits)

lemma sys_transcript_Suc: "1 \<le> n \<Longrightarrow> sys_transcript (Suc n) = sys_transcript n @ report_suc (sys_message n)"
  by (simp add: sys_transcript_def)

lemma sys_call_lock: "sys_call n = Lock (int m) \<Longrightarrow> n = 6 \<and> m = 124 \<or> n = 7 \<and> m = 4 \<or> n = 8 \<and> m = 4"
proof -
  assume "sys_call n = Lock (int m)"
  moreover have "sys_call n = Lock i \<Longrightarrow> n = 6 \<and> i = 124 \<or> n = 7 \<and> i = 4 \<or> n = 8 \<and> i = 4" for i
    by (auto simp: sys_call_def split: if_splits)
  ultimately have "n = 6 \<and> int m = 124 \<or> n = 7 \<and> int m = 4 \<or> n = 8 \<and> int m = 4" by blast
  then show ?thesis by presburger
qed

lemma sys_call_unlock: "sys_call n = Unlock (int m) \<Longrightarrow> n = 4 \<and> m = 165 \<or> n = 5 \<and> m = 23 \<or> n = 9 \<and> m = 4"
proof -
  assume "sys_call n = Unlock (int m)"
  moreover have "sys_call n = Unlock i \<Longrightarrow> n = 4 \<and> i = 165 \<or> n = 5 \<and> i = 23 \<or> n = 9 \<and> i = 4" for i
    by (auto simp: sys_call_def split: if_splits)
  ultimately have "n = 4 \<and> int m = 165 \<or> n = 5 \<and> int m = 23 \<or> n = 9 \<and> int m = 4" by blast
  then show ?thesis by presburger
qed

lemma sys_call_wait: "sys_call n = Wait d \<Longrightarrow> n \<in> {4..10} \<Longrightarrow> n = 10 \<and> d = 10000"
  by (auto simp: sys_call_def split: if_splits)

text \<open>The calls return what the checks expect.\<close>

lemma sys_calls:
  assumes "n \<in> {4..10}" "ow = sys_own (S_call n)" "md = {..<32}"
  shows "sys_call n = Lock (int m) \<Longrightarrow> m \<in> md \<Longrightarrow> ow m = None \<Longrightarrow>
      sys_expected n = 0 \<and> ow(m \<mapsto> 0) = sys_own (S_check n) \<and> n = 7"
    "sys_call n = Unlock (int m) \<Longrightarrow> ow m = Some 0 \<Longrightarrow>
      sys_expected n = 0 \<and> ow(m := None) = sys_own (S_check n) \<and> n = 9"
    "sys_call n = Lock (int m) \<Longrightarrow> m \<notin> md \<and> r = EINVAL \<or> ow m = Some 0 \<and> r = EDEADLOCK \<Longrightarrow>
      sys_expected n = r \<and> ow = sys_own (S_check n) \<and> \<not> checks_ret2 n"
    "sys_call n = Unlock (int m) \<Longrightarrow> m \<notin> md \<and> r = EINVAL \<or> m \<in> md \<and> ow m \<noteq> Some 0 \<and> r = EPERM \<Longrightarrow>
      sys_expected n = r \<and> ow = sys_own (S_check n) \<and> \<not> checks_ret2 n"
    "sys_call n = Wait d \<Longrightarrow> d > 62 \<and> sys_expected n = EINVAL \<and> ow = sys_own (S_check n) \<and> n = 10"
  using sys_call_lock [of n m] sys_call_unlock [of n m] sys_call_wait [OF _ assms(1), of d] assms(2,3)
  by (auto simp: sys_expected_def checks_ret2_def)

text \<open>A call of check \<open>n\<close> that returns \<open>r\<close>.\<close>

lemma sys_return:
  assumes inv: "sys_inv a" and pc: "spc (locals a 0) = S_call n"
    and r: "sys_expected n = r" and own: "own b = sys_own (S_check n)"
    and b: "globals b = globals a" "locals b = locals a" "made b = made a" "pending b = pending a" "console b = console a"
  shows "sys_inv (return_to sys_err 0 (Return r) b)"
  using assms by (auto simp: sys_inv_def return_to_sys sys_next_def sys_errno_def)

lemma sys_step:
  assumes inv: "sys_inv a" and step: "tstep sys_err {..<1} a a'"
  shows "sys_inv a'"
proof -
  have i: "sys_place (spc (locals a 0)) (ret2 (locals a 0)) (globals a)" "own a = sys_own (spc (locals a 0))"
      "made a = {..<sys_made (spc (locals a 0))}" "console a @ pending a 0 = sys_shown (spc (locals a 0))"
    using inv by (simp_all add: sys_inv_def)
  have req: "request_of sys_err (locals a t) = sys_request (locals a t)" for t by (simp add: sys_err_def)
  from step show ?thesis
  proof (cases rule: tstep.cases)
    case (t_send t)
    then show ?thesis using inv by (simp add: sys_inv_def send_char_def)
  next
    case (t_write t bs)
    then have t: "t = 0" "pending a 0 = []" "sys_request (locals a 0) = Send bs" by (simp_all add: req)
    from sys_requestD(1) [OF t(3)] show ?thesis
    proof (elim disjE exE conjE)
      fix n r
      assume pc: "spc (locals a 0) = S_report n r" and bs: "bs = check_return r (sys_expected n) (sys_message n)"
      then have n: "3 \<le> n" "n \<le> 10" "r = sys_expected n" using i(1) by simp_all
      have "sys_transcript (Suc n) = sys_transcript n @ bs" using n bs by (simp add: sys_transcript_Suc check_return_def)
      moreover have "sys_shown (if n < 10 then S_call (n + 1) else S_end) = sys_transcript (Suc n)" using n by simp
      moreover have "sys_own (if n < 10 then S_call (n + 1) else S_end) = sys_own (S_report n r)" using n by auto
      ultimately show ?thesis
        using t pc n i unfolding t_write(1)
        by (auto simp: sys_inv_def return_to_sys sys_next_def sys_errno_def start_send_def)
    next
      assume "spc (locals a 0) = S_end" "bs = sys_end_text"
      then show ?thesis
        using t i unfolding t_write(1)
        by (simp add: sys_inv_def return_to_sys sys_next_def sys_errno_def start_send_def sys_passed_def)
    qed
  next
    case (t_value t r msec d)
    then have t: "t = 0" "sys_request (locals a 0) = Compute \<or> sys_request (locals a 0) = Wait d \<and> r = (if d > 62 then EINVAL else 0)"
      using sys_requestD(7,8) by (auto simp: req)
    from t(2) show ?thesis
    proof (elim disjE conjE)
      assume "sys_request (locals a 0) = Compute"
      from sys_requestD(2) [OF this] show ?thesis
        using i unfolding t_value(1) t(1)
        by (elim disjE exE) (auto simp: sys_inv_def return_to_sys sys_next_def sys_errno_def)
    next
      assume wait: "sys_request (locals a 0) = Wait d" and r: "r = (if d > 62 then EINVAL else 0)"
      obtain n where pc: "spc (locals a 0) = S_call n" "sys_call n = Wait d" using sys_requestD(6) [OF wait] by blast
      have "d > 62 \<and> sys_expected n = EINVAL \<and> own a = sys_own (S_check n) \<and> n = 10"
        by (rule sys_calls(5)) (use i pc in simp_all)
      then show ?thesis unfolding t_value(1) t(1) using r pc by (intro sys_return [OF inv pc(1)]) auto
    qed
  next
    case (t_lock t m)
    then have t: "t = 0" "sys_request (locals a 0) = Lock (int m)" by (simp_all add: req)
    obtain n where pc: "spc (locals a 0) = S_call n" "sys_call n = Lock (int m)" using sys_requestD(4) [OF t(2)] by blast
    have "sys_expected n = 0 \<and> (own a)(m \<mapsto> 0) = sys_own (S_check n) \<and> n = 7"
      by (rule sys_calls(1) [where md = "made a"]) (use i pc t_lock in simp_all)
    then show ?thesis unfolding t_lock(1) t(1) by (intro sys_return [OF inv pc(1)]) auto
  next
    case (t_unlock t m)
    then have t: "t = 0" "sys_request (locals a 0) = Unlock (int m)" by (simp_all add: req)
    obtain n where pc: "spc (locals a 0) = S_call n" "sys_call n = Unlock (int m)" using sys_requestD(5) [OF t(2)] by blast
    have "sys_expected n = 0 \<and> (own a)(m := None) = sys_own (S_check n) \<and> n = 9"
      by (rule sys_calls(2) [where md = "made a"]) (use i pc t t_unlock in simp_all)
    then show ?thesis unfolding t_unlock(1) t(1) by (intro sys_return [OF inv pc(1)]) auto
  next
    case (t_refused t m r)
    then have t: "t = 0" by simp
    from t_refused(4) obtain n where pc: "spc (locals a 0) = S_call n" and
      "sys_call n = Lock (int m) \<and> (m \<notin> made a \<and> r = EINVAL \<or> own a m = Some 0 \<and> r = EDEADLOCK) \<or>
       sys_call n = Unlock (int m) \<and> (m \<notin> made a \<and> r = EINVAL \<or> m \<in> made a \<and> own a m \<noteq> Some 0 \<and> r = EPERM)"
      unfolding req t using sys_requestD(4,5) [of "locals a 0"] by blast
    then have "sys_expected n = r \<and> own a = sys_own (S_check n) \<and> \<not> checks_ret2 n"
      using sys_calls(3,4) [of n "own a" "made a" m r] i pc by fastforce
    then show ?thesis unfolding t_refused(1) t by (intro sys_return [OF inv pc]) simp_all
  next
    case (t_create t m)
    then have t: "t = 0" "sys_request (locals a 0) = Create" by (simp_all add: req)
    obtain c where pc: "spc (locals a 0) = S_create c" using sys_requestD(3) [OF t(2)] by blast
    have c: "m = c" "c < 32" using t_create(5) i(3) pc by (simp_all add: next_mutex_upto split: if_splits)
    have "sys_next g r (locals a 0) = (locals a 0)\<lparr>spc := S_create (Suc c), ret2 := fst (create_result r g)\<rparr>" for g r
      using pc c by (simp add: sys_next_def MAX_MUTEX_def)
    moreover have "insert m (made a) = {..<Suc c}" using i(3) pc c by (simp add: lessThan_Suc)
    ultimately show ?thesis
      using i pc c unfolding t_create(1) t(1) by (simp add: sys_inv_def return_to_sys)
  next
    case (t_create_fails t)
    then have t: "t = 0" "sys_request (locals a 0) = Create" by (simp_all add: req)
    obtain c where pc: "spc (locals a 0) = S_create c" using sys_requestD(3) [OF t(2)] by blast
    have c: "c = 32" using t_create_fails(5) i(1,3) pc by (simp add: next_mutex_upto split: if_splits)
    have "create_result (- ENOMEM) x = (- 1, ENOMEM)" for x by (simp add: create_result_def word_sless_alt)
    then show ?thesis
      using i pc c unfolding t_create_fails(1) t(1)
      by (simp add: sys_inv_def return_to_sys sys_next_def sys_errno_def MAX_MUTEX_def sys_expected_def checks_ret2_def)
  qed
qed

lemma sys_reach: "treach sys_err {..<1} a0 a \<Longrightarrow> sys_inv a0 \<Longrightarrow> sys_inv a"
  by (induction rule: treach.induct) (simp_all add: sys_step)

lemma sys_requests_ok: "\<forall>t\<in>{..<1}. request_ok (request_of sys_err (locals a t))"
  by (auto simp: sys_err_def sys_request_def sys_call_def request_ok_def split: sys_pc.splits)

section \<open>The start\<close>

lemma sys_starts:
  assumes k: "booted k" and fs: "functions_ok [fun1]" and addr: "\<not> bad_user_addr tasks"
  shows "\<exists>s. sys_main fun1 wild launch_task idle tasks k = Some (Running s) \<and> app_inv sys_err {..<1} s \<and> sys_inv (spec_of s)"
proof -
  let ?ts = "sys_tasks fun1" and ?e = "sys_entry fun1"
  have q: "quiet k" and free: "owner (abs_state k) = (\<lambda>_. None)" using k by (simp_all add: booted_def)
  have bad: "task_create_syscall launch_task idle tasks ?ts 65 k = Some (Return EINVAL, ?ts, k)"
      "task_create_syscall launch_task idle 0xdeadbeef wild 30 k = Some (Return EFAULT, wild, k)"
    by (simp_all add: task_create_syscall_def bad_user_addr_def)
  have one: "unat (1 :: u32) = 1" by simp
  have ok: "\<forall>i<unat (1 :: u32). task_ok (?ts ! i)"
    using fs by (simp add: sys_tasks_def task_ok_def functions_ok_def bad_user_addr_def dev_freq_def)
  have ratio: "last_ratio ?ts (unat (1 :: u32)) \<le> 1" by (simp add: last_ratio_def sys_tasks_def dev_freq_def)
  have sorted: "sort_tasks (unat (1 :: u32)) ?ts = Some ?ts"
    by (simp add: sys_tasks_def sort_tasks_def find_min_def for_range_step task_exchange_eq)
  have pos: "0 < unat (1 :: u32)" "unat (1 :: u32) < 64" "unat (1 :: u32) \<le> length ?ts" by (simp_all add: sys_tasks_def)
  note start = launched_start [of k 1 ?ts tasks ?ts launch_task idle sys_err ?e EFAULT "sys_transcript 3",
    OF q free pos addr ok ratio sorted, unfolded one]
  obtain k' where k': "task_create_syscall launch_task idle tasks ?ts 1 k = Some (Switched, ?ts, k')"
      "app_inv sys_err {..<1} (launched ?e EFAULT (sys_transcript 3) k')"
      "own (spec_of (launched ?e EFAULT (sys_transcript 3) k')) = (\<lambda>_. None)"
      "made (spec_of (launched ?e EFAULT (sys_transcript 3) k')) = {m. created (abs_state k) m}"
      "\<forall>t<1. locals (launched ?e EFAULT (sys_transcript 3) k') t = ?e (lambda (?ts ! t)) (data (?ts ! t))"
    by (rule exE [OF start]) (elim conjE, rule that, assumption+)
  let ?s = "launched ?e EFAULT (sys_transcript 3) k'"
  have "check_return EINVAL EINVAL (sys_message 1) = report_suc (sys_message 1)"
      "check_return EFAULT EFAULT (sys_message 2) = report_suc (sys_message 2)"
    by (simp_all add: check_return_def)
  moreover have "sys_transcript 3 = text_bytes ''TEST BEGIN!'' @ [10, 10] @ report_suc (sys_message 1) @ report_suc (sys_message 2)"
    using sys_transcript_Suc [of 1] sys_transcript_Suc [of 2] by (simp add: sys_transcript_def numeral_2_eq_2 [symmetric])
  ultimately have "sys_main fun1 wild launch_task idle tasks k = Some (Running ?s)"
    unfolding sys_main_def by (simp add: bad k'(1) Let_def del: EINVAL_def EFAULT_def)
  moreover have "locals ?s 0 = \<lparr>spc = S_create 0, ret2 = 0\<rparr>" using k'(5) by (simp add: sys_tasks_def sys_entry_def)
  moreover have "{m. created (abs_state k) m} = {}" using k by (auto simp: booted_def abs_state_def)
  ultimately show ?thesis using k'(2-4) by (simp add: sys_inv_def del: made_of_simp)
qed

lemma sys_runs:
  assumes "booted k" "functions_ok [fun1]" "\<not> bad_user_addr tasks"
    and "sys_main fun1 wild launch_task idle tasks k = Some (Running s0)" "areach sys_err s0 s"
  shows "sys_inv (spec_of s)"
proof -
  have s0: "app_inv sys_err {..<1} s0" "sys_inv (spec_of s0)"
    using sys_starts [OF assms(1-3), of wild launch_task idle] assms(4) by auto
  then have "treach sys_err {..<1} (spec_of s0) (spec_of s)"
    using areach_simulated [OF s0(1) _ assms(5)] sys_requests_ok by blast
  then show ?thesis using sys_reach s0(2) by blast
qed

text \<open>The console is a prefix of the transcript.\<close>

lemma sys_shown_prefix:
  assumes "sys_place p r e"
  shows "\<exists>rest. sys_shown p @ rest = sys_passed"
proof -
  have "\<exists>rest. sys_transcript n @ rest = sys_passed" if "1 \<le> n" "n \<le> 11" for n
  proof -
    have "[1..<11] = [1..<n] @ [n..<11]" using that upt_add_eq_append [of 1 n "11 - n"] by simp
    then have "sys_transcript 11 = sys_transcript n @ concat (map (\<lambda>i. report_suc (sys_message i)) [n..<11])"
      unfolding sys_transcript_def by simp
    then show ?thesis unfolding sys_passed_def by (metis append.assoc)
  qed
  then show ?thesis using assms by (cases p) simp_all
qed

end
