(* ===== verification/Cyclone.thy ===== *)
theory Cyclone
  imports Launch Render
begin

text \<open>
  tasks/cyclone/cyclone.c: one task that sleeps a little longer each time, prints the time, and
  starts itself anew with \<open>task_create\<close>. It exercises what no other test does: a call of
  \<open>task_create\<close> from a running task.
\<close>

section \<open>A kernel without sleepers\<close>

lemma quiet_wf:
  assumes wf: "kernel_wf k" and none: "\<And>l. waiting (abs_state k) l = []"
  shows "quiet k"
proof -
  obtain Q where inv: "kernel_inv k Q" using wf by (auto simp: kernel_wf_def)
  note d = kernel_invD [OF inv]
  have Q: "Q l = []" if "is_head l" for l
    using none [of l] lists_of_inv [OF inv that] by (simp add: lists_of_abs)
  have "sleep_queue (system_tcb k ! t) = None" if "t < 64" for t
    using d(3) Q that unfolding lists_ok_def by (metis empty_iff list.set(1) ptr.simps(1))
  then have tcbs: "\<forall>t \<in> set (system_tcb k). sleep_queue t = None"
    using sizedD(1) [OF d(1)] by (auto simp: in_set_conv_nth)
  have "pSleep_queue (gtMutex k ! m) = None \<and> mutex_ok (gtMutex k ! m) []" if "m < 32" for m
  proof -
    have "chain (ptr k) (Mutex_head m) []" using inv_listD(1) [OF inv, of "Mutex_head m"] Q that by simp
    moreover have "mutex_ok (gtMutex k ! m) (Q (Mutex_head m))" using d(5) that by (simp add: mutexes_ok_def)
    ultimately show ?thesis using Q [of "Mutex_head m"] that by (simp add: ptr.simps)
  qed
  then have "\<forall>m \<in> set (gtMutex k). pSleep_queue m = None \<and> mutex_ok m []"
    using sizedD(2) [OF d(1)] by (auto simp: in_set_conv_nth)
  moreover have "runq_sized (kq k)" using d(2) by (simp add: ready_ok_def runq_sized_def rq_wf_def)
  ultimately show ?thesis using d(1) tcbs by (simp add: quiet_def)
qed

text \<open>There the timer interrupt moves the clock and wakes nobody.\<close>

lemma tick_without_sleepers:
  assumes wf: "kernel_wf k" and none: "\<And>l. waiting (abs_state k) l = []"
  shows "\<exists>b' k'. C_IRQ_Handler rd (b, k) = Some (b', k')"
    and "C_IRQ_Handler rd (b, k) = Some (b', k') \<Longrightarrow>
      kernel_wf k' \<and> abs_state k' = abs_state k \<and> system_time k' = system_time k + 1"
proof -
  have "spec_signal D (abs_state k) = abs_state k" for D
    using none by (simp add: spec_signal_def fun_eq_iff)
  then show "\<exists>b' k'. C_IRQ_Handler rd (b, k) = Some (b', k')"
    "C_IRQ_Handler rd (b, k) = Some (b', k') \<Longrightarrow>
      kernel_wf k' \<and> abs_state k' = abs_state k \<and> system_time k' = system_time k + 1"
    using C_IRQ_Handler_wf [OF wf, of rd b] by auto
qed

section \<open>The program\<close>

text \<open>The places of \<open>fun1\<close>; the target of the sleep and the time that was read are locals.\<close>

datatype cyclone_pc = Cy_head | Cy_sleep | Cy_spin u32 | Cy_time | Cy_print u32 | Cy_create | Cy_past | Cy_failed | Cy_loop

record cyclone =
  cy_kern :: kernel
  ct :: u32
  place :: cyclone_pc
  shown :: "u8 list"

definition ITE :: u32 where "ITE = 30"

definition time_line :: "u32 \<Rightarrow> u8 list" where
  "time_line t = text_bytes ''Time now is '' @ digits_of 10 (unat t) @ [10]"

definition cyclone_tasks :: "u32 \<Rightarrow> task list" where
  "cyclone_tasks fun1 = [\<lparr>lambda = fun1, data = 0, stack_pos = 0xa1000000, task_C = 1, task_T = dev_freq ! 3\<rparr>]"

text \<open>The new task is launched: \<open>launch_task\<close> calls the function in \<open>r4\<close>.\<close>

definition cyclone_entry :: "u32 \<Rightarrow> kernel \<Rightarrow> cyclone_pc" where
  "cyclone_entry fun1 k = (if r4 (regs k) = fun1 then Cy_head else Cy_failed)"

inductive cyclone_step :: "u32 \<Rightarrow> u32 \<Rightarrow> u32 \<Rightarrow> u32 \<Rightarrow> cyclone \<Rightarrow> cyclone \<Rightarrow> bool" for fun1 launch_task idle tasks where
  cy_head: "cyclone_step fun1 launch_task idle tasks s (s\<lparr>ct := ct s + 1, place := Cy_sleep\<rparr>)"
    if "place s = Cy_head" "\<not> ITE <s ct s + 1"
| cy_end: "cyclone_step fun1 launch_task idle tasks s
      (s\<lparr>ct := ct s + 1, shown := shown s @ text_bytes ''Test ends!!'' @ [10], place := Cy_loop\<rparr>)"
    if "place s = Cy_head" "ITE <s ct s + 1"
| cy_loop: "cyclone_step fun1 launch_task idle tasks s (s\<lparr>ct := ct s + 1\<rparr>)"
    if "place s = Cy_loop"
| cy_sleep: "cyclone_step fun1 launch_task idle tasks s
      (s\<lparr>place := (case sleep_enter (ct s * 10) (cy_kern s) of Spin target \<Rightarrow> Cy_spin target | _ \<Rightarrow> Cy_time)\<rparr>)"
    if "place s = Cy_sleep"
| cy_spin: "cyclone_step fun1 launch_task idle tasks s (s\<lparr>place := Cy_time\<rparr>)"
    if "place s = Cy_spin target" "\<not> target > system_time (cy_kern s)"
| cy_time: "cyclone_step fun1 launch_task idle tasks s (s\<lparr>place := Cy_print (time_syscall (cy_kern s))\<rparr>)"
    if "place s = Cy_time"
| cy_print: "cyclone_step fun1 launch_task idle tasks s (s\<lparr>shown := shown s @ time_line t, place := Cy_create\<rparr>)"
    if "place s = Cy_print t"
| cy_create: "cyclone_step fun1 launch_task idle tasks s
      (s\<lparr>cy_kern := k, place := (if out = Switched then cyclone_entry fun1 k else Cy_past)\<rparr>)"
    if "place s = Cy_create"
      "task_create_syscall launch_task idle tasks (cyclone_tasks fun1) 1 (cy_kern s) = Some (out, ts, k)"
| cy_past: "cyclone_step fun1 launch_task idle tasks s
      (s\<lparr>shown := shown s @ text_bytes ''TASK SHOULD NEVER REACH HERE, FAIL XXXXXXXXXXXXXXXXX'' @ [10], place := Cy_failed\<rparr>)"
    if "place s = Cy_past"

text \<open>\<open>main\<close>, up to the start of the first task.\<close>

definition cyclone_main :: "u32 \<Rightarrow> u32 \<Rightarrow> u32 \<Rightarrow> u32 \<Rightarrow> kernel \<Rightarrow> cyclone main_result option" where
  "cyclone_main fun1 launch_task idle tasks k = do {
     (out, _, k) \<leftarrow> task_create_syscall launch_task idle tasks (cyclone_tasks fun1) 1 k;
     started out \<lparr>cy_kern = k, ct = 0, place = cyclone_entry fun1 k, shown = text_bytes ''Test begin'' @ [10]\<rparr>
       (text_bytes ''Test begin'' @ [10] @ text_bytes ''WTF!'' @ [10, 10]) }"

text \<open>Runs, with the number of timer interrupts so far.\<close>

inductive cyclone_run :: "u32 \<Rightarrow> u32 \<Rightarrow> u32 \<Rightarrow> u32 \<Rightarrow> cyclone \<Rightarrow> nat \<Rightarrow> cyclone \<Rightarrow> bool" for fun1 launch_task idle tasks s0 where
  cr_start: "cyclone_run fun1 launch_task idle tasks s0 0 s0"
| cr_step: "cyclone_run fun1 launch_task idle tasks s0 n s \<Longrightarrow> cyclone_step fun1 launch_task idle tasks s s' \<Longrightarrow>
    cyclone_run fun1 launch_task idle tasks s0 n s'"
| cr_tick: "cyclone_run fun1 launch_task idle tasks s0 n s \<Longrightarrow> C_IRQ_Handler rd (b, cy_kern s) = Some (b', k) \<Longrightarrow>
    cyclone_run fun1 launch_task idle tasks s0 (Suc n) (s\<lparr>cy_kern := k\<rparr>)"

text \<open>The line that \<open>printf\<close> prints.\<close>

definition time_format :: "u8 list" where
  "time_format = text_bytes ''Time now is %lu'' @ [10]"

lemma render_time_line: "render time_format [Word t] = Some (time_line t)"
proof -
  have "time_format = text_bytes ''Time now is '' @ 37 # [108, 117, 10]" by (simp add: time_format_def text_bytes_def)
  moreover have "37 \<notin> set (text_bytes ''Time now is '')" by (simp add: text_bytes_def)
  ultimately have "render time_format [Word t] =
      map_option ((@) (text_bytes ''Time now is '')) (render (37 # [108, 117, 10]) [Word t])"
    using render_literal [of "text_bytes ''Time now is ''" "37 # [108, 117, 10]" "[Word t]"] by metis
  also have "render (37 # [108, 117, 10]) [Word t] = Some (digits_of 10 (unat t) @ [10])"
    by (subst render_conv [of _ 2 "spec_init\<lparr>longopt := 1\<rparr>" "\<lambda>w. digits_of 10 (unat w)"]) (simp_all add: conv_def)
  finally show ?thesis by (simp add: time_line_def)
qed

section \<open>What it shows\<close>

text \<open>The \<open>i\<close>-th line is printed at least \<open>i\<close> ticks after the one before it.\<close>

fun spaced :: "nat \<Rightarrow> nat \<Rightarrow> nat list \<Rightarrow> bool" where
  "spaced t i [] \<longleftrightarrow> True"
| "spaced t i (u # us) \<longleftrightarrow> t + Suc i \<le> u \<and> spaced u (Suc i) us"

lemma spaced_snoc: "spaced t i (us @ [u]) \<longleftrightarrow> spaced t i us \<and> last (t # us) + Suc i + length us \<le> u"
  by (induction us arbitrary: t i) auto

text \<open>
  \<open>prev\<close> is the time of the last line, \<open>c\<close> the number of lines, \<open>now\<close> the time.
\<close>

fun cyclone_at :: "nat \<Rightarrow> nat \<Rightarrow> nat \<Rightarrow> u32 \<Rightarrow> cyclone_pc \<Rightarrow> bool" where
  "cyclone_at prev c now n Cy_head \<longleftrightarrow> n = of_nat c \<and> c \<le> 30"
| "cyclone_at prev c now n Cy_sleep \<longleftrightarrow> n = of_nat (Suc c) \<and> c < 30"
| "cyclone_at prev c now n (Cy_spin target) \<longleftrightarrow> n = of_nat (Suc c) \<and> c < 30 \<and> prev + Suc c \<le> unat target"
| "cyclone_at prev c now n Cy_time \<longleftrightarrow> n = of_nat (Suc c) \<and> c < 30 \<and> prev + Suc c \<le> now"
| "cyclone_at prev c now n (Cy_print t) \<longleftrightarrow> n = of_nat (Suc c) \<and> c < 30 \<and> prev + Suc c \<le> unat t \<and> unat t \<le> now"
| "cyclone_at prev c now n Cy_create \<longleftrightarrow> n = of_nat c \<and> c \<le> 30"
| "cyclone_at prev c now n Cy_loop \<longleftrightarrow> c = 30"
| "cyclone_at prev c now n _ \<longleftrightarrow> False"

definition cyclone_text :: "nat list \<Rightarrow> bool \<Rightarrow> u8 list" where
  "cyclone_text ts ended = text_bytes ''Test begin'' @ [10] @ concat (map (\<lambda>t. time_line (of_nat t)) ts) @
     (if ended then text_bytes ''Test ends!!'' @ [10] else [])"

definition cyclone_inv :: "nat \<Rightarrow> nat \<Rightarrow> nat list \<Rightarrow> cyclone \<Rightarrow> bool" where
  "cyclone_inv t0 n ts s \<longleftrightarrow> kernel_wf (cy_kern s) \<and> (\<forall>l. waiting (abs_state (cy_kern s)) l = []) \<and>
     unat (system_time (cy_kern s)) = t0 + n \<and> spaced t0 0 ts \<and> last (t0 # ts) \<le> t0 + n \<and>
     shown s = cyclone_text ts (place s = Cy_loop) \<and>
     cyclone_at (last (t0 # ts)) (length ts) (t0 + n) (ct s) (place s)"

definition cyclone_ok :: "u32 \<Rightarrow> u32 \<Rightarrow> bool" where
  "cyclone_ok fun1 tasks \<longleftrightarrow> \<not> bad_user_addr fun1 \<and> \<not> bad_user_addr tasks"

lemma sint_of_small: "c \<le> 100 \<Longrightarrow> sint (of_nat c :: u32) = int c"
  by (simp add: signed_of_nat signed_take_bit_int_eq_self)

lemma cyclone_create:
  assumes ok: "cyclone_ok fun1 tasks" and q: "quiet k"
  shows "\<exists>k'. task_create_syscall launch_task idle tasks (cyclone_tasks fun1) 1 k = Some (Switched, cyclone_tasks fun1, k') \<and>
    kernel_wf k' \<and> (\<forall>l. waiting (abs_state k') l = []) \<and> system_time k' = system_time k \<and>
    cyclone_entry fun1 k' = Cy_head"
proof -
  let ?t = "cyclone_tasks fun1 ! 0"
  have one: "unat (1 :: u32) = 1" by simp
  have t: "cyclone_tasks fun1 = [?t]" "length (cyclone_tasks fun1) = 1" "task_ok ?t" "lambda ?t = fun1"
    using ok by (simp_all add: cyclone_tasks_def task_ok_def bad_user_addr_def dev_freq_def cyclone_ok_def)
  have ratio: "last_ratio (cyclone_tasks fun1) 1 \<le> 1" by (simp add: last_ratio_def cyclone_tasks_def dev_freq_def)
  obtain ts' k' where r: "task_create_syscall launch_task idle tasks (cyclone_tasks fun1) 1 k = Some (Switched, ts', k')"
      "mset ts' = mset (cyclone_tasks fun1)" "kernel_wf k'" "on_schedule (system_time k) 0 k'"
      "current (abs_state k') = 0" "waiting (abs_state k') = (\<lambda>_. [])"
      "system_tcb k' = new_tcbs launch_task idle ts' 1 (system_tcb k)"
      "regs k' = tcb_context (system_tcb k' ! current (abs_state k'))"
    using task_create_wf [OF q, of 1 "cyclone_tasks fun1" tasks launch_task idle] ok t ratio
    unfolding one by (auto simp: cyclone_ok_def)
  have ts': "ts' = cyclone_tasks fun1" using r(2) t(1) by (metis mset_single_iff_right mset.simps)
  have "r4 (regs k') = fun1"
    using r(5,7,8) ts' t by (simp add: nth_new_tcbs task_tcb_def task_context_def)
  then show ?thesis using r(1,3,4,6) ts' by (simp add: on_schedule_def cyclone_entry_def)
qed

lemma cyclone_target:
  assumes "c \<le> 30" "unat (system_time k) \<le> 429496000" "0 < c"
  shows "sleep_enter (of_nat c * 10) k = Spin (system_time k + of_nat c)"
    "unat (system_time k + of_nat c) = unat (system_time k) + c"
proof -
  have c: "unat (of_nat c :: u32) = c" using assms(1) by (intro unat_lt_of_nat_iff) simp
  have m: "unat (of_nat c * 10 :: u32) = c * 10"
    using assms(1) c by (subst unat_mult_lem [THEN iffD1]) simp_all
  show u: "unat (system_time k + of_nat c) = unat (system_time k) + c"
    using assms(1,2) c by (subst unat_add_lem [THEN iffD1]) simp_all
  have "unat ((of_nat c * 10 + SYSTIME_PRECISION * system_time k) div SYSTIME_PRECISION) = unat (system_time k) + c"
    using sleep_target [of "of_nat c * 10" "system_time k"] assms(1,2) m by simp
  then have target: "(of_nat c * 10 + SYSTIME_PRECISION * system_time k) div SYSTIME_PRECISION = system_time k + of_nat c"
    using u by (simp only: word_unat_eq_iff)
  have "of_nat c * 10 \<noteq> (0 :: u32)" using m assms(3) by (metis mult_is_0 neq0_conv unat_0 zero_neq_numeral)
  moreover have "system_time k < system_time k + of_nat c" using u assms(3) by (simp add: word_less_nat_alt)
  ultimately show "sleep_enter (of_nat c * 10) k = Spin (system_time k + of_nat c)"
    unfolding sleep_enter_def Let_def target by simp
qed

lemma cyclone_step_inv:
  assumes ok: "cyclone_ok fun1 tasks" and inv: "cyclone_inv t0 n ts s" and small: "t0 + n \<le> 429496000"
    and step: "cyclone_step fun1 launch_task idle tasks s s'"
  shows "\<exists>ts'. cyclone_inv t0 n ts' s'"
proof -
  note i = inv [unfolded cyclone_inv_def]
  let ?c = "length ts"
  from step show ?thesis
  proof (cases rule: cyclone_step.cases)
    case cy_head
    then have c: "ct s = of_nat ?c" "?c \<le> 30" using i by simp_all
    then have "?c < 30" using cy_head(3) by (cases "?c = 30") (simp_all add: ITE_def)
    then show ?thesis using cy_head c i by (intro exI [of _ ts]) (simp add: cyclone_inv_def)
  next
    case cy_end
    then have c: "ct s = of_nat ?c" "?c \<le> 30" using i by simp_all
    have "?c = 30"
    proof (rule ccontr)
      assume "?c \<noteq> 30"
      then have "Suc ?c \<le> 30" using c by simp
      then have "sint (of_nat (Suc ?c) :: u32) = int (Suc ?c)" by (intro sint_of_small) simp
      then show False using cy_end(3) c \<open>Suc ?c \<le> 30\<close> by (simp add: ITE_def word_sless_alt add.commute)
    qed
    then show ?thesis using cy_end i by (intro exI [of _ ts]) (simp add: cyclone_inv_def cyclone_text_def)
  next
    case cy_loop
    then show ?thesis using i by (intro exI [of _ ts]) (simp add: cyclone_inv_def)
  next
    case cy_sleep
    then have c: "ct s = of_nat (Suc ?c)" "?c < 30" using i by simp_all
    then have "sleep_enter (ct s * 10) (cy_kern s) = Spin (system_time (cy_kern s) + of_nat (Suc ?c))"
        "unat (system_time (cy_kern s) + of_nat (Suc ?c)) = t0 + n + Suc ?c"
      using cyclone_target [of "Suc ?c" "cy_kern s"] small i by simp_all
    then show ?thesis using cy_sleep c i by (intro exI [of _ ts]) (simp add: cyclone_inv_def)
  next
    case (cy_spin target)
    then show ?thesis using i by (intro exI [of _ ts]) (simp add: cyclone_inv_def word_less_nat_alt not_less)
  next
    case cy_time
    then show ?thesis using i by (intro exI [of _ ts]) (simp add: cyclone_inv_def time_syscall_def)
  next
    case (cy_print t)
    then show ?thesis
      using i by (intro exI [of _ "ts @ [unat t]"]) (simp add: cyclone_inv_def cyclone_text_def spaced_snoc add.commute)
  next
    case (cy_create out us k)
    have "quiet (cy_kern s)" using quiet_wf i by blast
    from cyclone_create [OF ok this, of launch_task idle] cy_create(3)
    have "out = Switched" "kernel_wf k" "\<forall>l. waiting (abs_state k) l = []" "system_time k = system_time (cy_kern s)"
        "cyclone_entry fun1 k = Cy_head" by auto
    then show ?thesis using cy_create i by (intro exI [of _ ts]) (simp add: cyclone_inv_def)
  next
    case cy_past
    then show ?thesis using i by simp
  qed
qed

lemma cyclone_tick_inv:
  assumes inv: "cyclone_inv t0 n ts s" and small: "t0 + n \<le> 429496000"
    and tick: "C_IRQ_Handler rd (b, cy_kern s) = Some (b', k)"
  shows "cyclone_inv t0 (Suc n) ts (s\<lparr>cy_kern := k\<rparr>)"
proof -
  note i = inv [unfolded cyclone_inv_def]
  have k: "kernel_wf k" "abs_state k = abs_state (cy_kern s)" "system_time k = system_time (cy_kern s) + 1"
    using tick_without_sleepers(2) [OF _ _ tick] i by blast+
  have "unat (system_time k) = t0 + Suc n"
    using i small unfolding k(3) by (subst unat_add_lem [THEN iffD1]) simp_all
  moreover have "cyclone_at l c now x p \<Longrightarrow> cyclone_at l c (Suc now) x p" for l c now x p
    by (cases p) simp_all
  ultimately show ?thesis using i k by (simp add: cyclone_inv_def)
qed

lemma cyclone_run_inv:
  assumes ok: "cyclone_ok fun1 tasks" and start: "cyclone_inv t0 0 [] s0"
  shows "cyclone_run fun1 launch_task idle tasks s0 n s \<Longrightarrow> t0 + n \<le> 429496000 \<Longrightarrow> \<exists>ts. cyclone_inv t0 n ts s"
proof (induction rule: cyclone_run.induct)
  case cr_start
  then show ?case using start by blast
next
  case (cr_step n s s')
  then show ?case using cyclone_step_inv [OF ok] by blast
next
  case (cr_tick n s rd b b' k)
  then obtain ts where "cyclone_inv t0 n ts s" by auto
  from cyclone_tick_inv [OF this _ cr_tick.hyps(2)] cr_tick.prems show ?case by auto
qed

lemma cyclone_starts:
  assumes "cyclone_ok fun1 tasks" "quiet k"
  shows "\<exists>s0. cyclone_main fun1 launch_task idle tasks k = Some (Running s0) \<and> cyclone_inv (unat (system_time k)) 0 [] s0 \<and>
    place s0 = Cy_head"
proof -
  obtain k' where k': "task_create_syscall launch_task idle tasks (cyclone_tasks fun1) 1 k = Some (Switched, cyclone_tasks fun1, k')"
      "kernel_wf k'" "\<forall>l. waiting (abs_state k') l = []" "system_time k' = system_time k"
      "cyclone_entry fun1 k' = Cy_head"
    using cyclone_create [OF assms, of launch_task idle] by blast
  let ?s = "\<lparr>cy_kern = k', ct = 0, place = Cy_head, shown = text_bytes ''Test begin'' @ [10]\<rparr>"
  have "cyclone_main fun1 launch_task idle tasks k = Some (Running ?s)" using k' by (simp add: cyclone_main_def)
  moreover have "cyclone_inv (unat (system_time k)) 0 [] ?s" using k' by (simp add: cyclone_inv_def cyclone_text_def)
  moreover have "place ?s = Cy_head" by simp
  ultimately show ?thesis by blast
qed

section \<open>It can finish\<close>

lemma cyclone_ticks:
  assumes "cyclone_run fun1 launch_task idle tasks s0 n s" "cyclone_inv t0 n ts s" "t0 + n + j \<le> 429496000"
  shows "\<exists>s'. cyclone_run fun1 launch_task idle tasks s0 (n + j) s' \<and> cyclone_inv t0 (n + j) ts s' \<and>
    place s' = place s \<and> ct s' = ct s"
  using assms(3)
proof (induction j)
  case 0
  then show ?case using assms by auto
next
  case (Suc j)
  then obtain s' where s': "cyclone_run fun1 launch_task idle tasks s0 (n + j) s'" "cyclone_inv t0 (n + j) ts s'"
      "place s' = place s" "ct s' = ct s" by auto
  have "kernel_wf (cy_kern s')" "\<And>l. waiting (abs_state (cy_kern s')) l = []"
    using s'(2) by (simp_all add: cyclone_inv_def)
  then obtain b' k' where k': "C_IRQ_Handler (\<lambda>_. 0) ([], cy_kern s') = Some (b', k')"
    using tick_without_sleepers(1) by blast
  from cr_tick [OF s'(1) k'] cyclone_tick_inv [OF s'(2) _ k'] Suc.prems s'(3,4) show ?case
    by (intro exI [of _ "s'\<lparr>cy_kern := k'\<rparr>"]) simp
qed

text \<open>One round from the head of \<open>fun1\<close> to its next start, when the sleep lasts exactly as long as it must.\<close>

lemma cyclone_round:
  assumes ok: "cyclone_ok fun1 tasks" and start: "cyclone_inv t0 0 [] s0"
    and run: "cyclone_run fun1 launch_task idle tasks s0 n s"
    and inv: "cyclone_inv t0 n ts s" and head: "place s = Cy_head" and c: "length ts = c" "c < 30"
    and small: "t0 + n + 30 \<le> 429496000"
  shows "\<exists>s' ts'. cyclone_run fun1 launch_task idle tasks s0 (n + Suc c) s' \<and> cyclone_inv t0 (n + Suc c) ts' s' \<and>
    place s' = Cy_head \<and> length ts' = Suc c"
proof -
  let ?step = "cyclone_step fun1 launch_task idle tasks" and ?run = "cyclone_run fun1 launch_task idle tasks s0"
  note i = inv [unfolded cyclone_inv_def]
  have ct: "ct s = of_nat c" using i head c by simp
  have small30: "sint (of_nat (Suc c) :: u32) = int (Suc c)" using c(2) by (intro sint_of_small) simp
  define s1 where "s1 = s\<lparr>ct := ct s + 1, place := Cy_sleep\<rparr>"
  have "\<not> ITE <s ct s + 1" using small30 c(2) ct by (simp add: ITE_def word_sless_alt add.commute)
  then have step1: "?step s s1" unfolding s1_def by (rule cy_head [OF head])
  have ct1: "ct s1 = of_nat (Suc c)" using ct by (simp add: s1_def)
  let ?target = "system_time (cy_kern s) + of_nat (Suc c)"
  have target: "sleep_enter (of_nat (Suc c) * 10) (cy_kern s) = Spin ?target" "unat ?target = t0 + n + Suc c"
    using cyclone_target [of "Suc c" "cy_kern s"] c small i by simp_all
  define s2 where "s2 = s1\<lparr>place := Cy_spin ?target\<rparr>"
  have "?step s1 (s1\<lparr>place := (case sleep_enter (ct s1 * 10) (cy_kern s1) of Spin target \<Rightarrow> Cy_spin target | _ \<Rightarrow> Cy_time)\<rparr>)"
    by (rule cy_sleep) (simp add: s1_def)
  then have step2: "?step s1 s2" using target(1) unfolding ct1 by (simp add: s2_def s1_def)
  have run2: "?run n s2" using run step1 step2 by (blast intro: cr_step)
  have inv2: "cyclone_inv t0 n ts s2"
    using i ct c target(2) head by (simp add: cyclone_inv_def s2_def s1_def)
  obtain s3 where s3: "?run (n + Suc c) s3" "cyclone_inv t0 (n + Suc c) ts s3" "place s3 = Cy_spin ?target" "ct s3 = ct s2"
    using cyclone_ticks [OF run2 inv2, of "Suc c"] small c(2) by (auto simp: s2_def)
  have "\<not> ?target > system_time (cy_kern s3)"
    using s3(2) target(2) by (simp add: cyclone_inv_def word_less_nat_alt)
  from cy_spin [OF s3(3) this] have "?run (n + Suc c) (s3\<lparr>place := Cy_time\<rparr>)" using s3(1) by (blast intro: cr_step)
  moreover have "?step (s3\<lparr>place := Cy_time\<rparr>) (s3\<lparr>place := Cy_print (system_time (cy_kern s3))\<rparr>)"
    using cy_time [of "s3\<lparr>place := Cy_time\<rparr>"] by (simp add: time_syscall_def)
  ultimately have run4: "?run (n + Suc c) (s3\<lparr>place := Cy_print (system_time (cy_kern s3))\<rparr>)" by (blast intro: cr_step)
  define s5 where "s5 = s3\<lparr>shown := shown s3 @ time_line (system_time (cy_kern s3)), place := Cy_create\<rparr>"
  have "?step (s3\<lparr>place := Cy_print (system_time (cy_kern s3))\<rparr>) s5"
    using cy_print [of "s3\<lparr>place := Cy_print (system_time (cy_kern s3))\<rparr>"] by (simp add: s5_def)
  with run4 have run5: "?run (n + Suc c) s5" by (blast intro: cr_step)
  have "quiet (cy_kern s5)" using quiet_wf s3(2) by (simp add: s5_def cyclone_inv_def)
  from cyclone_create [OF ok this, of launch_task idle]
  obtain k' where k': "task_create_syscall launch_task idle tasks (cyclone_tasks fun1) 1 (cy_kern s5) = Some (Switched, cyclone_tasks fun1, k')"
      "kernel_wf k'" "\<forall>l. waiting (abs_state k') l = []" "system_time k' = system_time (cy_kern s5)"
      "cyclone_entry fun1 k' = Cy_head" by blast
  define s6 where "s6 = s5\<lparr>cy_kern := k', place := Cy_head\<rparr>"
  have "?step s5 s6" using cy_create [OF _ k'(1)] k'(5) by (simp add: s6_def s5_def)
  with run5 have run6: "?run (n + Suc c) s6" by (blast intro: cr_step)
  obtain ts' where ts': "cyclone_inv t0 (n + Suc c) ts' s6"
    using cyclone_run_inv [OF ok start run6] small c(2) by auto
  have "ct s6 = of_nat (Suc c)" using s3(4) ct1 by (simp add: s6_def s5_def s2_def)
  then have "(of_nat (length ts') :: u32) = of_nat (Suc c)" "length ts' \<le> 30"
    using ts' by (simp_all add: cyclone_inv_def s6_def)
  then have "length ts' = Suc c" using of_nat_u32_eq [of "length ts'" "Suc c"] c(2) by simp
  then show ?thesis using run6 ts' by (intro exI [of _ s6] exI [of _ ts']) (simp add: s6_def)
qed

lemma cyclone_finishes:
  assumes ok: "cyclone_ok fun1 tasks" and start: "cyclone_inv t0 0 [] s0" "place s0 = Cy_head" and small: "t0 \<le> 429000000"
  shows "\<exists>n s. n \<le> 900 \<and> cyclone_run fun1 launch_task idle tasks s0 n s \<and> place s = Cy_loop"
proof -
  have "\<exists>n s ts. n \<le> 30 * c \<and> cyclone_run fun1 launch_task idle tasks s0 n s \<and> cyclone_inv t0 n ts s \<and>
      place s = Cy_head \<and> length ts = c" if "c \<le> 30" for c
    using that
  proof (induction c)
    case 0
    have "cyclone_run fun1 launch_task idle tasks s0 0 s0" by (rule cr_start)
    then show ?case using start by auto
  next
    case (Suc c)
    then obtain n s ts where s: "n \<le> 30 * c" "cyclone_run fun1 launch_task idle tasks s0 n s" "cyclone_inv t0 n ts s"
        "place s = Cy_head" "length ts = c" by auto
    have "t0 + n + 30 \<le> 429496000" using s(1) Suc.prems small by simp
    from cyclone_round [OF ok start(1) s(2-5) _ this] Suc.prems
    obtain s' ts' where "cyclone_run fun1 launch_task idle tasks s0 (n + Suc c) s'" "cyclone_inv t0 (n + Suc c) ts' s'"
        "place s' = Cy_head" "length ts' = Suc c" by auto
    then show ?case using s(1) Suc.prems by (intro exI [of _ "n + Suc c"]) auto
  qed
  from this [of 30] obtain n s ts where s: "n \<le> 900" "cyclone_run fun1 launch_task idle tasks s0 n s"
      "cyclone_inv t0 n ts s" "place s = Cy_head" "length ts = 30" by auto
  then have "ct s = 30" by (simp add: cyclone_inv_def)
  then have "ITE <s ct s + 1" by (simp add: ITE_def)
  from cr_step [OF s(2) cy_end [OF s(4) this]] s(1) show ?thesis by (intro exI conjI) (assumption, assumption, simp)
qed

end
