(* ===== verification/Stress.thy ===== *)
theory Stress
  imports Launch Timed Render
begin

text \<open>
  tasks/stress/stress.c: 59 periodic tasks that count how often they run, and a task that is to check
  the counts when it runs for the third time. It waits on device 59, which has no period, and so do
  the tasks from number 4 on: they run once, and the check is never made.
\<close>

section \<open>The program\<close>

definition NUM_TASK :: nat where "NUM_TASK = 60"
definition END_TIME :: u32 where "END_TIME = 9000"
definition NUM_ITER :: u32 where "NUM_ITER = 2"

text \<open>The places in \<open>fun1\<close> (with the time to print) and in \<open>fun2\<close> (with the loop counter).\<close>

datatype stress_pc =
    S1_head | S1_now | S1_print u32 | S1_score | S1_sleep | S1_wait
  | S2_head | S2_again | S2_check nat | S2_rma nat | S2_rma_fail nat | S2_zero nat | S2_never nat | S2_never_fail nat
  | S2_passed | S2_flag | S2_wait
  | S_panic | S_stop

record stress_local =
  spot :: stress_pc
  task_num :: u32

record stress_globals =
  once :: u32
  flag :: u32
  score :: "u32 list"

definition line_text :: "string \<Rightarrow> u8 list" where
  "line_text s = text_bytes s @ [10]"

definition stress_request :: "stress_local \<Rightarrow> request" where
  "stress_request l = (case spot l of
     S1_now \<Rightarrow> Now
   | S1_print t \<Rightarrow> Send (text_bytes ''Time is now '' @ digits_of 10 (unat t) @ [10])
   | S1_sleep \<Rightarrow> Sleep (task_num l)
   | S1_wait \<Rightarrow> Wait (task_num l)
   | S2_again \<Rightarrow> Send (line_text ''One more time'')
   | S2_rma i \<Rightarrow> Send (text_bytes ''RMA check failed on '' @ digits_of 10 i @ [10])
   | S2_rma_fail i \<Rightarrow> Send (line_text ''xxxxxxxxxx Test FAIL xxxxxxxx'')
   | S2_never i \<Rightarrow> Send (text_bytes ''Task '' @ digits_of 10 i @ line_text '' never executed?'')
   | S2_never_fail i \<Rightarrow> Send (line_text ''xxxxxxxxxx Test FAIL xxxxxxxxx'')
   | S2_passed \<Rightarrow> Send (line_text ''*********** Test PASEED *******************'')
   | S2_wait \<Rightarrow> Wait (task_num l)
   | S_panic \<Rightarrow> Send (line_text ''Dev 0 failed'')
   | _ \<Rightarrow> Compute)"

text \<open>Where a task goes on, given the result \<open>r\<close> of the request.\<close>

fun stress_next :: "u32 \<Rightarrow> stress_globals \<Rightarrow> stress_pc \<Rightarrow> stress_pc" where
  "stress_next r g S1_head = (if flag g = 0 then S1_now else S1_score)"
| "stress_next r g S1_now = S1_print r"
| "stress_next r g (S1_print t) = S1_score"
| "stress_next r g S1_score = S1_sleep"
| "stress_next r g S1_sleep = S1_wait"
| "stress_next r g S1_wait = (if r <s 0 then S_panic else S1_head)"
| "stress_next r g S2_head = (if once g <s NUM_ITER then S2_again else S2_check 0)"
| "stress_next r g S2_again = S2_wait"
| "stress_next r g (S2_check i) =
     (if i < NUM_TASK - 2 then (if score g ! i <s score g ! (i + 1) then S2_rma i else S2_zero i) else S2_passed)"
| "stress_next r g (S2_rma i) = S2_rma_fail i"
| "stress_next r g (S2_rma_fail i) = S2_zero i"
| "stress_next r g (S2_zero i) = (if score g ! i = 0 then S2_never i else S2_check (i + 1))"
| "stress_next r g (S2_never i) = S2_never_fail i"
| "stress_next r g (S2_never_fail i) = S2_check (i + 1)"
| "stress_next r g S2_passed = S2_flag"
| "stress_next r g S2_flag = S2_wait"
| "stress_next r g S2_wait = (if r <s 0 then S_panic else S2_head)"
| "stress_next r g S_panic = S_stop"
| "stress_next r g S_stop = S_stop"

definition stress_effect :: "stress_globals \<Rightarrow> stress_local \<Rightarrow> stress_globals" where
  "stress_effect g l = (case spot l of
     S1_score \<Rightarrow> g\<lparr>score := (score g)[unat (task_num l) := score g ! unat (task_num l) + 1]\<rparr>
   | S2_head \<Rightarrow> (if once g <s NUM_ITER then g\<lparr>once := once g + 1\<rparr> else g)
   | S2_flag \<Rightarrow> g\<lparr>flag := 1\<rparr>
   | _ \<Rightarrow> g)"

definition stress :: "(stress_globals, stress_local) program" where
  "stress = \<lparr>request_of = stress_request,
     returns = (\<lambda>r g l. (stress_effect g l, l\<lparr>spot := stress_next r g (spot l)\<rparr>))\<rparr>"

definition stress_tasks :: "u32 \<Rightarrow> u32 \<Rightarrow> task list" where
  "stress_tasks fun1 fun2 =
     map (\<lambda>i. \<lparr>lambda = fun1, data = of_nat i, stack_pos = 0xa2000000 + 0x10000 * of_nat i,
       task_C = of_nat (i + 1), task_T = of_nat ((i + 1) * 100)\<rparr>) [0..<NUM_TASK - 1] @
     [\<lparr>lambda = fun2, data = of_nat (NUM_TASK - 1), stack_pos = 0xa2000000 + 0x10000 * of_nat (NUM_TASK - 1),
       task_C = 0, task_T = END_TIME\<rparr>]"

definition stress_entry :: "u32 \<Rightarrow> u32 \<Rightarrow> u32 \<Rightarrow> u32 \<Rightarrow> stress_local" where
  "stress_entry fun1 fun2 f s =
     \<lparr>spot = (if f = fun1 then S1_head else if f = fun2 then S2_head else S_stop), task_num = s\<rparr>"

definition stress_main :: "u32 \<Rightarrow> u32 \<Rightarrow> u32 \<Rightarrow> u32 \<Rightarrow> u32 \<Rightarrow> kernel \<Rightarrow> (stress_globals, stress_local) app main_result option" where
  "stress_main fun1 fun2 launch_task idle tasks k = do {
     (out, _, k) \<leftarrow> task_create_syscall launch_task idle tasks (stress_tasks fun1 fun2) (of_nat NUM_TASK) k;
     started out (launched (stress_entry fun1 fun2) \<lparr>once = 0, flag = 0, score = replicate (NUM_TASK - 1) 0\<rparr>
         (line_text ''Test begins'') k)
       (line_text ''Test begins'' @
        text_bytes ''Elvis could not leave the building, but why did your code get here!'' @ [10, 10]) }"

section \<open>Where the tasks are\<close>

definition stress_place :: "nat \<Rightarrow> stress_globals \<Rightarrow> stress_pc \<Rightarrow> bool" where
  "stress_place t g p \<longleftrightarrow>
     (if t = 59 then p = S2_head \<and> once g = 0 \<or> p \<in> {S2_again, S2_wait} \<and> once g = 1
      else p \<in> {S1_head, S1_now, S1_score, S1_sleep, S1_wait} \<union> range S1_print \<and>
        (4 \<le> t \<longrightarrow> score g ! t = (if p \<in> {S1_sleep, S1_wait} then 1 else 0)))"

definition stress_inv :: "u32 \<Rightarrow> nat \<Rightarrow> (stress_globals, stress_local) app \<Rightarrow> bool" where
  "stress_inv t0 n s \<longleftrightarrow> app_inv stress {..<60} s \<and> on_schedule t0 n (mk (mach s)) \<and>
     flag (globals s) = 0 \<and> length (score (globals s)) = 59 \<and>
     (\<forall>t<60. task_num (locals s t) = of_nat t \<and> stress_place t (globals s) (spot (locals s t))) \<and>
     (\<forall>t<60. 4 \<le> t \<longrightarrow> conts (mach s) t = In_wait \<longrightarrow> parked t t s)"

lemma stress_no_lock: "request_ok (request_of stress l)" "stress_request l \<noteq> Lock i" "stress_request l \<noteq> Unlock i"
    "stress_request l \<noteq> Create"
  by (simp_all add: stress_def stress_request_def request_ok_def split: stress_pc.split)

lemma request_stress [simp]: "request_of stress l = stress_request l"
  by (simp add: stress_def)

lemma return_to_stress:
  "return_to stress c (Return r) s = s\<lparr>globals := stress_effect (globals s) (locals s c),
     locals := (locals s)(c := (locals s c)\<lparr>spot := stress_next r (globals s) (spot (locals s c))\<rparr>)\<rparr>"
  by (simp add: return_to_def stress_def)

text \<open>A return of a request other than the wait of a task from number 4 on.\<close>

lemma stress_place_step:
  assumes place: "\<forall>t<60. task_num (locals s t) = of_nat t \<and> stress_place t (globals s) (spot (locals s t))"
    and g: "flag (globals s) = 0" "length (score (globals s)) = 59" and c: "c < 60"
    and r: "spot (locals s c) \<in> {S1_wait, S2_wait} \<Longrightarrow> c < 4 \<and> \<not> r <s 0"
  defines "s' \<equiv> return_to stress c (Return r) s"
  shows "flag (globals s') = 0 \<and> length (score (globals s')) = 59 \<and>
    (\<forall>t<60. task_num (locals s' t) = of_nat t \<and> stress_place t (globals s') (spot (locals s' t)))"
proof -
  let ?g = "globals s" and ?p = "spot (locals s c)"
  have pc: "stress_place c ?g ?p" "task_num (locals s c) = of_nat c" using place c by simp_all
  have nc: "unat (task_num (locals s c)) = c" using pc(2) c by (simp add: unat_lt_of_nat_iff)
  have one: "(0 :: u32) <s NUM_ITER" "(1 :: u32) <s NUM_ITER" by (simp_all add: NUM_ITER_def word_sless_alt)
  have s': "globals s' = stress_effect ?g (locals s c)"
      "locals s' = (locals s)(c := (locals s c)\<lparr>spot := stress_next r ?g ?p\<rparr>)"
    by (simp_all add: s'_def return_to_stress)
  have own: "stress_place c (globals s') (stress_next r ?g ?p)"
  proof (cases "c = 59")
    case True
    then show ?thesis using pc(1) r one unfolding s'(1)
      by (auto simp: stress_place_def stress_effect_def)
  next
    case False
    then show ?thesis using pc(1) r g nc c unfolding s'(1)
      by (auto simp: stress_place_def stress_effect_def)
  qed
  have other: "stress_place t (globals s') (spot (locals s t))" if "t < 60" "t \<noteq> c" for t
  proof -
    have "stress_place t ?g (spot (locals s t))" using place that by simp
    moreover have "once (globals s') = once ?g \<or> c = 59" "score (globals s') ! t = score ?g ! t"
      using pc(1) nc that unfolding s'(1)
      by (cases "c = 59"; auto simp: stress_effect_def stress_place_def split: stress_pc.split)+
    ultimately show ?thesis using that by (auto simp: stress_place_def)
  qed
  have "flag (globals s') = 0" "length (score (globals s')) = 59"
    using g pc(1) unfolding s'(1) by (cases "c = 59"; auto simp: stress_effect_def stress_place_def split: stress_pc.split)+
  then show ?thesis using own other place c unfolding s'(2) by simp
qed

section \<open>Every run\<close>

lemma stress_step:
  assumes inv: "stress_inv t0 n s" and step: "astep stress s s'" and small: "Suc n < 2 ^ 32"
  shows "stress_inv t0 (n + (if system_time (mk (mach s')) = system_time (mk (mach s)) then 0 else 1)) s'"
proof -
  note i = inv [unfolded stress_inv_def]
  have app: "app_inv stress {..<60} s" and sched: "on_schedule t0 n (mk (mach s))" using i by simp_all
  have ok: "\<forall>t\<in>{..<60 :: nat}. request_ok (request_of stress (locals s t))" using stress_no_lock(1) by blast
  have app': "app_inv stress {..<60} s'"
    using astep_simulated [OF app ok step] by (simp add: simulated_def)
  have sched': "on_schedule t0 (n + (if system_time (mk (mach s')) = system_time (mk (mach s)) then 0 else 1)) (mk (mach s'))"
    by (rule astep_schedule [OF app step ok sched])
  have silent: "dev_freq ! t = 0" if "4 \<le> t" "t < 60" for t
  proof -
    have "dev_freq ! t = replicate 59 0 ! (t - 4)" using that by (simp add: dev_freq_def nth_append numeral_eq_Suc)
    also have "\<dots> = 0" using that by (intro nth_replicate) simp
    finally show ?thesis .
  qed
  have parked': "parked t t s'" if "4 \<le> t" "t < 60" "parked t t s" for t
    by (rule astep_parked [OF app step ok sched silent [OF that(1,2)] small that(3)])
  let ?places = "\<lambda>s. flag (globals s) = 0 \<and> length (score (globals s)) = 59 \<and>
     (\<forall>t<60. task_num (locals s t) = of_nat t \<and> stress_place t (globals s) (spot (locals s t)))"
  have places: "\<forall>t<60. task_num (locals s t) = of_nat t \<and> stress_place t (globals s) (spot (locals s t))"
      "flag (globals s) = 0" "length (score (globals s)) = 59"
      "\<forall>t<60. 4 \<le> t \<longrightarrow> conts (mach s) t = In_wait \<longrightarrow> parked t t s" using i by simp_all
  have ret: "?places (return_to stress c (Return r) s)" if "c < 60" "spot (locals s c) \<in> {S1_wait, S2_wait} \<Longrightarrow> c < 4 \<and> \<not> r <s 0" for c r
    by (rule stress_place_step [OF places(1-3) that])
  have not_waiting: "spot (locals s c) \<notin> {S1_wait, S2_wait}" if "\<And>d. stress_request (locals s c) \<noteq> Wait d" for c
    using that [of "task_num (locals s c)"] by (auto simp: stress_request_def)
  have mach_only: "globals (return_to stress c out (s\<lparr>mach := m\<rparr>)) = globals (return_to stress c out s)"
      "locals (return_to stress c out (s\<lparr>mach := m\<rparr>)) = locals (return_to stress c out s)" for c out m
    by (simp_all add: return_to_def split: outcome.split prod.split)
  have "?places s' \<and> (\<forall>t<60. 4 \<le> t \<longrightarrow> conts (mach s') t = In_wait \<longrightarrow> parked t t s')"
    using step
  proof (cases rule: astep.cases)
    case (a_send c)
    then show ?thesis using places parked' by simp
  next
    case (a_write c bs)
    have "c < 60" using callingD(4) [OF a_write(2) app] by simp
    then have "?places (return_to stress c (Return (of_nat (length bs))) s)"
      using ret not_waiting [of c] a_write(4) by auto
    moreover have "globals s' = globals (return_to stress c (Return (of_nat (length bs))) s)"
        "locals s' = locals (return_to stress c (Return (of_nat (length bs))) s)"
      unfolding a_write(1) by (simp_all add: return_to_stress)
    moreover have "mach s' = mach s" unfolding a_write(1) by simp
    ultimately show ?thesis using places(4) parked' by simp
  next
    case (a_compute c)
    have "c < 60" using callingD(4) [OF a_compute(2) app] by simp
    then have "?places s'" unfolding a_compute(1) using ret not_waiting [of c] a_compute(4) by auto
    moreover have "mach s' = mach s" unfolding a_compute(1) by simp
    ultimately show ?thesis using places(4) parked' by simp
  next
    case (a_now c)
    have "c < 60" using callingD(4) [OF a_now(2) app] by simp
    then have "?places s'" unfolding a_now(1) using ret not_waiting [of c] a_now(4) by auto
    moreover have "mach s' = mach s" unfolding a_now(1) by simp
    ultimately show ?thesis using places(4) parked' by simp
  next
    case (a_lock c j out k)
    then show ?thesis using stress_no_lock(2) by simp
  next
    case (a_lock_resume c m out k)
    then show ?thesis using app_invD(5) [OF app, of c] stress_no_lock(2) by simp
  next
    case (a_unlock c j out k)
    then show ?thesis using stress_no_lock(3) by simp
  next
    case (a_create c out k)
    then show ?thesis using stress_no_lock(4) by simp
  next
    case (a_wait c d out k)
    have c: "c < 60" using callingD(4) [OF a_wait(2) app] by simp
    have "d = task_num (locals s c)" using a_wait(4) by (auto simp: stress_request_def split: stress_pc.splits)
    then have d: "d = of_nat c" using places(1) c by simp
    have u: "unat d = c" using c d by (simp add: unat_lt_of_nat_iff)
    then have "\<not> d > 62" using c by (simp add: word_less_nat_alt)
    note w = a_wait_parks [OF app a_wait(2,5) this, unfolded u]
    have "?places s'" unfolding a_wait(1) w(1) using places by simp
    moreover have "parked t t s'" if "4 \<le> t" "t < 60" "conts (mach s') t = In_wait" for t
    proof (cases "t = c")
      case True
      then show ?thesis unfolding a_wait(1) parked_def using w(2) by simp
    next
      case False
      then have "conts (mach s) t = In_wait" using that(3) unfolding a_wait(1) by simp
      then show ?thesis using places(4) parked' that by simp
    qed
    ultimately show ?thesis by blast
  next
    case (a_wait_resume c)
    have c: "c < 60" using running_task [OF app a_wait_resume(2)] a_wait_resume(3) by simp
    have "c < 4"
      using places(4) parked_not_current [OF app, of c c] a_wait_resume(2,3) c by (meson not_le)
    then have "?places (return_to stress c (Return 0) s)" using ret c by auto
    then have "?places s'" unfolding a_wait_resume(1) mach_only .
    moreover have "conts (mach s') = (conts (mach s))(c := User)" unfolding a_wait_resume(1) by simp
    ultimately show ?thesis using places(4) parked' by auto
  next
    case (a_sleep c msec)
    have c: "c < 60" using callingD(4) [OF a_sleep(2) app] by simp
    let ?o = "sleep_enter msec (mk (mach s))"
    have "?o = Return 0 \<or> (\<exists>t. ?o = Spin t)" by (auto simp: sleep_enter_def Let_def)
    then have "?places (return_to stress c ?o s)"
      using ret [OF c, of 0] not_waiting [of c] a_sleep(4) places by auto
    then have "?places s'" unfolding a_sleep(1) mach_only .
    moreover have "conts (mach s') = (conts (mach s))(c := cont_after User ?o)" unfolding a_sleep(1) by simp
    moreover have "cont_after User ?o \<noteq> In_wait" by (simp add: sleep_enter_def Let_def)
    ultimately show ?thesis using places(4) parked' by auto
  next
    case (a_sleep_done c target)
    have c: "c < 60" using running_task [OF app a_sleep_done(2)] a_sleep_done(3) by simp
    have "\<exists>x. stress_request (locals s c) = Sleep x" using app_invD(5) [OF app, of c] a_sleep_done(3) by simp
    then have "?places (return_to stress c (Return 0) s)" using ret [OF c, of 0] not_waiting [of c] by auto
    then have "?places s'" unfolding a_sleep_done(1) mach_only .
    moreover have "conts (mach s') = (conts (mach s))(c := User)" unfolding a_sleep_done(1) by simp
    ultimately show ?thesis using places(4) parked' by auto
  next
    case (a_tick rd b b' k)
    then show ?thesis using places parked' by simp
  qed
  then show ?thesis using app' sched' by (simp add: stress_inv_def)
qed

lemma stress_runs:
  assumes "stress_inv t0 0 s0"
  shows "atimed stress s0 n s \<Longrightarrow> n < 2 ^ 32 - 1 \<Longrightarrow> stress_inv t0 n s"
proof (induction rule: atimed.induct)
  case at_start
  then show ?case using assms by simp
next
  case (at_step n s s')
  then show ?case using stress_step [of t0 n s s'] by simp
qed

section \<open>The start\<close>

lemma stress_tasks_nth:
  assumes "i < 60"
  shows "stress_tasks fun1 fun2 ! i = \<lparr>lambda = (if i < 59 then fun1 else fun2), data = of_nat i,
    stack_pos = of_nat (0xa2000000 + 0x10000 * i), task_C = (if i < 59 then of_nat (i + 1) else 0),
    task_T = of_nat (if i < 59 then (i + 1) * 100 else 9000)\<rparr>"
proof (cases "i < 59")
  case True
  then show ?thesis by (simp add: stress_tasks_def NUM_TASK_def nth_append)
next
  case False
  then have "i = 59" using assms by simp
  then show ?thesis by (simp add: stress_tasks_def NUM_TASK_def END_TIME_def nth_append)
qed

lemma length_stress_tasks: "length (stress_tasks fun1 fun2) = 60"
  by (simp add: stress_tasks_def NUM_TASK_def)

lemma stress_tasks_ok:
  assumes "functions_ok [fun1, fun2]"
  shows "\<forall>i<60. task_ok (stress_tasks fun1 fun2 ! i)"
    "sort_tasks 60 (stress_tasks fun1 fun2) = Some (stress_tasks fun1 fun2)"
    "last_ratio (stress_tasks fun1 fun2) 60 \<le> 1"
proof -
  let ?ts = "stress_tasks fun1 fun2"
  have T: "unat (task_T (?ts ! i)) = (if i < 59 then (i + 1) * 100 else 9000)" if "i < 60" for i
    unfolding stress_tasks_nth [OF that] using that by (simp add: unat_lt_of_nat_iff del: of_nat_mult of_nat_add)
  show "\<forall>i<60. task_ok (?ts ! i)"
  proof (intro allI impI)
    fix i :: nat assume i: "i < 60"
    have "unat (of_nat (0xa2000000 + 0x10000 * i) :: u32) = 0xa2000000 + 0x10000 * i"
      using i by (intro unat_lt_of_nat_iff) simp
    then have "\<not> bad_user_addr (stack_pos (?ts ! i))"
      unfolding stress_tasks_nth [OF i] using i
      by (simp add: bad_user_addr_def word_less_nat_alt del: of_nat_mult of_nat_add)
    moreover have "task_T (?ts ! i) \<noteq> 0" using T [OF i] by (auto split: if_splits)
    ultimately show "task_ok (?ts ! i)"
      using assms unfolding task_ok_def stress_tasks_nth [OF i] by (simp add: functions_ok_def)
  qed
  have "sorted_wrt (<) (map task_T ?ts)"
    unfolding sorted_wrt_iff_nth_less length_map length_stress_tasks
  proof (intro allI impI)
    fix i j :: nat assume ij: "i < j" "j < 60"
    then have "unat (task_T (?ts ! i)) < unat (task_T (?ts ! j))" using T [of i] T [of j] by (auto split: if_splits)
    then show "map task_T ?ts ! i < map task_T ?ts ! j"
      using ij by (simp add: word_less_nat_alt length_stress_tasks)
  qed
  from sort_tasks_ascending [OF this] show "sort_tasks 60 ?ts = Some ?ts" by (simp add: length_stress_tasks)
  show "last_ratio ?ts 60 \<le> 1" using stress_tasks_nth [of 59] by (simp add: last_ratio_def)
qed

lemma stress_starts:
  assumes k: "booted k" and fs: "functions_ok [fun1, fun2]" and addr: "\<not> bad_user_addr tasks"
  shows "\<exists>s0. stress_main fun1 fun2 launch_task idle tasks k = Some (Running s0) \<and> stress_inv (system_time k) 0 s0"
proof -
  let ?ts = "stress_tasks fun1 fun2" and ?n = "of_nat NUM_TASK :: u32"
    and ?g = "\<lparr>once = 0, flag = 0, score = replicate (NUM_TASK - 1) 0\<rparr>" and ?entry = "stress_entry fun1 fun2"
  have n: "unat ?n = 60" by (simp add: NUM_TASK_def)
  have q: "quiet k" "owner (abs_state k) = (\<lambda>_. None)" using k by (simp_all add: booted_def)
  note ok = stress_tasks_ok [OF fs]
  have pos: "0 < unat ?n" "unat ?n < 64" "unat ?n \<le> length ?ts" using n length_stress_tasks by simp_all
  note start = launched_start [of k ?n ?ts tasks ?ts launch_task idle stress ?entry ?g "line_text ''Test begins''",
    OF q pos addr, unfolded n, OF ok(1,3,2)]
  obtain k' where k': "task_create_syscall launch_task idle tasks ?ts ?n k = Some (Switched, ?ts, k')"
      "app_inv stress {..<60} (launched ?entry ?g (line_text ''Test begins'') k')"
      "\<forall>t<60. locals (launched ?entry ?g (line_text ''Test begins'') k') t = ?entry (lambda (?ts ! t)) (data (?ts ! t))"
    by (rule exE [OF start]) (elim conjE, rule that, assumption+)
  let ?s = "launched ?entry ?g (line_text ''Test begins'') k'"
  have "on_schedule (system_time k) 0 k'"
    using task_create_wf [OF q(1), of ?n ?ts tasks launch_task idle] pos addr ok k'(1) unfolding n by auto
  moreover have "task_num (locals ?s t) = of_nat t \<and> stress_place t ?g (spot (locals ?s t))" if "t < 60" for t
  proof -
    have "locals ?s t = ?entry (if t < 59 then fun1 else fun2) (of_nat t)"
      using k'(3) that by (simp add: stress_tasks_nth)
    moreover have "fun2 \<noteq> fun1" using fs by (auto simp: functions_ok_def)
    ultimately show ?thesis
      using that by (cases "t = 59") (simp_all add: stress_entry_def stress_place_def functions_ok_def NUM_TASK_def)
  qed
  ultimately have "stress_inv (system_time k) 0 ?s"
    using k'(2) by (simp add: stress_inv_def launched_def NUM_TASK_def)
  then show ?thesis using k'(1) by (simp add: stress_main_def)
qed

end
