(* ===== verification/Simple.thy ===== *)
theory Simple
  imports Calm
begin

text \<open>
  tasks/simple_mutex/simple_mutex.c: three tasks that lock and unlock one mutex in an order fixed by
  the periods of their devices. In a calm run (theory \<open>Calm\<close>) the letters on the console are those
  that the comment at the head of the file announces.
\<close>

section \<open>The program\<close>

text \<open>
  The places in the three functions; an integer is the mutex number that was loaded for a call. A test of
  one of the variables \<open>even_t\<close>, which only one task uses, is one step with the load of \<open>mid\<close>, and the
  two assignments behind the first letter are one step.
\<close>

datatype simple_pc =
    T1_create | T1_test | T1_first | T1_once | T1_bang | T1_spin | T1_set | T1_lock int | T1_e | T1_even | T1_unlock int | T1_wait
  | T2_test | T2_first | T2_set | T2_lock int | T2_S | T2_wait
  | T3_put | T3_test | T3_lock int | T3_set | T3_unlock int | T3_wait
  | T_panic string | T_stop

record simple_local =
  simple_place :: simple_pc
  letter :: u32

record simple_globals =
  even_t1 :: u32
  passed_once :: u32
  even_t2 :: u32
  even_t3 :: u32
  mid :: u32

definition simple_request :: "simple_local \<Rightarrow> request" where
  "simple_request l = (case simple_place l of
     T1_create \<Rightarrow> Create
   | T1_first \<Rightarrow> Send (int_bytes (letter l))
   | T1_bang \<Rightarrow> Send (int_bytes 0x21)
   | T1_lock m \<Rightarrow> Lock m
   | T1_e \<Rightarrow> Send (int_bytes 0x65)
   | T1_unlock m \<Rightarrow> Unlock m
   | T1_wait \<Rightarrow> Wait 0
   | T2_first \<Rightarrow> Send (int_bytes (letter l))
   | T2_lock m \<Rightarrow> Lock m
   | T2_S \<Rightarrow> Send (int_bytes 0x53)
   | T2_wait \<Rightarrow> Wait 1
   | T3_put \<Rightarrow> Send (int_bytes (letter l))
   | T3_lock m \<Rightarrow> Lock m
   | T3_unlock m \<Rightarrow> Unlock m
   | T3_wait \<Rightarrow> Wait 2
   | T_panic s \<Rightarrow> Send (text_bytes s @ [10])
   | _ \<Rightarrow> Compute)"

text \<open>Where a task goes on, given the result \<open>r\<close> of the request.\<close>

fun simple_next :: "simple_globals \<Rightarrow> u32 \<Rightarrow> simple_pc \<Rightarrow> simple_pc" where
  "simple_next g r T1_create = T1_test"
| "simple_next g r T1_test = (if even_t1 g \<noteq> 0 then T1_first else T1_lock (sint (mid g)))"
| "simple_next g r T1_first = T1_once"
| "simple_next g r T1_once = (if 0 <s passed_once g then T1_bang else T1_set)"
| "simple_next g r T1_bang = T1_spin"
| "simple_next g r T1_spin = T1_spin"
| "simple_next g r T1_set = T1_wait"
| "simple_next g r (T1_lock _) = T1_e"
| "simple_next g r T1_e = T1_even"
| "simple_next g r T1_even = T1_unlock (sint (mid g))"
| "simple_next g r (T1_unlock _) = T1_wait"
| "simple_next g r T1_wait = (if r <s 0 then T_panic ''Dev 0 failed'' else T1_test)"
| "simple_next g r T2_test = (if even_t2 g \<noteq> 0 then T2_first else T2_lock (sint (mid g)))"
| "simple_next g r T2_first = T2_set"
| "simple_next g r T2_set = T2_wait"
| "simple_next g r (T2_lock _) = T2_S"
| "simple_next g r T2_S = T2_wait"
| "simple_next g r T2_wait = (if r <s 0 then T_panic ''Dev 1 failed'' else T2_test)"
| "simple_next g r T3_put = T3_test"
| "simple_next g r T3_test = (if even_t3 g \<noteq> 0 then T3_lock (sint (mid g)) else T3_unlock (sint (mid g)))"
| "simple_next g r (T3_lock _) = T3_set"
| "simple_next g r T3_set = T3_wait"
| "simple_next g r (T3_unlock _) = T3_wait"
| "simple_next g r T3_wait = (if r <s 0 then T_panic ''Dev 2 failed'' else T3_put)"
| "simple_next g r (T_panic _) = T_stop"
| "simple_next g r T_stop = T_stop"

text \<open>The wrappers also store results in \<open>errno\<close>, which this program does not use.\<close>

definition simple_effect :: "u32 \<Rightarrow> simple_pc \<Rightarrow> simple_globals \<Rightarrow> simple_globals" where
  "simple_effect r p g = (case p of
     T1_create \<Rightarrow> g\<lparr>mid := fst (create_result r 0)\<rparr>
   | T1_spin \<Rightarrow> g\<lparr>mid := mid g + 1\<rparr>
   | T1_set \<Rightarrow> g\<lparr>passed_once := 1, even_t1 := 0\<rparr>
   | T1_even \<Rightarrow> g\<lparr>even_t1 := 1\<rparr>
   | T2_set \<Rightarrow> g\<lparr>even_t2 := 0\<rparr>
   | T3_set \<Rightarrow> g\<lparr>even_t3 := 0\<rparr>
   | _ \<Rightarrow> g)"

definition simple :: "(simple_globals, simple_local) program" where
  "simple = \<lparr>request_of = simple_request,
     returns = (\<lambda>r g l. (simple_effect r (simple_place l) g, l\<lparr>simple_place := simple_next g r (simple_place l)\<rparr>))\<rparr>"

definition simple_tasks :: "u32 \<Rightarrow> u32 \<Rightarrow> u32 \<Rightarrow> task list" where
  "simple_tasks f1 f2 f3 =
     [\<lparr>lambda = f1, data = 0x73, stack_pos = 0xa2000000, task_C = 1, task_T = 100\<rparr>,
      \<lparr>lambda = f2, data = 0x75, stack_pos = 0xa1000000, task_C = 1, task_T = 200\<rparr>,
      \<lparr>lambda = f3, data = 0x63, stack_pos = 0xa1200000, task_C = 1, task_T = 500\<rparr>]"

definition simple_entry :: "u32 \<Rightarrow> u32 \<Rightarrow> u32 \<Rightarrow> u32 \<Rightarrow> u32 \<Rightarrow> simple_local" where
  "simple_entry f1 f2 f3 f s = \<lparr>simple_place = (if f = f1 then T1_create else if f = f2 then T2_test
     else if f = f3 then T3_put else T_stop), letter = s\<rparr>"

definition simple_main ::
  "u32 \<Rightarrow> u32 \<Rightarrow> u32 \<Rightarrow> u32 \<Rightarrow> u32 \<Rightarrow> u32 \<Rightarrow> kernel \<Rightarrow> (simple_globals, simple_local) app main_result option" where
  "simple_main f1 f2 f3 launch_task idle tasks k = do {
     (out, _, k) \<leftarrow> task_create_syscall launch_task idle tasks (simple_tasks f1 f2 f3) 3 k;
     started out (launched (simple_entry f1 f2 f3)
         \<lparr>even_t1 = 1, passed_once = 0, even_t2 = 1, even_t3 = 1, mid = - 1\<rparr> [] k)
       (text_bytes ''WTF!'' @ [10, 10]) }"

section \<open>Stepping\<close>

text \<open>
  The state at tick \<open>n\<close>: the running task \<open>cur\<close>, the runnable tasks \<open>R\<close>, the tasks that wait on the first
  three devices \<open>ws\<close>, the mutex (whether it is made, its owner, the tasks behind it), the variables, the places of
  the three tasks in the program and in the kernel, and the console.
\<close>

definition simple_sched :: "nat \<Rightarrow> nat set \<Rightarrow> nat list list \<Rightarrow> bool \<Rightarrow> nat option \<Rightarrow> nat list \<Rightarrow> sched_spec" where
  "simple_sched cur R ws made0 own0 mq = \<lparr>current = cur, runnable = R,
     waiting = (\<lambda>l. case l of Dev_head d \<Rightarrow> if d < 3 then ws ! d else [] | Mutex_head m \<Rightarrow> if m = 0 then mq else [] | _ \<Rightarrow> []),
     created = (\<lambda>m. m = 0 \<and> made0), owner = (\<lambda>m. if m = 0 then own0 else None)\<rparr>"

definition snap :: "(nat \<Rightarrow> simple_local) \<Rightarrow> nat \<Rightarrow> sched_spec \<Rightarrow> simple_globals \<Rightarrow>
    simple_pc list \<Rightarrow> cont list \<Rightarrow> u8 list \<Rightarrow> (simple_globals, simple_local) calm" where
  "snap L n a g ps cs out = \<lparr>globals = g,
     locals = (\<lambda>t. if t < 3 then \<lparr>simple_place = ps ! t, letter = [0x73, 0x75, 0x63] ! t\<rparr> else L t),
     pending = (\<lambda>_. []), console = out, sched = a,
     place_of = (\<lambda>t. if t < 3 then cs ! t else User), ticked = n\<rparr>"

abbreviation simple_leads :: "u32 \<Rightarrow> (simple_globals, simple_local) calm \<Rightarrow> (simple_globals, simple_local) calm \<Rightarrow> bool" where
  "simple_leads \<equiv> leads simple {..<3}"

text \<open>The mutex numbers at hand are not negative.\<close>

definition simple_ok :: "simple_pc list \<Rightarrow> bool" where
  "simple_ok ps \<longleftrightarrow> (\<forall>p\<in>set ps. \<forall>m. p \<in> {T1_lock m, T1_unlock m, T2_lock m, T3_lock m, T3_unlock m} \<longrightarrow> 0 \<le> m)"

lemma simple_calm_ok: "simple_ok ps \<Longrightarrow> length ps = 3 \<Longrightarrow> calm_ok simple {..<3} (snap L n a g ps cs out)"
  unfolding calm_ok_def
proof
  fix t assume "simple_ok ps" "length ps = 3" "t \<in> {..<3 :: nat}"
  then have "ps ! t \<in> set ps" and ok: "simple_ok ps" by simp_all
  then have "\<forall>m. ps ! t \<in> {T1_lock m, T1_unlock m, T2_lock m, T3_lock m, T3_unlock m} \<longrightarrow> 0 \<le> m"
    by (simp add: simple_ok_def)
  then show "request_ok (request_of simple (locals (snap L n a g ps cs out) t))"
    using \<open>t \<in> {..<3}\<close>
    by (cases "ps ! t") (simp_all add: snap_def simple_def simple_request_def request_ok_def)
qed

lemma snap_simps [simp]:
  "sched (snap L n a g ps cs out) = a" "pending (snap L n a g ps cs out) = (\<lambda>_. [])"
  "ticked (snap L n a g ps cs out) = n" "console (snap L n a g ps cs out) = out"
  "c < 3 \<Longrightarrow> place_of (snap L n a g ps cs out) c = cs ! c"
  "c < 3 \<Longrightarrow> locals (snap L n a g ps cs out) c = \<lparr>simple_place = ps ! c, letter = [0x73, 0x75, 0x63] ! c\<rparr>"
  by (simp_all add: snap_def)

lemma snap_update:
  assumes "c < 3" "length ps = 3" "length cs = 3"
  shows "return_to simple c (Return r) (snap L n a g ps cs out) =
      snap L n a (simple_effect r (ps ! c) g) (ps[c := simple_next g r (ps ! c)]) cs out"
    "(snap L n a g ps cs out)\<lparr>sched := b, place_of := (place_of (snap L n a g ps cs out))(c := x)\<rparr> = snap L n b g ps (cs[c := x]) out"
  using assms by (auto simp: snap_def return_to_def simple_def fun_eq_iff nth_list_update)

lemma request_simple [simp]: "request_of simple l = simple_request l"
  by (simp add: simple_def)

text \<open>Task \<open>c\<close> makes the request \<open>req\<close>.\<close>

definition simple_asks :: "nat \<Rightarrow> simple_pc list \<Rightarrow> cont list \<Rightarrow> request \<Rightarrow> bool" where
  "simple_asks c ps cs req \<longleftrightarrow> c < 3 \<and> length ps = 3 \<and> length cs = 3 \<and> simple_ok ps \<and> cs ! c = User \<and>
     simple_request \<lparr>simple_place = ps ! c, letter = [0x73, 0x75, 0x63] ! c\<rparr> = req"

text \<open>Where it goes on, and with which variables, when the result is \<open>r\<close>.\<close>

definition simple_goes :: "nat \<Rightarrow> u32 \<Rightarrow> simple_globals \<Rightarrow> simple_pc list \<Rightarrow> simple_globals \<Rightarrow> simple_pc list \<Rightarrow> bool" where
  "simple_goes c r g ps g' ps' \<longleftrightarrow> g' = simple_effect r (ps ! c) g \<and> ps' = ps[c := simple_next g r (ps ! c)]"

lemma simple_computes:
  assumes asks: "simple_asks (current a) ps cs Compute" and goes: "simple_goes (current a) 0 g ps g' ps'"
    and rest: "simple_leads t0 (snap L n a g' ps' cs out) s"
  shows "simple_leads t0 (snap L n a g ps cs out) s"
  by (rule leads_trans [OF leads_step [OF simple_calm_ok _] rest])
    (use asks goes in \<open>simp_all add: simple_asks_def simple_goes_def calm_step_def Let_def snap_update\<close>)

lemma simple_sends:
  assumes asks: "simple_asks (current a) ps cs (Send bs)"
    and goes: "simple_goes (current a) (of_nat (length bs)) g ps g' ps'" "simple_ok ps'" and out: "out' = out @ bs"
    and rest: "simple_leads t0 (snap L n a g' ps' cs out') s"
  shows "simple_leads t0 (snap L n a g ps cs out) s"
proof -
  let ?a = "snap L n a g ps cs out" and ?b = "snap L n a g' ps' cs out"
  let ?c = "current a"
  have c: "?c < 3" "length ps = 3" "length cs = 3" using asks by (simp_all add: simple_asks_def)
  have "return_to simple ?c (Return (of_nat (length bs))) ?a = ?b"
    using goes(1) by (simp add: simple_goes_def snap_update(1) [OF c])
  moreover have "length ps' = 3" using c goes(1) by (simp add: simple_goes_def)
  ultimately have "simple_leads t0 ?a (?b\<lparr>console := console ?b @ bs\<rparr>)"
    using asks goes(2) by (intro leads_send) (simp_all add: simple_calm_ok simple_asks_def)
  moreover have "?b\<lparr>console := console ?b @ bs\<rparr> = snap L n a g' ps' cs out'"
    unfolding out by (simp add: snap_def)
  ultimately show ?thesis using rest leads_trans by fastforce
qed

text \<open>A system call, with the state \<open>a'\<close> of the scheduler after it, that returns or switches.\<close>

lemma snap_call:
  assumes c: "c < 3" "length ps = 3" "length cs = 3" "simple_ok ps"
    and step: "calm_step simple t0 (snap L n a g ps cs out) = calm_call simple c x (res, a') (snap L n a g ps cs out)"
  shows "res = Return r \<Longrightarrow> simple_leads t0 (snap L n a' (simple_effect r (ps ! c) g) (ps[c := simple_next g r (ps ! c)]) (cs[c := User]) out) b \<Longrightarrow>
      simple_leads t0 (snap L n a g ps cs out) b"
    "res = Switched \<Longrightarrow> simple_leads t0 (snap L n a' g ps (cs[c := x]) out) b \<Longrightarrow> simple_leads t0 (snap L n a g ps cs out) b"
proof -
  let ?s = "snap L n a g ps cs out"
  have step1: "simple_leads t0 ?s (calm_call simple c x (res, a') ?s)" using step c by (intro leads_step simple_calm_ok)
  have "calm_call simple c x (res, a') ?s = return_to simple c res (snap L n a' g ps (cs[c := cont_after x res]) out)"
    unfolding calm_call_def by (simp add: snap_update(2) [OF c(1-3)])
  moreover have "return_to simple c (Return r) (snap L n a' g ps (cs[c := User]) out) =
      snap L n a' (simple_effect r (ps ! c) g) (ps[c := simple_next g r (ps ! c)]) (cs[c := User]) out"
    by (rule snap_update(1)) (use c in simp_all)
  moreover have "return_to simple c Switched s = s" for s by (simp add: return_to_def)
  ultimately show "res = Return r \<Longrightarrow> simple_leads t0 (snap L n a' (simple_effect r (ps ! c) g) (ps[c := simple_next g r (ps ! c)]) (cs[c := User]) out) b \<Longrightarrow> simple_leads t0 ?s b"
      "res = Switched \<Longrightarrow> simple_leads t0 (snap L n a' g ps (cs[c := x]) out) b \<Longrightarrow> simple_leads t0 ?s b"
    using step1 leads_trans by fastforce+
qed

lemma snap_request:
  fixes n :: nat and ps :: "simple_pc list" and L :: "nat \<Rightarrow> simple_local" and g :: simple_globals and out :: "u8 list"
  assumes "current a = c" "c < 3" "cs ! c = User"
  defines "req \<equiv> simple_request \<lparr>simple_place = ps ! c, letter = [0x73, 0x75, 0x63] ! c\<rparr>"
    and "s \<equiv> snap L n a g ps cs out"
  shows "req = Lock i \<Longrightarrow> spec_lock (nat i) a = r \<Longrightarrow> calm_step simple t0 s = calm_call simple c (In_lock (nat i)) r s"
    "req = Unlock i \<Longrightarrow> spec_unlock (nat i) a = r \<Longrightarrow> calm_step simple t0 s = calm_call simple c User r s"
    "req = Create \<Longrightarrow> spec_create a = r \<Longrightarrow> calm_step simple t0 s = calm_call simple c User r s"
    "req = Wait d \<Longrightarrow> spec_event_wait (unat d) a = r \<Longrightarrow> calm_step simple t0 s = calm_call simple c In_wait r s"
  using assms(1-3) by (simp_all add: calm_step_def Let_def req_def s_def)

text \<open>A task that was switched away goes on.\<close>

lemma snap_back:
  assumes "current a = c" "c < 3" "cs ! c \<in> {In_wait, In_lock m}"
  shows "calm_step simple t0 (snap L n a g ps cs out) = calm_call simple c User (Return 0, a) (snap L n a g ps cs out)"
  using assms by (auto simp: calm_step_def Let_def)

text \<open>The calls on the state of the scheduler.\<close>

lemma simple_sched_calls:
  "spec_create (simple_sched c R ws False own0 mq) = (Return 0, simple_sched c R ws True own0 mq)"
  "spec_lock 0 (simple_sched c R ws True None mq) = (Return 0, simple_sched c R ws True (Some c) mq)"
  "t \<noteq> c \<Longrightarrow> spec_lock 0 (simple_sched c R ws True (Some t) mq) =
     (Switched, simple_sched (Min (R - {c})) (R - {c}) ws True (Some t) (mq @ [c]))"
  "spec_unlock 0 (simple_sched c R ws True (Some c) []) = (Return 0, simple_sched c R ws True None [])"
  "spec_unlock 0 (simple_sched c R ws True (Some c) (t # mq)) = (Return 0, simple_sched c (insert t R) ws True (Some t) mq)"
  "d < 3 \<Longrightarrow> length ws = 3 \<Longrightarrow> spec_event_wait d (simple_sched c R ws b own0 mq) =
     (Switched, simple_sched (Min (R - {c})) (R - {c}) (ws[d := ws ! d @ [c]]) b own0 mq)"
proof -
  have "[0..<32] = 0 # [1..<32 :: nat]" by (simp add: upt_conv_Cons)
  then show "spec_create (simple_sched c R ws False own0 mq) = (Return 0, simple_sched c R ws True own0 mq)"
    by (auto simp: spec_create_def simple_sched_def fun_eq_iff)
qed (auto simp: spec_lock_def spec_unlock_def spec_event_wait_def simple_sched_def spec_sleep_def spec_dispatch_def
      spec_wake_def fun_eq_iff nth_list_update split: lval.split)

text \<open>The clock. The first three devices are due every 100, 200 and 500 ticks; no task waits on another one.\<close>

lemma simple_due:
  assumes "0 < n" "n < 2 ^ 32"
  shows "0 \<in> due n \<longleftrightarrow> 100 dvd n" "1 \<in> due n \<longleftrightarrow> 200 dvd n" "2 \<in> due n \<longleftrightarrow> 500 dvd n"
  by (simp_all add: due_def dev_freq_def)

lemma simple_signal:
  assumes "length ws = 3" "D \<inter> {..<3} = E"
  defines "woken \<equiv> \<Union>d\<in>E. set (ws ! d)" and "ws' \<equiv> map (\<lambda>d. if d \<in> E then [] else ws ! d) [0..<3]"
  shows "spec_signal D (simple_sched c R ws b own0 mq) =
    simple_sched (if woken = {} then c else Min (R \<union> woken)) (R \<union> woken) ws' b own0 mq"
proof -
  let ?a = "simple_sched c R ws b own0 mq"
  have w: "(\<Union>d\<in>D. set (waiting ?a (Dev_head d))) = woken"
    using assms(2) unfolding woken_def by (auto simp: simple_sched_def split: if_splits)
  have q: "(\<lambda>l. if l \<in> Dev_head ` D then [] else waiting ?a l) = waiting (simple_sched c R ws' b own0 mq)"
    using assms(2) unfolding ws'_def by (auto simp: simple_sched_def fun_eq_iff split: lval.split)
  show ?thesis unfolding spec_signal_def w q Let_def by (auto simp: simple_sched_def spec_dispatch_def)
qed

lemma snap_tick:
  fixes n :: nat and ws :: "nat list list" and R :: "nat set"
  assumes "length ps = 3" "simple_ok ps" "length ws = 3"
  defines "E \<equiv> due (Suc n) \<inter> {..<3}"
  defines "woken \<equiv> \<Union>d\<in>E. set (ws ! d)" and "ws' \<equiv> map (\<lambda>d. if d \<in> E then [] else ws ! d) [0..<3]"
  shows "simple_leads t0 (snap L n (simple_sched 63 R ws b own0 mq) g ps cs out)
    (snap L (Suc n) (simple_sched (if woken = {} then 63 else Min (R \<union> woken)) (R \<union> woken) ws' b own0 mq) g ps cs out)"
proof (rule leads_step)
  show "calm_ok simple {..<3} (snap L n (simple_sched 63 R ws b own0 mq) g ps cs out)"
    using assms(1,2) by (simp add: simple_calm_ok)
  have idle: "current (simple_sched 63 R ws b own0 mq) = 63" by (simp add: simple_sched_def)
  show "calm_step simple t0 (snap L n (simple_sched 63 R ws b own0 mq) g ps cs out) =
      snap L (Suc n) (simple_sched (if woken = {} then 63 else Min (R \<union> woken)) (R \<union> woken) ws' b own0 mq) g ps cs out"
    unfolding woken_def ws'_def simple_signal [OF assms(3) meta_eq_to_obj_eq [OF E_def [symmetric]], symmetric]
    by (simp add: calm_step_def Let_def idle calm_tick_def) (simp add: snap_def)
qed

text \<open>While no device with a waiting task is due, the idle task runs.\<close>

lemma same_interval: "n div p = m div p \<Longrightarrow> n < i \<Longrightarrow> i \<le> m \<Longrightarrow> \<not> p dvd (i :: nat)"
proof
  assume "n div p = m div p" "n < i" "i \<le> m" "p dvd i"
  then have "i div p = n div p" by (metis div_le_mono le_antisym less_imp_le)
  then have "i = p * (n div p)" using \<open>p dvd i\<close> by (metis dvd_mult_div_cancel)
  then show False using \<open>n < i\<close> by (metis leD times_div_less_eq_dividend)
qed

lemma snap_idle:
  assumes ps: "length ps = 3" "simple_ok ps" and ws: "length ws = 3"
    and quiet: "\<forall>d<3. ws ! d = [] \<or> n div [100, 200, 500] ! d = m div [100, 200, 500] ! d"
  shows "n \<le> m \<Longrightarrow> m < 2 ^ 32 \<Longrightarrow>
    simple_leads t0 (snap L n (simple_sched 63 R ws b own0 mq) g ps cs out) (snap L m (simple_sched 63 R ws b own0 mq) g ps cs out)"
  using quiet
proof (induction "m - n" arbitrary: n)
  case 0
  then show ?case using leads_refl by auto
next
  case (Suc k)
  then have n: "n < m" by simp
  have "ws ! d = []" if "d \<in> due (Suc n) \<inter> {..<3}" for d
  proof (rule ccontr)
    assume "ws ! d \<noteq> []"
    moreover have d: "d = 0 \<or> d = 1 \<or> d = 2" using that by auto
    ultimately have "\<not> [100, 200, 500] ! d dvd Suc n"
      using Suc.prems(3) that n by (intro same_interval [of n _ m]) auto
    then show False using that d simple_due [of "Suc n"] Suc.prems n by auto
  qed
  then have none: "(\<Union>d\<in>due (Suc n) \<inter> {..<3}. set (ws ! d)) = {}"
      "map (\<lambda>d. if d \<in> due (Suc n) \<inter> {..<3} then [] else ws ! d) [0..<3] = ws"
    using ws by (auto intro!: nth_equalityI)
  have one: "simple_leads t0 (snap L n (simple_sched 63 R ws b own0 mq) g ps cs out) (snap L (Suc n) (simple_sched 63 R ws b own0 mq) g ps cs out)"
    using snap_tick [OF ps ws, of t0 L n R b own0 mq g cs out] unfolding none by simp
  have "n div p = Suc n div p \<and> Suc n div p = m div p" if "n div p = m div p" for p
    using that n by (metis Suc_leI div_le_mono le_antisym le_SucI order_refl)
  then have "\<forall>d<3. ws ! d = [] \<or> Suc n div [100, 200, 500] ! d = m div [100, 200, 500] ! d"
    using Suc.prems(3) by blast
  then show ?case using leads_trans [OF one Suc.hyps(1)] Suc.hyps(2) Suc.prems n by simp
qed

text \<open>The sleep up to tick \<open>Suc m\<close>, at which a device with a waiting task is due.\<close>

lemma three_tasks: "(\<forall>d<3. Q d) \<longleftrightarrow> (\<forall>d\<in>{0, 1, 2 :: nat}. Q d)"
  by (auto simp: less_Suc_eq numeral_eq_Suc)

lemma snap_until:
  assumes clock: "n \<le> m \<and> (\<forall>d\<in>{0, 1, 2}. ws ! d = [] \<or> n div [100, 200, 500] ! d = m div [100, 200, 500] ! d)"
    and "length ps = 3" "simple_ok ps" "length ws = 3" "Suc m < 2 ^ 32"
    and "due (Suc m) \<inter> {..<3} = E" "woken = (\<Union>d\<in>E. set (ws ! d))" "woken \<noteq> {}"
      "ws' = [if 0 \<in> E then [] else ws ! 0, if 1 \<in> E then [] else ws ! 1, if 2 \<in> E then [] else ws ! 2]" "c = Min (R \<union> woken)" "R' = R \<union> woken"
    and rest: "simple_leads t0 (snap L (Suc m) (simple_sched c R' ws' b own0 mq) g ps cs out) s"
  shows "simple_leads t0 (snap L n (simple_sched 63 R ws b own0 mq) g ps cs out) s"
proof -
  have "simple_leads t0 (snap L n (simple_sched 63 R ws b own0 mq) g ps cs out) (snap L m (simple_sched 63 R ws b own0 mq) g ps cs out)"
    using clock assms(2-5) three_tasks by (intro snap_idle) simp_all
  moreover have "ws' = map (\<lambda>d. if d \<in> E then [] else ws ! d) [0..<3]"
    using assms(9) by (simp add: upt_rec numeral_2_eq_2)
  moreover have "simple_leads t0 (snap L m (simple_sched 63 R ws b own0 mq) g ps cs out) (snap L (Suc m) (simple_sched c R' ws' b own0 mq) g ps cs out)"
    using snap_tick [OF assms(2-4), of t0 L m R b own0 mq g cs out] assms(8)
    unfolding assms(6,10,11) calculation(2) unfolding assms(7) by (simp only: if_False)
  ultimately show ?thesis using rest leads_trans by blast
qed

section \<open>The calls of a task\<close>

lemma current_simple [simp]: "current (simple_sched c R ws b own0 mq) = c"
  by (simp add: simple_sched_def)

lemma simple_returns:
  assumes asks: "simple_asks (current a) ps cs req" and req: "req \<in> {Create, Lock 0, Unlock 0}"
    and res: "(case req of Create \<Rightarrow> spec_create a | Lock _ \<Rightarrow> spec_lock 0 a | _ \<Rightarrow> spec_unlock 0 a) = (Return 0, a')"
    and goes: "simple_goes (current a) 0 g ps g' ps'"
    and rest: "simple_leads t0 (snap L n a' g' ps' cs out) s"
  shows "simple_leads t0 (snap L n a g ps cs out) s"
proof -
  let ?c = "current a"
  have c: "?c < 3" "length ps = 3" "length cs = 3" "simple_ok ps" "cs ! ?c = User" using asks by (simp_all add: simple_asks_def)
  have "\<exists>x. calm_step simple t0 (snap L n a g ps cs out) = calm_call simple ?c x (Return 0, a') (snap L n a g ps cs out)"
    using req res asks snap_request(1-3) [OF refl c(1,5), of ps] unfolding simple_asks_def by fastforce
  moreover have "cs[?c := User] = cs" using c(5) by (metis list_update_id)
  ultimately show ?thesis using snap_call(1) [OF c(1-4) _ refl] rest goes unfolding simple_goes_def by metis
qed

lemma simple_blocks:
  assumes asks: "simple_asks c ps cs (Lock 0)" "t \<noteq> c" and R: "R' = R - {c}" "c' = Min R'" and cs: "cs' = cs[c := In_lock 0]"
    and rest: "simple_leads t0 (snap L n (simple_sched c' R' ws True (Some t) (mq @ [c])) g ps cs' out) s"
  shows "simple_leads t0 (snap L n (simple_sched c R ws True (Some t) mq) g ps cs out) s"
  using asks unfolding simple_asks_def
  by (intro snap_call(2) [OF _ _ _ _ snap_request(1) [where i = 0, unfolded nat_0, OF _ _ _ _ simple_sched_calls(3)] refl
        rest [unfolded R cs]]) simp_all

lemma simple_waits:
  assumes asks: "simple_asks c ps cs (Wait d)" and d: "unat d < 3" "length ws = 3"
    and R: "R' = R - {c}" "c' = Min R'" and ws: "ws' = ws[unat d := ws ! unat d @ [c]]" and cs: "cs' = cs[c := In_wait]"
    and rest: "simple_leads t0 (snap L n (simple_sched c' R' ws' b own0 mq) g ps cs' out) s"
  shows "simple_leads t0 (snap L n (simple_sched c R ws b own0 mq) g ps cs out) s"
  using asks d unfolding simple_asks_def
  by (intro snap_call(2) [OF _ _ _ _ snap_request(4) [OF _ _ _ _ simple_sched_calls(6)] refl rest [unfolded R ws cs]]) simp_all

lemma simple_resumes:
  assumes away: "cs ! current a = In_wait \<or> cs ! current a = In_lock 0"
    and c: "current a < 3 \<and> length ps = 3 \<and> length cs = 3 \<and> simple_ok ps"
    and goes: "simple_goes (current a) 0 g ps g' ps'" and cs: "cs' = cs[current a := User]"
    and rest: "simple_leads t0 (snap L n a g' ps' cs' out) s"
  shows "simple_leads t0 (snap L n a g ps cs out) s"
proof -
  have "cs ! current a \<in> {In_wait, In_lock 0}" using away by simp
  then have "calm_step simple t0 (snap L n a g ps cs out) =
      calm_call simple (current a) User (Return 0, a) (snap L n a g ps cs out)"
    using c snap_back [OF refl] by blast
  then show ?thesis using c rest goes snap_call(1) [OF _ _ _ _ _ refl] unfolding cs simple_goes_def by blast
qed

section \<open>The run\<close>

lemma leads_eq: "a = b \<Longrightarrow> leads P T t0 a b"
  using leads_refl by simp

lemmas simple_steps = simple_computes simple_sends simple_waits simple_blocks simple_returns simple_resumes

definition letters :: "string \<Rightarrow> u8 list" where
  "letters s = concat (map (\<lambda>c. int_bytes (of_char c)) s)"

lemma simple_due_set:
  "0 < n \<Longrightarrow> n < 2 ^ 32 \<Longrightarrow> due n \<inter> {..<3} =
     (if 100 dvd n then {0} else {}) \<union> (if 200 dvd n then {1} else {}) \<union> (if 500 dvd n then {2} else {})"
proof -
  assume n: "0 < n" "n < 2 ^ 32"
  have "{..<3} = {0, 1, 2 :: nat}" by auto
  then show ?thesis using simple_due [OF n] by (simp add: Int_insert_right)
qed

lemma simple_letters:
  "letters ''suc'' = [0x73, 0, 0, 0, 0x75, 0, 0, 0, 0x63, 0, 0, 0]"
  "letters ''succeS'' = letters ''suc'' @ [0x63, 0, 0, 0, 0x65, 0, 0, 0, 0x53, 0, 0, 0]"
  "letters ''succeSs!'' = letters ''succeS'' @ [0x73, 0, 0, 0, 0x21, 0, 0, 0]"
  by (simp_all add: letters_def int_bytes_def)

lemmas simple_moves = simple_asks_def simple_ok_def simple_request_def simple_goes_def simple_effect_def
  create_result_def int_bytes_def simple_sched_calls
  insert_Diff_if word_sless_alt

text \<open>
  The five states in which the processor has nothing more to do: before the first tick at which a task is
  due, when the third task holds the mutex; at ticks 100 and 200, when the first two tasks are blocked behind it;
  at tick 500, when the mutex has gone to the first task and on to the second, which keeps it; at
  tick 600, when the first task has ended the text and counts.
\<close>

abbreviation simple_0 :: "(nat \<Rightarrow> simple_local) \<Rightarrow> (simple_globals, simple_local) calm" where
  "simple_0 L \<equiv> snap L 0 (simple_sched 63 {63} [[0], [1], [2]] True (Some 2) [])
      \<lparr>even_t1 = 0, passed_once = 1, even_t2 = 0, even_t3 = 0, mid = 0\<rparr>
      [T1_wait, T2_wait, T3_wait] [In_wait, In_wait, In_wait] (letters ''suc'')"

abbreviation simple_100 :: "(nat \<Rightarrow> simple_local) \<Rightarrow> (simple_globals, simple_local) calm" where
  "simple_100 L \<equiv> snap L 100 (simple_sched 63 {63} [[], [1], [2]] True (Some 2) [0])
      \<lparr>even_t1 = 0, passed_once = 1, even_t2 = 0, even_t3 = 0, mid = 0\<rparr>
      [T1_lock 0, T2_wait, T3_wait] [In_lock 0, In_wait, In_wait] (letters ''suc'')"

abbreviation simple_200 :: "(nat \<Rightarrow> simple_local) \<Rightarrow> (simple_globals, simple_local) calm" where
  "simple_200 L \<equiv> snap L 200 (simple_sched 63 {63} [[], [], [2]] True (Some 2) [0, 1])
      \<lparr>even_t1 = 0, passed_once = 1, even_t2 = 0, even_t3 = 0, mid = 0\<rparr>
      [T1_lock 0, T2_lock 0, T3_wait] [In_lock 0, In_lock 0, In_wait] (letters ''suc'')"

abbreviation simple_500 :: "(nat \<Rightarrow> simple_local) \<Rightarrow> (simple_globals, simple_local) calm" where
  "simple_500 L \<equiv> snap L 500 (simple_sched 63 {63} [[0], [1], [2]] True (Some 1) [])
      \<lparr>even_t1 = 1, passed_once = 1, even_t2 = 0, even_t3 = 0, mid = 0\<rparr>
      [T1_wait, T2_wait, T3_wait] [In_wait, In_wait, In_wait] (letters ''succeS'')"

abbreviation simple_600 :: "(nat \<Rightarrow> simple_local) \<Rightarrow> u32 \<Rightarrow> (simple_globals, simple_local) calm" where
  "simple_600 L m \<equiv> snap L 600 (simple_sched 0 {0, 1, 63} [[], [], [2]] True (Some 1) [])
      \<lparr>even_t1 = 1, passed_once = 1, even_t2 = 0, even_t3 = 0, mid = m\<rparr>
      [T1_spin, T2_wait, T3_wait] [User, In_wait, In_wait] (letters ''succeSs!'')"

lemmas simple_clock = snap_until [where m = 99] snap_until [where m = 199] snap_until [where m = 499] snap_until [where m = 599]

lemma simple_phases:
  "simple_leads t0 (snap L 0 (simple_sched 0 {0, 1, 2, 63} [[], [], []] False None [])
      \<lparr>even_t1 = 1, passed_once = 0, even_t2 = 1, even_t3 = 1, mid = - 1\<rparr>
      [T1_create, T2_test, T3_put] [User, User, User] []) (simple_0 L)"
  "simple_leads t0 (simple_0 L) (simple_100 L)" "simple_leads t0 (simple_100 L) (simple_200 L)"
  "simple_leads t0 (simple_200 L) (simple_500 L)" "simple_leads t0 (simple_500 L) (simple_600 L 0)"
  by (rule leads_eq, (simp add: simple_letters; fail) |
      rule simple_steps simple_clock, (simp add: simple_moves simple_due_set; fail)+)+

lemma simple_spins: "calm_step simple t0 (simple_600 L m) = simple_600 L (m + 1)"
  by (simp add: calm_step_def Let_def snap_update simple_request_def simple_effect_def)

section \<open>The start\<close>

lemma less_3: "t < (3 :: nat) \<longleftrightarrow> t = 0 \<or> t = 1 \<or> t = 2"
  by auto

lemma simple_starts:
  assumes k: "booted k" and fs: "functions_ok [f1, f2, f3]" and addr: "\<not> bad_user_addr tasks"
  shows "\<exists>s0. simple_main f1 f2 f3 launch_task idle tasks k = Some (Running s0) \<and> app_inv simple {..<3} s0 \<and>
    on_schedule (system_time k) 0 (mk (mach s0)) \<and>
    calm_of 0 s0 = snap (locals s0) 0 (simple_sched 0 {0, 1, 2, 63} [[], [], []] False None [])
      \<lparr>even_t1 = 1, passed_once = 0, even_t2 = 1, even_t3 = 1, mid = - 1\<rparr>
      [T1_create, T2_test, T3_put] [User, User, User] []"
proof -
  let ?ts = "simple_tasks f1 f2 f3" and ?entry = "simple_entry f1 f2 f3"
    and ?g = "\<lparr>even_t1 = 1, passed_once = 0, even_t2 = 1, even_t3 = 1, mid = - 1\<rparr>"
  have q: "quiet k" "owner (abs_state k) = (\<lambda>_. None)" and free: "\<forall>m<32. \<not> created (abs_state k) m"
    using k by (simp_all add: booted_def)
  have n: "unat (3 :: u32) = 3" by simp
  have pos: "0 < unat (3 :: u32)" "unat (3 :: u32) < 64" "unat (3 :: u32) \<le> length ?ts" by (simp_all add: simple_tasks_def)
  have ok: "\<forall>i<3. task_ok (?ts ! i)"
    using fs by (auto simp: less_3 simple_tasks_def task_ok_def functions_ok_def bad_user_addr_def)
  have ratio: "last_ratio ?ts 3 \<le> 1" by (simp add: last_ratio_def simple_tasks_def)
  have "sort_tasks (length ?ts) ?ts = Some ?ts" by (rule sort_tasks_ascending) (simp add: simple_tasks_def)
  then have sorted: "sort_tasks 3 ?ts = Some ?ts" by (simp add: simple_tasks_def numeral_3_eq_3)
  note start = launched_start [of k 3 ?ts tasks ?ts launch_task idle simple ?entry ?g "[]", OF q pos addr, unfolded n,
    OF ok ratio sorted]
  obtain k' where k': "task_create_syscall launch_task idle tasks ?ts 3 k = Some (Switched, ?ts, k')"
      "app_inv simple {..<3} (launched ?entry ?g [] k')"
      "\<forall>t<3. locals (launched ?entry ?g [] k') t = ?entry (lambda (?ts ! t)) (data (?ts ! t))"
    by (rule exE [OF start]) (elim conjE, rule that, assumption+)
  let ?s = "launched ?entry ?g [] k'"
  have sched: "on_schedule (system_time k) 0 k'" and
    abs: "abs_state k' = \<lparr>current = 0, runnable = insert 63 {..<3}, waiting = (\<lambda>_. []), created = created (abs_state k),
      owner = owner (abs_state k)\<rparr>"
    using task_create_wf [OF q(1), of 3 ?ts tasks launch_task idle] pos addr ok ratio k'(1) unfolding n by auto
  have "created (abs_state k) = (\<lambda>m. m = 0 \<and> False)" using free by (auto simp: abs_state_def fun_eq_iff)
  moreover have "insert 63 {..<3} = {0, 1, 2, 63 :: nat}" by auto
  ultimately have spec: "abs_state k' = simple_sched 0 {0, 1, 2, 63} [[], [], []] False None []"
    using q(2) unfolding abs by (simp add: simple_sched_def fun_eq_iff less_3 split: lval.split)
  have loc: "locals ?s = (\<lambda>t. if t < 3 then \<lparr>simple_place = [T1_create, T2_test, T3_put] ! t, letter = [0x73, 0x75, 0x63] ! t\<rparr>
      else locals ?s t)"
    using k'(3) fs by (auto simp: fun_eq_iff less_3 simple_tasks_def simple_entry_def functions_ok_def)
  have users: "(\<lambda>_. User) = (\<lambda>t. if t < 3 then [User, User, User] ! t else User)" by (auto simp: fun_eq_iff less_3)
  have "mach ?s = \<lparr>mk = k', conts = (\<lambda>_. User), holds = {}\<rparr>" by (simp add: launched_def)
  then have "calm_of 0 ?s = snap (locals ?s) 0 (simple_sched 0 {0, 1, 2, 63} [[], [], []] False None []) ?g
      [T1_create, T2_test, T3_put] [User, User, User] []"
    unfolding calm_of_def snap_def loc [symmetric] users [symmetric] by (simp add: spec)
  then show ?thesis using k'(1,2) sched by (simp add: simple_main_def) (simp add: launched_def)
qed

text \<open>A task set at an address that the kernel refuses.\<close>

lemma simple_refused:
  "bad_user_addr tasks \<Longrightarrow> simple_main f1 f2 f3 launch_task idle tasks k = Some (Finished (text_bytes ''WTF!'' @ [10, 10]))"
  by (simp add: simple_main_def task_create_syscall_def)

text \<open>All steps of the run are defined, and the text is complete after finitely many of them.\<close>

lemma simple_computed:
  fixes L :: "nat \<Rightarrow> simple_local" and t0 :: u32
  defines "a \<equiv> snap L 0 (simple_sched 0 {0, 1, 2, 63} [[], [], []] False None [])
      \<lparr>even_t1 = 1, passed_once = 0, even_t2 = 1, even_t3 = 1, mid = - 1\<rparr> [T1_create, T2_test, T3_put] [User, User, User] []"
  shows "\<exists>N. (\<forall>j. calm_ok simple {..<3} (calm_after simple t0 j a)) \<and>
    (\<forall>j. \<exists>bs. letters ''succeSs!'' = console (calm_after simple t0 j a) @ bs) \<and>
    (\<forall>j\<ge>N. console (calm_after simple t0 j a) = letters ''succeSs!'')"
proof -
  have "simple_leads t0 a (simple_600 L 0)"
    unfolding a_def by (intro leads_trans [OF simple_phases(1)] leads_trans [OF simple_phases(2)]
      leads_trans [OF simple_phases(3)] leads_trans [OF simple_phases(4)] simple_phases(5))
  then obtain N where "computes simple {..<3} t0 N a (simple_600 L 0)" unfolding leads_def by blast
  note N = computes_after [OF this]
  have spin: "calm_after simple t0 (N + i) a = simple_600 L (of_nat i)" for i
  proof (induction i)
    case 0
    then show ?case using N by simp
  next
    case (Suc i)
    then show ?case using simple_spins [of t0 L "of_nat i"] by (simp add: add.commute)
  qed
  have late: "\<exists>m. calm_after simple t0 j a = simple_600 L m" if "N \<le> j" for j
    using spin [of "j - N"] that by auto
  have "calm_ok simple {..<3} (calm_after simple t0 j a)" for j
    using N late [of j] simple_calm_ok [of "[T1_spin, T2_wait, T3_wait]"] by (cases "j < N") (auto simp: simple_ok_def)
  moreover have whole: "console (calm_after simple t0 j a) = letters ''succeSs!''" if "N \<le> j" for j
    using late [OF that] by auto
  moreover have "\<exists>bs. letters ''succeSs!'' = console (calm_after simple t0 j a) @ bs" for j
    using calm_after_console [of j "max j N" simple t0 a] whole [of "max j N"] by auto
  ultimately show ?thesis by blast
qed

lemma simple_starts_ok:
  assumes "booted k" "functions_ok [f1, f2, f3]" "\<not> bad_user_addr tasks"
  shows "\<exists>s0 N. simple_main f1 f2 f3 launch_task idle tasks k = Some (Running s0) \<and> app_inv simple {..<3} s0 \<and>
    on_schedule (system_time k) 0 (mk (mach s0)) \<and>
    (\<forall>j. calm_ok simple {..<3} (calm_after simple (system_time k) j (calm_of 0 s0))) \<and>
    (\<forall>j. \<exists>bs. letters ''succeSs!'' = console (calm_after simple (system_time k) j (calm_of 0 s0)) @ bs) \<and>
    (\<forall>j\<ge>N. console (calm_after simple (system_time k) j (calm_of 0 s0)) = letters ''succeSs!'')"
proof -
  obtain s0 where s0: "simple_main f1 f2 f3 launch_task idle tasks k = Some (Running s0)" "app_inv simple {..<3} s0"
      "on_schedule (system_time k) 0 (mk (mach s0))"
      "calm_of 0 s0 = snap (locals s0) 0 (simple_sched 0 {0, 1, 2, 63} [[], [], []] False None [])
        \<lparr>even_t1 = 1, passed_once = 0, even_t2 = 1, even_t3 = 1, mid = - 1\<rparr> [T1_create, T2_test, T3_put] [User, User, User] []"
    using simple_starts [OF assms] by blast
  then show ?thesis using simple_computed [of "system_time k" "locals s0"] unfolding s0(4) [symmetric] by metis
qed

lemma simple_run:
  assumes "booted k" "functions_ok [f1, f2, f3]" "\<not> bad_user_addr tasks"
  shows "\<exists>s0 N. simple_main f1 f2 f3 launch_task idle tasks k = Some (Running s0) \<and>
    (\<forall>j. \<exists>n s. calm_run simple s0 j n s) \<and>
    (\<forall>j n s. calm_run simple s0 j n s \<longrightarrow> (\<exists>bs. letters ''succeSs!'' = console s @ bs) \<and>
      (N \<le> j \<longrightarrow> console s = letters ''succeSs!''))"
proof -
  obtain s0 N where s0: "simple_main f1 f2 f3 launch_task idle tasks k = Some (Running s0)" "app_inv simple {..<3} s0"
      "on_schedule (system_time k) 0 (mk (mach s0))"
    and N: "\<forall>j. calm_ok simple {..<3} (calm_after simple (system_time k) j (calm_of 0 s0))"
      "\<forall>j. \<exists>bs. letters ''succeSs!'' = console (calm_after simple (system_time k) j (calm_of 0 s0)) @ bs"
      "\<forall>j\<ge>N. console (calm_after simple (system_time k) j (calm_of 0 s0)) = letters ''succeSs!''"
    using simple_starts_ok [OF assms] by blast
  have "console s = console (calm_after simple (system_time k) j (calm_of 0 s0))" if "calm_run simple s0 j n s" for j n s
    using calm_run_computed [OF s0(2,3) that] N(1) calm_of_simps(4) by metis
  then show ?thesis using s0(1) N calm_run_exists [OF s0(2,3)] by (intro exI [of _ s0] exI [of _ N]) simp
qed

end
