(* ===== verification/Splat.thy ===== *)
theory Splat
  imports Launch Render IO
begin

text \<open>
  The two applications that create no task. tasks/hello/hello.c writes a line and ends.
  tasks/splat/splat.c turns a cursor for ever: a frame, a sleep of 20 ticks, the next frame.
\<close>

section \<open>A kernel before the first task\<close>

text \<open>As long as no task has been created nobody sleeps on a device, and the timer interrupt only moves the clock.\<close>

definition no_sleepers :: "kernel \<Rightarrow> bool" where
  "no_sleepers k \<longleftrightarrow> length (devices k) = 63 \<and> (\<forall>d<63. dev_sleep_queue (devices k ! d) = None)"

lemma dev_wake_loop_none:
  "no_sleepers k \<Longrightarrow> i < 63 \<Longrightarrow> dev_wake_loop i flag k = Some (flag, k)"
  by (subst dev_wake_loop.simps) (simp add: no_sleepers_def)

lemma dev_update_none:
  assumes "no_sleepers k"
  shows "\<exists>k'. dev_update millis k = Some k' \<and> no_sleepers k' \<and> system_time k' = system_time k"
proof -
  let ?P = "\<lambda>(i :: nat) (flag, k'). \<not> flag \<and> no_sleepers k' \<and> system_time k' = system_time k"
  let ?body = "\<lambda>i (flag, k). do {
         x \<leftarrow> aget (devices k) i;
         if millis = next_match x then do {
           f \<leftarrow> aget dev_freq i;
           ds \<leftarrow> aset (devices k) i (x\<lparr>next_match := next_match x + f\<rparr>);
           dev_wake_loop i flag (k\<lparr>devices := ds\<rparr>) }
         else Some (flag, k) }"
  have "\<exists>s'. ?body j s = Some s' \<and> ?P (Suc j) s'" if j: "j < 63" and P: "?P j s" for j s
  proof -
    obtain k' where s: "s = (False, k')" "no_sleepers k'" "system_time k' = system_time k" using P by (cases s) auto
    let ?x = "devices k' ! j"
    let ?k = "k'\<lparr>devices := (devices k')[j := ?x\<lparr>next_match := next_match ?x + dev_freq ! j\<rparr>]\<rparr>"
    have "no_sleepers ?k" using s(2) j by (auto simp: no_sleepers_def nth_list_update)
    moreover have "length (devices k') = 63" using s(2) by (simp add: no_sleepers_def)
    ultimately show ?thesis
      using s j dev_wake_loop_none [of ?k j False] by (auto simp: dev_freq_def)
  qed
  then have "\<exists>s'. for_range 0 63 ?body (False, k) = Some s' \<and> ?P 63 s'"
    using assms by (intro for_range_inv) auto
  then show ?thesis by (auto simp: dev_update_def)
qed

lemma tick_none:
  assumes "no_sleepers k"
  shows "\<exists>b' k'. C_IRQ_Handler rd (b, k) = Some (b', k')"
    and "C_IRQ_Handler rd (b, k) = Some (b', k') \<Longrightarrow> no_sleepers k' \<and> system_time k' = system_time k + 1"
proof -
  have "no_sleepers (k\<lparr>system_time := system_time k + 1\<rparr>)" using assms by (simp add: no_sleepers_def)
  from dev_update_none [OF this, of "system_time k + 1"] show "\<exists>b' k'. C_IRQ_Handler rd (b, k) = Some (b', k')"
    "C_IRQ_Handler rd (b, k) = Some (b', k') \<Longrightarrow> no_sleepers k' \<and> system_time k' = system_time k + 1"
    by (auto simp: C_IRQ_Handler_def Let_def)
qed

section \<open>hello\<close>

definition hello_text :: "u8 list" where
  "hello_text = text_bytes ''Hello World'' @ [13, 10]"

text \<open>\<open>hello\<close> is the address of the string; its size counts the terminator.\<close>

definition hello_main :: "u32 \<Rightarrow> io \<Rightarrow> (u32 \<times> io) option" where
  "hello_main hello s = do {
     (_, s) \<leftarrow> write_syscall STDOUT_FILENO hello (of_nat (length hello_text + 1) - 1) s;
     Some (0, s) }"

lemma hello_prints:
  assumes "LEGEL_MEM_START_ADDR \<le> hello" "unat hello + 13 \<le> unat KERNEL_START_ADDR" "bytes (mem s) hello 13 = hello_text"
  shows "hello_main hello s = Some (0, s\<lparr>calls := calls s @ map Putc hello_text\<rparr>)"
proof -
  have n: "of_nat (length hello_text + 1) - 1 = (13 :: u32)" by (simp add: hello_text_def text_bytes_def)
  have "write_calls hello_text = map Putc hello_text" by (simp add: write_calls_def hello_text_def)
  then show ?thesis
    using write_syscall_ok [of hello 13 s] assms unfolding hello_main_def n by simp
qed

section \<open>splat\<close>

datatype splat_pc = Sp_start | Sp_frame nat | Sp_sleep nat | Sp_spin nat u32

record splat =
  sp_kern :: kernel
  sp_place :: splat_pc
  sp_shown :: "u8 list"

text \<open>The four frames rub out the character in front and print another one.\<close>

definition splat_frame :: "nat \<Rightarrow> u8 list" where
  "splat_frame i = [8, 32, 8, [0x7c, 0x2f, 0x2d, 0x5c] ! i]"

inductive splat_step :: "splat \<Rightarrow> splat \<Rightarrow> bool" where
  sp_start: "splat_step s (s\<lparr>sp_shown := sp_shown s @ text_bytes ''Start!'' @ [10], sp_place := Sp_frame 0\<rparr>)"
    if "sp_place s = Sp_start"
| sp_frame: "splat_step s (s\<lparr>sp_shown := sp_shown s @ splat_frame i, sp_place := Sp_sleep i\<rparr>)"
    if "sp_place s = Sp_frame i"
| sp_sleep: "splat_step s
      (s\<lparr>sp_place := (case sleep_enter 200 (sp_kern s) of Spin target \<Rightarrow> Sp_spin i target | _ \<Rightarrow> Sp_frame (Suc i mod 4))\<rparr>)"
    if "sp_place s = Sp_sleep i"
| sp_spin: "splat_step s (s\<lparr>sp_place := Sp_frame (Suc i mod 4)\<rparr>)"
    if "sp_place s = Sp_spin i target" "\<not> target > system_time (sp_kern s)"

text \<open>Runs, with the number of timer interrupts so far.\<close>

inductive splat_run :: "splat \<Rightarrow> nat \<Rightarrow> splat \<Rightarrow> bool" for s0 where
  sr_start: "splat_run s0 0 s0"
| sr_step: "splat_run s0 n s \<Longrightarrow> splat_step s s' \<Longrightarrow> splat_run s0 n s'"
| sr_tick: "splat_run s0 n s \<Longrightarrow> C_IRQ_Handler rd (b, sp_kern s) = Some (b', k) \<Longrightarrow>
    splat_run s0 (Suc n) (s\<lparr>sp_kern := k\<rparr>)"

definition splat_main :: "kernel \<Rightarrow> splat" where
  "splat_main k = \<lparr>sp_kern = k, sp_place = Sp_start, sp_shown = []\<rparr>"

text \<open>\<open>printf\<close> prints a frame as it stands.\<close>

lemma printf_frame:
  assumes "cstr m fmt (splat_frame i)" "i < 4" "length frame = PRINTF_BUFMAX"
  shows "\<exists>log'. printf frame fmt [] m log = Some (0, log') \<and> concat (map snd log') = concat (map snd log) @ splat_frame i"
proof -
  have "i = 0 \<or> i = 1 \<or> i = 2 \<or> i = 3" using assms(2) by auto
  then have t: "37 \<notin> set (splat_frame i)" "short_lines 0 (splat_frame i)" "0 \<notin> set (splat_frame i)"
    by (auto simp: splat_frame_def)
  show ?thesis by (rule printf_render [OF assms(1) render_literal_only [OF t(1)] t(2,3) assms(3)])
qed

text \<open>The text with the first \<open>j\<close> frames.\<close>

definition splat_text :: "nat \<Rightarrow> u8 list" where
  "splat_text j = text_bytes ''Start!'' @ [10] @ concat (map (\<lambda>i. splat_frame (i mod 4)) [0..<j])"

fun splat_at :: "nat \<Rightarrow> nat \<Rightarrow> nat \<Rightarrow> splat_pc \<Rightarrow> bool" where
  "splat_at t0 n j Sp_start \<longleftrightarrow> j = 0"
| "splat_at t0 n j (Sp_frame i) \<longleftrightarrow> i = j mod 4 \<and> 20 * j \<le> n"
| "splat_at t0 n j (Sp_sleep i) \<longleftrightarrow> (\<exists>j'. j = Suc j' \<and> i = j' mod 4 \<and> 20 * j' \<le> n)"
| "splat_at t0 n j (Sp_spin i target) \<longleftrightarrow> (\<exists>j'. j = Suc j' \<and> i = j' mod 4 \<and> 20 * j' \<le> n) \<and> t0 + 20 * j \<le> unat target"

definition splat_inv :: "nat \<Rightarrow> nat \<Rightarrow> nat \<Rightarrow> splat \<Rightarrow> bool" where
  "splat_inv t0 n j s \<longleftrightarrow> no_sleepers (sp_kern s) \<and> unat (system_time (sp_kern s)) = t0 + n \<and>
     sp_shown s = (if sp_place s = Sp_start then [] else splat_text j) \<and> splat_at t0 n j (sp_place s)"

lemma splat_sleeps:
  assumes "unat (system_time k) \<le> 429496000"
  shows "sleep_enter 200 k = Spin (system_time k + 20)" "unat (system_time k + 20) = unat (system_time k) + 20"
proof -
  show u: "unat (system_time k + 20) = unat (system_time k) + 20"
    using assms by (subst unat_add_lem [THEN iffD1]) simp_all
  have "unat ((200 + SYSTIME_PRECISION * system_time k) div SYSTIME_PRECISION) = unat (system_time k + 20)"
    using sleep_target [of 200 "system_time k"] assms u by simp
  then have target: "(200 + SYSTIME_PRECISION * system_time k) div SYSTIME_PRECISION = system_time k + 20"
    by (simp only: word_unat_eq_iff)
  have "system_time k < system_time k + 20" using u by (simp add: word_less_nat_alt)
  then show "sleep_enter 200 k = Spin (system_time k + 20)" unfolding sleep_enter_def Let_def target by simp
qed

lemma splat_step_inv:
  assumes inv: "splat_inv t0 n j s" and small: "t0 + n \<le> 429496000" and step: "splat_step s s'"
  shows "\<exists>j'. splat_inv t0 n j' s'"
proof -
  note i = inv [unfolded splat_inv_def]
  from step show ?thesis
  proof (cases rule: splat_step.cases)
    case sp_start
    then show ?thesis using i by (intro exI [of _ 0]) (simp add: splat_inv_def splat_text_def)
  next
    case (sp_frame c)
    then show ?thesis using i by (intro exI [of _ "Suc j"]) (simp add: splat_inv_def splat_text_def)
  next
    case (sp_sleep c)
    then show ?thesis using i small splat_sleeps [of "sp_kern s"] by (intro exI [of _ j]) (auto simp: splat_inv_def)
  next
    case (sp_spin c target)
    then show ?thesis
      using i by (intro exI [of _ j]) (auto simp: splat_inv_def word_less_nat_alt not_less mod_Suc_eq)
  qed
qed

lemma splat_run_inv:
  assumes start: "splat_inv t0 0 0 s0"
  shows "splat_run s0 n s \<Longrightarrow> t0 + n \<le> 429496000 \<Longrightarrow> \<exists>j. splat_inv t0 n j s"
proof (induction rule: splat_run.induct)
  case sr_start
  then show ?case using start by blast
next
  case (sr_step n s s')
  then show ?case using splat_step_inv by blast
next
  case (sr_tick n s rd b b' k)
  then obtain j where j: "splat_inv t0 n j s" by auto
  note i = j [unfolded splat_inv_def]
  have k: "no_sleepers k" "system_time k = system_time (sp_kern s) + 1" using tick_none(2) [OF _ sr_tick.hyps(2)] i by blast+
  have "unat (system_time k) = t0 + Suc n"
    using i sr_tick.prems unfolding k(2) by (subst unat_add_lem [THEN iffD1]) simp_all
  moreover have "splat_at t0 n j p \<Longrightarrow> splat_at t0 (Suc n) j p" for p by (cases p) auto
  ultimately show ?case using i k by (intro exI [of _ j]) (simp add: splat_inv_def)
qed

text \<open>There is always a next step, or the clock has to go on.\<close>

lemma splat_moves:
  assumes "splat_inv t0 n j s"
  shows "(\<exists>s'. splat_step s s') \<or> (\<exists>b' k. C_IRQ_Handler rd (b, sp_kern s) = Some (b', k))"
  using tick_none(1) assms by (auto simp: splat_inv_def)

lemma splat_frames:
  assumes "no_sleepers k" "splat_run (splat_main k) n s" "unat (system_time k) + n \<le> 429496000"
  shows "sp_shown s = [] \<or> (\<exists>j. sp_shown s = splat_text j \<and> j \<le> n div 20 + 1)"
proof -
  have "splat_inv (unat (system_time k)) 0 0 (splat_main k)" using assms(1) by (simp add: splat_inv_def splat_main_def)
  from splat_run_inv [OF this assms(2,3)] obtain j where j: "splat_inv (unat (system_time k)) n j s" by blast
  show ?thesis
  proof (cases "sp_place s = Sp_start")
    case False
    then have "j \<le> n div 20 + 1" using j by (cases "sp_place s") (auto simp: splat_inv_def)
    then show ?thesis using j False by (auto simp: splat_inv_def)
  qed (use j in \<open>simp add: splat_inv_def\<close>)
qed

end
