(* ===== verification/Spec2Isabelle.thy ===== *)
theory Spec2Isabelle
  imports Examples Preempt Calm Doscan Apps Typo Dagger Chaser Sys_Err Cyclone Stress Simple Splat
begin

text \<open>
  Verification of the Gravel kernel for the ARM Gumstix and of its C library.

  \<^bold>\<open>The program.\<close> The kernel (\<open>src/kernel\<close>) is loaded by U-Boot, redirects the SWI and IRQ vectors
  (\<open>hijack.c\<close>) and runs a user program. A program creates up to 64 periodic tasks with one
  system call (\<open>proc.c\<close>), which sorts them by period and gives task \<open>i\<close> priority \<open>i\<close> (\<open>sched.c\<close>);
  the dispatcher (\<open>ctx_switch.c\<close>) always switches to the smallest priority in the run queue
  (\<open>run_queue.c\<close>). Tasks wait for simulated devices (\<open>device.c\<close>), which the timer interrupt (\<open>irq.c\<close>)
  signals periodically, and for mutexes (\<open>mutex.c\<close>); both keep the waiting TCBs in linked lists.
  The remaining system calls are console input and output (\<open>io.c\<close>) and time (\<open>time.c\<close>). User
  programs (\<open>src/tasks\<close>) are linked with a small C library (\<open>src/tasks/libc\<close>).

  \<^bold>\<open>Conventions\<close> (theory \<open>Prelude\<close>). Machine integers are words of their width. A C function is a
  function from the state to an optional result: \<open>None\<close> means that C defines no result (an array
  index out of range, a null pointer, an endless loop). Structures are records with the names of
  their fields; pointers to TCBs are optional indices into \<open>system_tcb\<close>; memory is a function from
  addresses to bytes. Loops are recursive functions: primitive recursive or with a termination
  proof when they end, \<open>partial_function (option)\<close> when they may not; no fuel is used.

  \<^bold>\<open>The kernel.\<close>
  \<open>Config\<close>: the constants of \<open>config.h\<close>, \<open>errno.h\<close>, \<open>psr.h\<close>, \<open>systime.h\<close>.
  \<open>Run_Queue\<close>: \<open>run_queue.c\<close>. The bitmaps and the unmap table implement a finite map with a minimum;
  the locale \<open>ready_queue\<close> states this contract and is interpreted on the code.
  \<open>Kernel\<close>: the kernel's data as one record, the interrupt mask and \<open>ctx_switch.c\<close>. The calls end with
  an \<open>outcome\<close>: a value, a switch to another task, an endless loop, or a wait for the clock.
  \<open>Sleep_List\<close>, \<open>Invariant\<close>, \<open>Wait_Lists\<close>: the sleep lists as linked lists through pointer cells, the
  kernel invariant \<open>kernel_wf\<close> (disjoint lists without cycles, sleepers are not ready, every TCB has
  its index as priority, a mutex has waiters only when held), the abstract scheduler state
  \<open>sched_spec\<close> with the abstraction \<open>abs_state\<close>, and the interface \<open>wait_lists\<close> of the lists.
  \<open>Mutex\<close>, \<open>Device\<close>, \<open>Timer\<close>, \<open>Sched\<close>, \<open>Proc\<close>: the operations of these files. Each is proved to implement
  its abstract counterpart (\<open>spec_lock\<close>, \<open>spec_unlock\<close>, \<open>spec_create\<close>, \<open>spec_event_wait\<close>, \<open>spec_signal\<close>)
  and to keep the invariant. \<open>Timer\<close> adds up the ticks: which device is signalled when.
  \<open>Memory\<close>, \<open>IO\<close>, \<open>Syscall\<close>: byte memory, the console calls against a line editor on lists, and the
  dispatcher \<open>getSWI\<close> with the task array in user memory.
  \<open>System\<close>: the steps of the running system. Tasks make calls, block in the middle of them, go on
  where they stopped, and may be interrupted by the timer between any two steps. The invariant of
  reachable machines relates the kernel to where the tasks continue; mutual exclusion follows.
  \<open>Progress\<close>: order of service at a mutex and the bound on the wait for a device, in runs of the machine.
  \<open>Preempt\<close>: \<open>runqueue_remove\<close>, \<open>mutex_create\<close> and the dispatcher access by access, and what an interrupt
  between the accesses does.
  \<open>Hijack\<close>, \<open>KMath\<close>: the boot sequence of \<open>hijack.c\<close> and \<open>main.c\<close>, and the helpers of \<open>math.c\<close> and
  \<open>memcheck.c\<close>.

  \<^bold>\<open>User programs.\<close>
  \<open>Threads\<close>: programs as transition tables (a request in each local state, a successor for each result),
  their steps on the machine of \<open>System\<close>, and an abstract semantics without a scheduler, in which threads
  interleave freely and a mutex names its holder. Every run on the machine is a run of the abstract
  semantics, so a property of an application is proved by an invariant of the latter.
  \<open>Timed\<close>: the same runs with a count of the timer interrupts, for properties that depend on the devices.
  \<open>Calm\<close>: runs in which the tasks are done before the next tick are computed by an executable semantics on
  the abstract scheduler state (\<open>calm_step\<close>), and exist at every length.
  \<open>Launch\<close>: from the boot state through \<open>mutex_create\<close> and \<open>task_create\<close> in a program's \<open>main\<close> to the
  first state of its tasks.
  \<open>Dagger\<close>, \<open>Chaser\<close>, \<open>Sys_Err\<close>, \<open>Stress\<close>: the applications \<open>dagger\<close>, \<open>mutex_chaser\<close>, \<open>sys_err\<close> and \<open>stress\<close> of
  \<open>src/tasks\<close> with their invariants. \<open>Simple\<close>: \<open>simple_mutex\<close>, whose output is
  evaluated step by step with \<open>Calm\<close>. \<open>Cyclone\<close>: \<open>cyclone\<close>, whose task calls \<open>task_create\<close> itself. \<open>Apps\<close> and
  \<open>Typo\<close>: \<open>rot13\<close> and \<open>typo\<close> on the console calls. \<open>Splat\<close>: \<open>hello\<close>, and \<open>splat\<close>, which shows at most one
  frame in 20 ticks.

  \<^bold>\<open>The C library.\<close>
  \<open>LibC_String\<close>: every file of \<open>libc/string\<close>, with lemmas over the predicate \<open>cstr\<close> (a string is in
  memory at an address). \<open>LibC_Stdlib\<close>: character classes, number parsers, random numbers.
  \<open>Doprnt\<close>, \<open>Stdio\<close>: the formatter with its callback as a parameter, and \<open>sprintf\<close>, \<open>printf\<close>, \<open>putchar\<close>,
  \<open>puts\<close>, \<open>hexdump\<close>. \<open>Format\<close>: what the formatter writes, with the interface \<open>char_sink\<close> of its two
  callbacks. \<open>Render\<close>: a reference for the formats that the repository uses, and the layout of a hex dump.
  \<open>Doscan\<close>: \<open>sscanf\<close>.

  \<^bold>\<open>This theory\<close> states the properties C1 to C40, those with hypotheses with a witness at a concrete
  state; the states are built in \<open>Examples\<close>. C1 to C5 are about the interleaving of all components,
  C6 to C13 about user programs, C14 to C19 about the calls and interrupts one by one, C20 to C24 about
  interrupts inside of the calls, C25 to C29 about scheduling, task creation and the system calls, C30 to
  C33 about the console and sleeping, C34 about the boot, the rest about the library. Some
  properties (C13, C20, C21, C23, C24) and the observations at the end establish behaviour that the
  code cannot have meant.

  \<^bold>\<open>Not modelled.\<close> Assembly: system call and interrupt entry, start code and call wrappers of the
  library (their results are part of the applications); the register transfer of \<open>ctx_switch_asm.S\<close> is
  part of \<open>Kernel\<close>. A system call is one step of \<open>System\<close> up to the point where it blocks, although the
  entry code enables interrupts; so C1 to C19 hold as long as no interrupt comes inside of a call that
  does not disable them (\<open>event_wait\<close>, \<open>mutex_create\<close>). What happens otherwise is the subject of \<open>Preempt\<close>
  for the removal from the run queue, the dispatcher and \<open>mutex_create\<close>, but not for the walk along a
  sleep list. The kernel stacks are represented by the point where a task
  continues. U-Boot's functions are traces of their calls. The panic and exception stubs are
  left out, and so is \<open>kernel/hexdump.c\<close>, which is the text of the library's \<open>hexdump.c\<close>.
\<close>

section \<open>The running system\<close>

text \<open>C1. Mutual exclusion. However calls, blocking, resumption and timer interrupts interleave from a
  freshly started task set on, two tasks that both hold a mutex (they returned 0 from locking it
  and have not unlocked it) are the same task, and it is the one the kernel records as the holder.\<close>

theorem mutual_exclusion:
  assumes "fresh s0" "reachable s0 s" "(t, m) \<in> holds s" "(t', m) \<in> holds s"
  shows "t = t' \<and> owner (abs_state (mk s)) m = Some t"
proof -
  have ok: "conts_ok (abs_state (mk s)) (conts s) (holds s)"
    using reachable_inv [OF assms(2) fresh_inv [OF assms(1)]] by (simp add: machine_inv_def)
  show ?thesis
    using conts_okD(4) [OF ok, of t m] conts_okD(4) [OF ok, of t' m] assms(3,4) by simp
qed

theorem mutual_exclusion_witness:
  "\<exists>s. reachable demo_machine s \<and> (0, 0) \<in> holds s \<and> owner (abs_state (mk s)) 0 = Some 0"
proof -
  obtain s where "locked_machine s" using demo_locked by blast
  then have s: "reachable demo_machine s" "(0, 0) \<in> holds s" by (simp_all add: locked_machine_def)
  with mutual_exclusion [OF demo_fresh s(1,2,2)] show ?thesis by auto
qed



text \<open>C3. Hand-over. A task that blocked in \<open>mutex_lock\<close> runs again only when the mutex has been handed
  to it; then the rest of the call returns 0 and changes nothing but the interrupt mask.\<close>

theorem lock_resumes_as_owner:
  assumes "machine_inv s0" "reachable s0 s" "cur_tcb (mk s) = Some c" "conts s c = In_lock m"
  shows "owner (abs_state (mk s)) m = Some c \<and>
    (\<exists>k. mutex_lock_resume (int m) (mk s) = Some (Return 0, k) \<and> kernel_wf k \<and> abs_state k = abs_state (mk s))"
proof -
  have "kernel_wf (mk s)" "conts_ok (abs_state (mk s)) (conts s) (holds s)"
    using reachable_inv [OF assms(2,1)] by (simp_all add: machine_inv_def)
  from lock_resume_wf [OF this(1) assms(3) this(2) assms(4)] show ?thesis .
qed

theorem lock_resumes_as_owner_witness:
  "\<exists>s k. machine_inv s \<and> conts s 0 = In_lock 0 \<and> mutex_lock_resume (int 0) (mk s) = Some (Return 0, k)"
proof -
  obtain s where s: "machine_inv s" "cur_tcb (mk s) = Some 0" "conts s 0 = In_lock 0"
    using demo_handed by blast
  with lock_resumes_as_owner [OF s(1) reachable.start s(2,3)] show ?thesis by blast
qed

text \<open>C4. Waiting tasks are served in the order of their arrival. If \<open>w\<close> is the queue of a mutex at some
  time, then at any later time the first \<open>j\<close> of these tasks have been handed the mutex one after the
  other, the rest still waits in the same order, and whoever came later waits behind.\<close>

theorem mutex_fifo:
  assumes "machine_inv s" "reachable s s'" "waiting (abs_state (mk s)) (Mutex_head m) = w"
  shows "\<exists>j new. j \<le> length w \<and> waiting (abs_state (mk s')) (Mutex_head m) = drop j w @ new \<and>
    (j < length w \<longrightarrow> owner (abs_state (mk s')) m =
      (if j = 0 then owner (abs_state (mk s)) m else Some (w ! (j - 1))))"
  using served_reachable [OF assms(1,2), of m] unfolding assms(3) served_def .

theorem mutex_fifo_witness:
  "\<exists>s s' j new. waiting (abs_state (mk s)) (Mutex_head 0) = [0] \<and> reachable s s' \<and> s' \<noteq> s \<and> j \<le> 1 \<and>
    waiting (abs_state (mk s')) (Mutex_head 0) = drop j [0] @ new"
proof -
  obtain s s' where s: "machine_inv s" "reachable s s'" "s' \<noteq> s" "waiting (abs_state (mk s)) (Mutex_head 0) = [0]"
    using demo_unlocked by blast
  from mutex_fifo [OF s(1,2,4)] s show ?thesis by auto
qed

text \<open>C5. A bound on waiting. In every run of the machine that starts on the schedule of the devices
  (\<open>task_create\<close> leaves it so), a task that waits on a device with a period becomes ready before that
  many timer interrupts have passed, whatever the other tasks do.\<close>

theorem device_wakes_in_time:
  assumes "run_until n \<sigma>" "machine_inv (\<sigma> 0)" "on_schedule t0 m (mk (\<sigma> 0))"
    and "d < NUM_DEVICES" "dev_freq ! d \<noteq> 0" "t \<in> set (waiting (abs_state (mk (\<sigma> i))) (Dev_head d))"
    and "i \<le> j" "j \<le> n" "tick_count \<sigma> i + unat (dev_freq ! d) \<le> tick_count \<sigma> j"
  shows "\<exists>k. i < k \<and> k \<le> j \<and> t \<in> runnable (abs_state (mk (\<sigma> k)))"
proof (rule ccontr)
  assume "\<not> ?thesis"
  then have "\<forall>k. i < k \<longrightarrow> k \<le> j \<longrightarrow> t \<notin> runnable (abs_state (mk (\<sigma> k)))" by blast
  from still_waiting [OF assms(1-6) this assms(7,8)]
  have "\<forall>c. m + tick_count \<sigma> i < c \<longrightarrow> c \<le> m + tick_count \<sigma> j \<longrightarrow> \<not> unat (dev_freq ! d) dvd c" by blast
  moreover have "\<exists>c. m + tick_count \<sigma> i < c \<and> c \<le> m + tick_count \<sigma> j \<and> unat (dev_freq ! d) dvd c"
    using assms(5,9) by (intro multiple_between) (simp_all add: unat_gt_0)
  ultimately show False by blast
qed

theorem device_wakes_in_time_witness:
  "\<exists>s k. 0 \<in> set (waiting (abs_state (mk s)) (Dev_head 3)) \<and> 0 < k \<and> k \<le> 50 \<and>
    0 \<in> runnable (abs_state (mk (tick_run s k)))"
proof -
  obtain s where s: "machine_inv s" "on_schedule 0 0 (mk s)" "0 \<in> set (waiting (abs_state (mk s)) (Dev_head 3))"
    using demo_waiting by blast
  note run = tick_run [OF s(1,2)]
  have "dev_freq ! 3 = 50" by (simp add: dev_freq_def)
  then have "\<exists>k. 0 < k \<and> k \<le> 50 \<and> 0 \<in> runnable (abs_state (mk (tick_run s k)))"
    by (intro device_wakes_in_time [OF run(2) [of 50], of 0 0 3]) (use s run in simp_all)
  then show ?thesis using s(3) by blast
qed

section \<open>User programs\<close>

text \<open>C6. The kernel implements threads with mutexes. Whatever a user program does from a freshly started
  task set on, with calls that block, resumption, preemption and timer interrupts, its shared variables,
  its tasks' local states and the console go through a run of the abstract semantics, in which there is no
  scheduler: threads interleave freely, a mutex is a variable that names its holder, and a call returns at once.
  (Mutex numbers must not be negative in the abstract semantics.)\<close>

theorem machine_implements_threads:
  assumes "fresh (mach s0)" "population (abs_state (mk (mach s0))) \<subseteq> insert IDLE_PRIO T"
    and "\<And>a t. treach P T (spec_of s0) a \<Longrightarrow> t \<in> T \<Longrightarrow> request_ok (request_of P (locals a t))"
    and "areach P s0 s"
  shows "treach P T (spec_of s0) (spec_of s) \<and> kernel_wf (mk (mach s))"
proof -
  have "app_inv P T s0" using assms(1,2) fresh_inv by (simp add: app_inv_def fresh_def)
  from areach_simulated [OF this _ assms(4)] assms(3) app_invD(2) show ?thesis by blast
qed

theorem machine_implements_threads_witness:
  "\<exists>s. areach sys_err (launched (sys_entry 1) (0 :: u32) [] demo_kernel) s \<and> mach s \<noteq> mach (launched (sys_entry 1) (0 :: u32) [] demo_kernel) \<and>
     treach sys_err {0, 1} (spec_of (launched (sys_entry 1) (0 :: u32) [] demo_kernel)) (spec_of s)"
proof -
  let ?start = "launched (sys_entry 1) (0 :: u32) [] demo_kernel"
  obtain b' k where irq: "C_IRQ_Handler (\<lambda>_. 0) ([], mk (mach ?start)) = Some (b', k)" "system_time k = system_time demo_kernel + 1"
    using C_IRQ_Handler_wf [OF demo_kernel(1), of "\<lambda>_. 0" "[]"] by (auto simp: launched_def)
  let ?ticked = "?start\<lparr>mach := (mach ?start)\<lparr>mk := k\<rparr>\<rparr>"
  have run: "areach sys_err ?start ?ticked" by (rule areach.a_step [OF areach.a_start astep.a_tick [OF irq(1)]])
  moreover have "mach ?ticked \<noteq> mach ?start"
  proof
    assume "mach ?ticked = mach ?start"
    then have "k = demo_kernel" by (simp add: launched_def)
    with irq(2) show False by simp
  qed
  moreover have "fresh (mach ?start)" "population (abs_state (mk (mach ?start))) \<subseteq> insert IDLE_PRIO {0, 1}"
    by (auto simp: launched_def fresh_def demo_kernel population_def)
  moreover have "request_ok (request_of sys_err l)" for l
    by (auto simp: sys_err_def sys_request_def sys_call_def request_ok_def split: sys_pc.splits)
  ultimately show ?thesis using machine_implements_threads [OF _ _ _ run, of "{0, 1}"] by blast
qed

text \<open>C7. Runs in which tasks are done before the next tick are deterministic. When the timer interrupt comes only
  while the idle task runs or the current task sleeps, there are runs of every length, and what a run reaches
  after \<open>k\<close> steps (the shared variables, the tasks, the console and the abstract state of the scheduler) is
  computed by the executable semantics \<open>calm_step\<close>; the kernel invariant holds. (Mutex numbers must not
  be negative in the states that are computed.)\<close>

theorem calm_runs_computed:
  assumes "app_inv P T s0" "on_schedule t0 0 (mk (mach s0))"
    and "\<And>j. j < k \<Longrightarrow> calm_ok P T (calm_after P t0 j (calm_of 0 s0))"
  shows "(\<exists>n s. calm_run P s0 k n s) \<and>
    (\<forall>n s. calm_run P s0 k n s \<longrightarrow> calm_of n s = calm_after P t0 k (calm_of 0 s0) \<and> kernel_wf (mk (mach s)))"
  using calm_run_exists [OF assms] calm_run_computed [OF assms(1,2) _ assms(3)] app_invD(2) by blast

theorem calm_runs_computed_witness:
  "\<exists>s0 n s. simple_main 0xa0000100 0xa0000200 0xa0000300 1 2 0xa0001000 free_kernel = Some (Running s0) \<and>
     calm_run simple s0 1000 n s \<and> console s = console (calm_after simple (system_time free_kernel) 1000 (calm_of 0 s0))"
proof -
  obtain s0 where s0: "simple_main 0xa0000100 0xa0000200 0xa0000300 1 2 0xa0001000 free_kernel = Some (Running s0)"
      "app_inv simple {..<3} s0" "on_schedule (system_time free_kernel) 0 (mk (mach s0))"
      "\<And>j. calm_ok simple {..<3} (calm_after simple (system_time free_kernel) j (calm_of 0 s0))"
    using simple_starts_ok [OF booted_free demo_functions(4,3)] by blast
  obtain n s where "calm_run simple s0 1000 n s" "calm_of n s = calm_after simple (system_time free_kernel) 1000 (calm_of 0 s0)"
    using calm_runs_computed [OF s0(2,3,4), of 1000] by blast
  then show ?thesis using s0(1) calm_of_simps(4) by metis
qed

text \<open>C8. The test \<open>dagger\<close>: however its four tasks are scheduled and interrupted, the character \<open>>\<close> of the
  third function appears on the console only where the number of \<open>@\<close> before it is a multiple of five,
  so that the bursts that the first function prints while it holds the mutex are never broken.\<close>

theorem dagger_keeps_bursts:
  assumes "booted k" "functions_ok [f1, f2, f3, f4]" "\<not> bad_user_addr tasks"
    and "dagger_main f1 f2 f3 f4 launch_task idle tasks k = Some (Running s0)" "areach dagger s0 s"
  shows "\<forall>i<length (console s). console s ! i = 0x3e \<longrightarrow> 5 dvd count_list (take i (console s)) 0x40"
proof (intro allI impI)
  fix i
  assume i: "i < length (console s)" "console s ! i = 0x3e"
  have "bursts (console s @ pending s 1) \<noteq> None"
    using dagger_runs [OF assms] by (simp add: dagger_inv_def)
  moreover have "console s = take i (console s) @ 0x3e # drop (Suc i) (console s)"
    using i id_take_nth_drop [of i "console s"] by simp
  ultimately show "5 dvd count_list (take i (console s)) 0x40"
    using bursts_between [of "take i (console s)" "drop (Suc i) (console s) @ pending s 1"] by (metis append.assoc append_Cons)
qed

theorem dagger_keeps_bursts_witness:
  "\<exists>s. dagger_main 0xa0000100 0xa0000200 0xa0000300 0xa0000400 1 2 0xa0001000 free_kernel = Some (Running s) \<and>
     (\<forall>i<length (console s). console s ! i = 0x3e \<longrightarrow> 5 dvd count_list (take i (console s)) 0x40)"
proof -
  obtain s where s: "dagger_main 0xa0000100 0xa0000200 0xa0000300 0xa0000400 1 2 0xa0001000 free_kernel = Some (Running s)"
    using dagger_starts [OF booted_free demo_functions(1,3)] by blast
  from dagger_keeps_bursts [OF booted_free demo_functions(1,3) s areach.a_start] s show ?thesis by blast
qed

text \<open>C9. The test \<open>mutex_chaser\<close>: in every state that its four tasks reach, the variable of each mutex has
  the value that some order of the tasks that have updated it gives (no update is lost or applied
  twice); once all four have, it is the expected value exactly for the order of the functions. No task
  has seen an error or panicked.\<close>

theorem chaser_loses_no_update:
  assumes "booted k" "functions_ok [f1, f2, f3, f4]" "\<not> bad_user_addr tasks"
    and "chaser_main f1 f2 f3 f4 launch_task idle tasks k = Some (Running s0)" "areach chaser s0 s" "m < 32"
  shows "(\<exists>ord. distinct ord \<and> set ord = {t. t < 4 \<and> updated (locals s t) m} \<and>
      mutex_val (globals s) ! m = fold chaser_op ord init_val \<and>
      (set ord = {0, 1, 2, 3} \<longrightarrow> (mutex_val (globals s) ! m = result_val (globals s) \<longleftrightarrow> ord = [0, 1, 2, 3]))) \<and>
    (\<forall>t<4. \<not> chaser_failed (cpc (locals s t)))"
proof -
  have inv: "chaser_inv (spec_of s)" using chaser_runs [OF assms(1-5)] .
  obtain ord where ord: "update_order (locals s) m ord" "mutex_val (globals s) ! m = fold chaser_op ord init_val"
    using chaser_invD(7) [OF inv assms(6)] by auto
  then have "distinct ord" by (simp add: update_order_def)
  with ord chaser_result_order [of ord] chaser_invD(3) [OF inv] chaser_invD(4) [OF inv] show ?thesis
    by (intro conjI exI [of _ ord]) (simp_all add: update_order_def chaser_task_ok_def)
qed

theorem chaser_loses_no_update_witness:
  "\<exists>s. chaser_main 0xa0000100 0xa0000200 0xa0000300 0xa0000400 1 2 0xa0001000 free_kernel = Some (Running s) \<and>
     (\<exists>ord. set ord = {t. t < 4 \<and> updated (locals s t) 7} \<and> mutex_val (globals s) ! 7 = fold chaser_op ord init_val)"
proof -
  obtain s where s: "chaser_main 0xa0000100 0xa0000200 0xa0000300 0xa0000400 1 2 0xa0001000 free_kernel = Some (Running s)"
    using chaser_starts [OF booted_free demo_functions(1,3)] by blast
  have "(7 :: nat) < 32" by simp
  from chaser_loses_no_update [OF booted_free demo_functions(1,3) s areach.a_start this] s show ?thesis by blast
qed

text \<open>C10. The test \<open>simple_mutex\<close> prints \<open>succeSs!\<close>, as the comment at its head says (each letter with the three zero bytes that
  \<open>putchar\<close> adds): it starts from every booted kernel, and of its runs in which the tasks are done before the
  next tick, which exist at every length, all show a prefix of this text, and the whole of it
  from some number of steps on. So the mutex is handed to the tasks in the order in which they came.\<close>

theorem simple_mutex_succeeds:
  assumes "booted k" "functions_ok [f1, f2, f3]" "\<not> bad_user_addr tasks"
  shows "\<exists>s0 N. simple_main f1 f2 f3 launch_task idle tasks k = Some (Running s0) \<and>
    (\<forall>j. \<exists>n s. calm_run simple s0 j n s) \<and>
    (\<forall>j n s. calm_run simple s0 j n s \<longrightarrow> (\<exists>bs. letters ''succeSs!'' = console s @ bs) \<and>
      (N \<le> j \<longrightarrow> console s = letters ''succeSs!''))"
  by (rule simple_run) (rule assms)+

theorem simple_mutex_succeeds_witness:
  "\<exists>s0 j n s. simple_main 0xa0000100 0xa0000200 0xa0000300 1 2 0xa0001000 free_kernel = Some (Running s0) \<and>
     calm_run simple s0 j n s \<and> console s = letters ''succeSs!''"
  using simple_mutex_succeeds [OF booted_free demo_functions(4,3), of 1 2] by blast

text \<open>C11. The test \<open>sys_err\<close>: however the timer interrupts it, the console shows a prefix of the transcript
  in which each of the ten checks reports success, so the system calls return the errors that the test
  expects (\<open>EINVAL\<close>, \<open>EFAULT\<close>, \<open>ENOMEM\<close>, \<open>EPERM\<close>, \<open>EDEADLOCK\<close>) on every path.\<close>

theorem sys_err_passes:
  assumes "booted k" "functions_ok [fun1]" "\<not> bad_user_addr tasks"
    and "sys_main fun1 wild launch_task idle tasks k = Some (Running s0)" "areach sys_err s0 s"
  shows "\<exists>rest. console s @ rest = sys_passed"
proof -
  have inv: "sys_inv (spec_of s)" using sys_runs [OF assms] .
  then have "sys_place (spc (locals s 0)) (ret2 (locals s 0)) (globals s)" by (simp add: sys_inv_def)
  then obtain rest where "sys_shown (spc (locals s 0)) @ rest = sys_passed" using sys_shown_prefix by blast
  moreover have "console s @ pending s 0 = sys_shown (spc (locals s 0))" using inv by (simp add: sys_inv_def)
  ultimately show ?thesis by (metis append.assoc)
qed

theorem sys_err_passes_witness:
  "\<exists>s rest. sys_main 0xa0000100 [] 1 2 0xa0001000 free_kernel = Some (Running s) \<and> console s @ rest = sys_passed"
proof -
  obtain s where s: "sys_main 0xa0000100 [] 1 2 0xa0001000 free_kernel = Some (Running s)"
    using sys_starts [OF booted_free demo_functions(2,3)] by blast
  from sys_err_passes [OF booted_free demo_functions(2,3) s areach.a_start] s show ?thesis by blast
qed

text \<open>C12. The test \<open>cyclone\<close>: its task restarts itself with \<open>task_create\<close> up to thirty times. In every state the
  console shows the times of the rounds so far, the \<open>i\<close>-th at least \<open>i\<close> ticks after the one before (what
  \<open>sleep\<close> promises), thirty of them when the test has ended, and the line behind the call of
  \<open>task_create\<close> is never reached. The clock must stay below \<open>429496000\<close> ticks.\<close>

theorem cyclone_times:
  assumes "cyclone_ok fun1 tasks" "quiet k" "cyclone_main fun1 launch_task idle tasks k = Some (Running s0)"
    and "cyclone_run fun1 launch_task idle tasks s0 n s" "unat (system_time k) + n \<le> 429496000"
  shows "\<exists>ts. shown s = cyclone_text ts (place s = Cy_loop) \<and> spaced (unat (system_time k)) 0 ts \<and>
    length ts \<le> 30 \<and> (place s = Cy_loop \<longrightarrow> length ts = 30) \<and> place s \<notin> {Cy_past, Cy_failed}"
proof -
  have start: "cyclone_inv (unat (system_time k)) 0 [] s0"
    using cyclone_starts [OF assms(1,2), of launch_task idle] assms(3) by auto
  obtain ts where "cyclone_inv (unat (system_time k)) n ts s"
    using cyclone_run_inv [OF assms(1) start assms(4,5)] by blast
  then have ts: "shown s = cyclone_text ts (place s = Cy_loop)" "spaced (unat (system_time k)) 0 ts"
      "cyclone_at (last (unat (system_time k) # ts)) (length ts) (unat (system_time k) + n) (ct s) (place s)"
    by (simp_all add: cyclone_inv_def)
  show ?thesis using ts by (intro exI [of _ ts]) (cases "place s"; simp)
qed

theorem cyclone_times_witness:
  "\<exists>(s :: cyclone) ts. place s = Cy_loop \<and> shown s = cyclone_text ts True \<and> spaced 0 0 ts \<and> length ts = 30"
proof -
  have ok: "cyclone_ok 0xa0000100 0xa0001000" by (simp add: cyclone_ok_def bad_user_addr_def)
  have t: "unat (system_time free_kernel) = 0" by (simp add: free_kernel_def bss_kernel_def)
  obtain s0 where s0: "cyclone_main 0xa0000100 0 0 0xa0001000 free_kernel = Some (Running s0)" "cyclone_inv 0 0 [] s0" "place s0 = Cy_head"
    using cyclone_starts [OF ok quiet_free, of 0 0] unfolding t by blast
  obtain n s where run: "n \<le> 900" "cyclone_run 0xa0000100 0 0 0xa0001000 s0 n s" "place s = Cy_loop"
    using cyclone_finishes [OF ok s0(2,3), of 0 0] by auto
  have "unat (system_time free_kernel) + n \<le> 429496000" using run(1) t by simp
  from cyclone_times [OF ok quiet_free s0(1) run(2) this] run(3) t
  obtain ts where "shown s = cyclone_text ts True" "spaced 0 0 ts" "length ts = 30" by auto
  then show ?thesis using run(3) by (intro exI [of _ s] exI [of _ ts]) simp
qed

text \<open>C13. The test \<open>stress\<close> says nothing: its last task waits on device 59, which has no period. Before
  \<open>2\<^sup>3\<^sup>2 - 1\<close> timer interrupts have passed it has not run a second time, so the counts of the tasks are never
  checked, and each of the tasks from number 4 on has run at most once.\<close>

theorem stress_never_checks:
  assumes "booted k" "functions_ok [fun1, fun2]" "\<not> bad_user_addr tasks"
    and "stress_main fun1 fun2 launch_task idle tasks k = Some (Running s0)" "atimed stress s0 n s" "n < 2 ^ 32 - 1"
  shows "spot (locals s 59) \<in> {S2_head, S2_again, S2_wait} \<and> once (globals s) \<le> 1 \<and> flag (globals s) = 0 \<and>
    (\<forall>t. 4 \<le> t \<longrightarrow> t < 59 \<longrightarrow> score (globals s) ! t \<le> 1)"
proof -
  have "stress_inv (system_time k) 0 s0" using stress_starts [OF assms(1-3), of launch_task idle] assms(4) by auto
  from stress_runs [OF this assms(5,6)] have inv: "flag (globals s) = 0"
      "\<forall>t<60. stress_place t (globals s) (spot (locals s t))" by (simp_all add: stress_inv_def)
  from inv(2) have "stress_place 59 (globals s) (spot (locals s 59))" by simp
  moreover have "score (globals s) ! t \<le> 1" if "4 \<le> t" "t < 59" for t
    using inv(2) [rule_format, of t] that by (auto simp: stress_place_def)
  ultimately show ?thesis using inv(1) by (auto simp: stress_place_def)
qed

theorem stress_never_checks_witness:
  "\<exists>s0. stress_main 0xa0000100 0xa0000200 0 0 0xa0001000 free_kernel = Some (Running s0) \<and>
    spot (locals s0 59) \<in> {S2_head, S2_again, S2_wait}"
proof -
  have fs: "functions_ok [0xa0000100, 0xa0000200]" by (simp add: functions_ok_def bad_user_addr_def)
  obtain s0 where s0: "stress_main 0xa0000100 0xa0000200 0 0 0xa0001000 free_kernel = Some (Running s0)"
    using stress_starts [OF booted_free fs demo_functions(3), of 0 0] by blast
  have "(0 :: nat) < 2 ^ 32 - 1" by simp
  from stress_never_checks [OF booted_free fs demo_functions(3) s0 atimed.at_start this] s0 show ?thesis by blast
qed

section \<open>Mutexes and devices\<close>

text \<open>C14. \<open>mutex_lock\<close> implements the abstract lock on every path (unknown mutex, own mutex, free
  mutex, and a mutex of another task, where the caller goes to the end of the mutex' queue and the
  best ready task runs); it keeps the kernel invariant and leaves interrupts enabled.\<close>

theorem mutex_lock_refines:
  assumes "kernel_wf k" "cur_tcb k \<noteq> Some IDLE_PRIO"
  shows "\<exists>out k'. mutex_lock_syscall (int m) k = Some (out, k') \<and> kernel_wf k' \<and> irq_enabled k' \<and>
    (out, abs_state k') = spec_lock m (abs_state k)"
  using mutex_lock_wf [OF assms] by metis

theorem mutex_lock_refines_witness:
  "\<exists>k'. mutex_lock_syscall (int 7) demo_kernel = Some (Return EINVAL, k') \<and> kernel_wf k'"
proof -
  have "cur_tcb demo_kernel \<noteq> Some IDLE_PRIO" by (simp add: demo_kernel)
  from mutex_lock_refines [OF demo_kernel(1) this, of 7] show ?thesis
    by (auto simp: spec_lock_def demo_kernel(4))
qed

text \<open>C15. \<open>mutex_unlock\<close> implements the abstract unlock: only the holder may unlock, the first
  waiter becomes the holder and ready, and without a waiter the mutex is free.\<close>

theorem mutex_unlock_refines:
  assumes "kernel_wf k"
  shows "\<exists>out k'. mutex_unlock_syscall (int m) k = Some (out, k') \<and> kernel_wf k' \<and> irq_enabled k' \<and>
    (out, abs_state k') = spec_unlock m (abs_state k)"
  using mutex_unlock_wf [OF assms] by metis

theorem mutex_unlock_refines_witness:
  "\<exists>s k'. locked_machine s \<and> mutex_unlock_syscall (int 0) (mk s) = Some (Return 0, k') \<and>
    owner (abs_state k') 0 = None"
proof -
  obtain s where "locked_machine s" using demo_locked by blast
  then have s: "locked_machine s" "kernel_wf (mk s)" "abs_state (mk s) = \<lparr>current = 0, runnable = {0, 1, 63},
      waiting = (\<lambda>_. []), created = (\<lambda>_. False)(0 := True), owner = [0 \<mapsto> 0]\<rparr>"
    by (simp_all add: locked_machine_def)
  have "spec_unlock 0 (abs_state (mk s)) = (Return 0, \<lparr>current = 0, runnable = {0, 1, 63},
      waiting = (\<lambda>_. []), created = (\<lambda>_. False)(0 := True), owner = Map.empty\<rparr>)"
    unfolding s(3) by (simp add: spec_unlock_def spec_wake_def)
  with mutex_unlock_refines [OF s(2), of 0] s(1) show ?thesis by auto
qed

text \<open>C16. \<open>mutex_create\<close> hands out the smallest mutex that is still available, or fails with
  \<open>-ENOMEM\<close> when all 32 are taken.\<close>

theorem mutex_create_refines:
  assumes "kernel_wf k"
  shows "\<exists>out k'. mutex_create_syscall k = Some (out, k') \<and> kernel_wf k' \<and>
    (out, abs_state k') = spec_create (abs_state k)"
  using mutex_create_wf [OF assms] by metis

theorem mutex_create_refines_witness:
  "\<exists>k'. mutex_create_syscall demo_kernel = Some (Return 0, k') \<and> kernel_wf k'"
proof -
  have "filter (\<lambda>m. True) [0..<32] = 0 # [1..<32]" by (simp add: upt_rec [of 0])
  then show ?thesis
    using mutex_create_refines [OF demo_kernel(1)] by (auto simp: spec_create_def demo_kernel(4))
qed

text \<open>C17. \<open>event_wait\<close> refuses a device number above 62; otherwise the caller goes to the end of the
  device's queue and the best ready task runs.\<close>

theorem event_wait_refines:
  assumes "kernel_wf k" "cur_tcb k \<noteq> Some IDLE_PRIO"
  shows "\<exists>out k'. event_wait_syscall d k = Some (out, k') \<and> kernel_wf k' \<and>
    (out, abs_state k') = spec_event_wait (unat d) (abs_state k)"
  using event_wait_wf [OF assms] by metis

theorem event_wait_refines_witness:
  "\<exists>k'. event_wait_syscall 3 demo_kernel = Some (Switched, k') \<and> current (abs_state k') = 1"
proof -
  have "cur_tcb demo_kernel \<noteq> Some IDLE_PRIO" by (simp add: demo_kernel)
  moreover have "Min ({0, 1, 63} - {0}) = (1 :: nat)" by (simp add: insert_Diff_if)
  ultimately show ?thesis
    using event_wait_refines [OF demo_kernel(1), of 3]
    by (auto simp: spec_event_wait_def spec_dispatch_def spec_sleep_def demo_kernel(4))
qed

text \<open>C18. The timer interrupt advances the clock by one, acknowledges the timer with the two register
  writes, wakes every task that waits on a device whose match value is the new time and, if there
  was one, switches to the best ready task; each matching device moves to its next period.\<close>

theorem timer_interrupt_refines:
  assumes "kernel_wf k"
  shows "\<exists>k'. C_IRQ_Handler rd (b, k) =
      Some (b @ [(0x40A00010, 0), (0x40A00014, rd 0x40A00014 OR 1)], k') \<and>
    kernel_wf k' \<and> system_time k' = system_time k + 1 \<and>
    abs_state k' = spec_signal {d. d < 63 \<and> next_match (devices k ! d) = system_time k + 1} (abs_state k) \<and>
    (\<forall>d<63. next_match (devices k' ! d) = next_match (devices k ! d) +
       (if next_match (devices k ! d) = system_time k + 1 then dev_freq ! d else 0))"
  using C_IRQ_Handler_wf [OF assms, of rd b] by (simp add: matching_def)

theorem timer_interrupt_refines_witness:
  "\<exists>k'. C_IRQ_Handler (\<lambda>_. 0) ([], demo_kernel) = Some ([(0x40A00010, 0), (0x40A00014, 1)], k') \<and>
    system_time k' = 1 \<and> kernel_wf k'"
proof -
  have "system_time demo_kernel = 0" using demo_kernel(3) by (simp add: on_schedule_def)
  then show ?thesis using timer_interrupt_refines [OF demo_kernel(1), of "\<lambda>_. 0" "[]"] by auto
qed

text \<open>C19. Periodic release. If every device was initialised at time \<open>t0\<close>, then the \<open>n + 1\<close>-st timer
  interrupt after that wakes exactly the waiters of the devices whose period divides \<open>n + 1\<close>, however
  often the 32-bit clock has wrapped around (\<open>due\<close> spells it out; period 0 means once in \<open>2\<^sup>3\<^sup>2\<close> ticks).\<close>

theorem devices_periodic:
  assumes "kernel_wf k" "on_schedule t0 0 k"
  shows "\<exists>b1 k1 b2 k2. ticks rd n (b, k) = Some (b1, k1) \<and> C_IRQ_Handler rd (b1, k1) = Some (b2, k2) \<and>
    kernel_wf k2 \<and> on_schedule t0 (Suc n) k2 \<and> abs_state k2 = spec_signal (due (Suc n)) (abs_state k1)"
proof -
  obtain b1 k1 where k1: "ticks rd n (b, k) = Some (b1, k1)" "kernel_wf k1" "on_schedule t0 n k1"
    using ticks_wf [OF assms, of rd n b] by blast
  obtain b2 k2 where k2: "C_IRQ_Handler rd (b1, k1) = Some (b2, k2)" "kernel_wf k2"
      "abs_state k2 = spec_signal (matching (system_time k1 + 1) k1) (abs_state k1)"
    using C_IRQ_Handler_wf [OF k1(2)] by blast
  have "on_schedule t0 (Suc n) k2" using ticks_wf [OF assms, of rd "Suc n" b] k1(1) k2(1) by auto
  with k1 k2 show ?thesis unfolding on_schedule_matching [OF k1(3)] by blast
qed

theorem devices_periodic_witness:
  "\<exists>b1 k1 b2 k2. ticks (\<lambda>_. 0) 49 ([], demo_kernel) = Some (b1, k1) \<and>
    C_IRQ_Handler (\<lambda>_. 0) (b1, k1) = Some (b2, k2) \<and> abs_state k2 = spec_signal (due 50) (abs_state k1)"
  using devices_periodic [OF demo_kernel(1,3), of "\<lambda>_. 0" 49 "[]"] by auto

section \<open>Interrupts inside the calls\<close>



text \<open>C21. \<open>event_wait\<close> does not disable interrupts. If the timer interrupt comes after the caller has been
  removed from the run queue and before it is stored in the list of the device, and if it wakes any
  task, then the caller is on no list at all: it does not run again in any continuation, and the
  mutexes it holds are never released.\<close>

theorem event_wait_loses_caller:
  assumes "machine_inv s" "cur_tcb (mk s) = Some c" "c \<noteq> IDLE_PRIO"
    and "d \<in> matching (system_time (mk s) + 1) (mk s)" "waiting (abs_state (mk s)) (Dev_head d) \<noteq> []"
  shows "\<exists>k'. wait_interrupted rd (mk s) = Some k' \<and> (\<forall>s'. reachable (s\<lparr>mk := k'\<rparr>) s' \<longrightarrow>
    cur_tcb (mk s') \<noteq> Some c \<and> c \<notin> runnable (abs_state (mk s')) \<and> (\<forall>l. c \<notin> set (waiting (abs_state (mk s')) l)) \<and>
    (\<forall>m. owner (abs_state (mk s)) m = Some c \<longrightarrow> owner (abs_state (mk s')) m = Some c))"
proof -
  obtain k' where k': "wait_interrupted rd (mk s) = Some k'" "machine_inv (s\<lparr>mk := k'\<rparr>)"
      "c \<notin> population (abs_state k')" "owner (abs_state k') = owner (abs_state (mk s))"
    using wait_interrupted_absent [OF assms, of rd] by blast
  then have "c \<notin> population (abs_state (mk (s\<lparr>mk := k'\<rparr>)))" by simp
  from absent_for_ever [OF k'(2) this] show ?thesis
    using k'(1,4) by (intro exI [of _ k']) (auto simp: population_def)
qed

theorem event_wait_loses_caller_witness:
  "\<exists>s k'. machine_inv s \<and> cur_tcb (mk s) = Some 1 \<and> 1 \<in> runnable (abs_state (mk s)) \<and>
    wait_interrupted (\<lambda>_. 0) (mk s) = Some k' \<and> (\<forall>s'. reachable (s\<lparr>mk := k'\<rparr>) s' \<longrightarrow> cur_tcb (mk s') \<noteq> Some 1)"
proof -
  obtain s where s: "machine_inv s" "cur_tcb (mk s) = Some 1" "1 \<in> runnable (abs_state (mk s))"
      "3 \<in> matching (system_time (mk s) + 1) (mk s)" "waiting (abs_state (mk s)) (Dev_head 3) \<noteq> []"
    using demo_due by blast
  have "(1 :: nat) \<noteq> IDLE_PRIO" by simp
  from event_wait_loses_caller [OF s(1,2) this s(4,5), of "\<lambda>_. 0"] show ?thesis using s(1-3) by blast
qed

text \<open>C22. Between going to sleep and the start of the dispatcher an interrupt does no harm: whether it wakes
  anybody or not, the scheduler is in the same state as if the interrupt had come right after the
  switch. This covers the window in \<open>mutex_lock\<close>, which enables interrupts before it dispatches.\<close>

theorem interrupt_before_dispatch:
  assumes "kernel_wf k0" "cur_tcb k0 = Some c" "is_head l" "can_sleep l k0" "sleep_enqueue l l k0 = Some k"
  shows "\<exists>k' k1 b k2. interrupt_then_dispatch rd k = Some k' \<and> kernel_wf k' \<and> dispatch_save k = Some k1 \<and>
    C_IRQ_Handler rd ([], k1) = Some (b, k2) \<and> abs_state k' = abs_state k2"
proof -
  obtain Q where inv0: "kernel_inv k0 Q" and r: "ready (kq k0) c = Some c"
    using assms(1,2) by (auto simp: kernel_wf_def)
  obtain Q' where inv: "kernel_inv k Q'" using inv_sleep [OF inv0 assms(2) r assms(3,4)] assms(5) by auto
  obtain k1 where k1: "dispatch_save k = Some k1" "kernel_wf k1" "abs_state k1 = spec_dispatch (abs_state k)"
      "system_time k1 = system_time k" "devices k1 = devices k"
    using inv_dispatch [OF inv] by (auto simp: same_but_dispatch_def)
  have "matching (system_time k1 + 1) k1 = matching (system_time k + 1) k" using k1(4,5) by (simp add: matching_def)
  then obtain b k2 where k2: "C_IRQ_Handler rd ([], k1) = Some (b, k2)"
      "abs_state k2 = spec_signal (matching (system_time k + 1) k) (spec_dispatch (abs_state k))"
    using C_IRQ_Handler_wf [OF k1(2), of rd "[]"] k1(3) by auto
  moreover have "has_inv k" using inv by (auto simp: has_inv_def)
  ultimately show ?thesis using interrupt_then_dispatch_eq [of k rd] k1(1) by fastforce
qed

theorem interrupt_before_dispatch_witness:
  "\<exists>k k'. sleep_enqueue (Dev_head 3) (Dev_head 3) demo_kernel = Some k \<and>
    interrupt_then_dispatch (\<lambda>_. 0) k = Some k' \<and> kernel_wf k'"
proof -
  have c: "can_sleep (Dev_head 3) demo_kernel" by (simp add: demo_kernel)
  have h: "is_head (Dev_head 3)" by simp
  obtain Q where "kernel_inv demo_kernel Q" "ready (kq demo_kernel) 0 = Some 0"
    using demo_kernel(1,5) by (auto simp: kernel_wf_def)
  then obtain k where k: "sleep_enqueue (Dev_head 3) (Dev_head 3) demo_kernel = Some k"
    using inv_sleep [OF _ demo_kernel(5) _ h c] by blast
  from interrupt_before_dispatch [OF demo_kernel(1,5) h c k] k show ?thesis by blast
qed

text \<open>C23. Inside of the dispatcher it does: the next task \<open>h\<close> is stored in \<open>cur_tcb\<close> before the registers are
  switched. An interrupt in between that wakes any task saves the registers of the interrupt handler,
  which runs on the stack of the old task, as those of \<open>h\<close>, and when \<open>h\<close> is dispatched it goes on with
  them. Without the interrupt \<open>h\<close> goes on with its own registers.\<close>

theorem dispatch_loses_context:
  assumes "kernel_wf k0" "cur_tcb k0 = Some c" "c \<noteq> IDLE_PRIO" "l < NUM_DEVICES"
    and "sleep_enqueue (Dev_head l) (Dev_head l) k0 = Some k"
    and "d \<in> matching (system_time k + 1) k" "waiting (abs_state k) (Dev_head d) \<noteq> []"
  shows "\<exists>h k1 k2. h \<noteq> c \<and> dispatch_sleep k = Some k1 \<and> cur_tcb k1 = Some h \<and>
    regs k1 = tcb_context (system_tcb k ! h) \<and>
    dispatch_interrupted rd rs k = Some k2 \<and> tcb_context (system_tcb k2 ! h) = rs \<and>
    (cur_tcb k2 = Some h \<longrightarrow> regs k2 = rs)"
  using dispatch_interrupted_eq [OF assms] .

theorem dispatch_loses_context_witness:
  "\<exists>k0 k k2 h. cur_tcb k0 = Some 1 \<and> sleep_enqueue (Dev_head 0) (Dev_head 0) k0 = Some k \<and> h \<noteq> 1 \<and>
    dispatch_interrupted (\<lambda>_. 0) (zero_context\<lparr>r4 := 7\<rparr>) k = Some k2 \<and> r4 (tcb_context (system_tcb k2 ! h)) = 7"
proof -
  obtain s k where s: "machine_inv s" "cur_tcb (mk s) = Some 1"
      "sleep_enqueue (Dev_head 0) (Dev_head 0) (mk s) = Some k"
      "3 \<in> matching (system_time k + 1) k" "waiting (abs_state k) (Dev_head 3) \<noteq> []"
    using demo_due_asleep by blast
  have "kernel_wf (mk s)" "(1 :: nat) \<noteq> IDLE_PRIO" "0 < NUM_DEVICES" using s(1) by (simp_all add: machine_inv_def)
  from dispatch_loses_context [OF this(1) s(2) this(2,3) s(3-5), of "\<lambda>_. 0" "zero_context\<lparr>r4 := 7\<rparr>"]
  obtain h k2 where "h \<noteq> 1" "dispatch_interrupted (\<lambda>_. 0) (zero_context\<lparr>r4 := 7\<rparr>) k = Some k2"
      "tcb_context (system_tcb k2 ! h) = zero_context\<lparr>r4 := 7\<rparr>" by blast
  then show ?thesis using s(2,3) by (intro exI [of _ "mk s"] exI [of _ k] exI [of _ k2] exI [of _ h]) simp
qed

text \<open>C24. Two calls of \<open>mutex_create\<close>, the second inside the first after \<open>i\<close> of its accesses, get the same
  mutex exactly if the interrupt comes between the test of the first free element \<open>m\<close> and the store to
  it. Otherwise the result is that of the calls one after the other, in one order or the other.\<close>

theorem mutex_create_interrupted:
  assumes "length (gtMutex k) = OS_NUM_MUTEX" "m < OS_NUM_MUTEX" "bAvailable (gtMutex k ! m)"
    and "\<forall>j<m. \<not> bAvailable (gtMutex k ! j)" "i \<le> 33"
    and "mutex_create_syscall k = Some (r1, k1)" "mutex_create_syscall k1 = Some (r2, k2)"
  shows "create_interrupted i k = Some
    (if i \<le> m then (M_return r2, r1, k2) else if i = Suc m then (M_return r1, r1, k1) else (M_return r1, r2, k2))"
  using create_interrupted_eq [of k m i r1 k1 r2 k2] assms by simp

theorem mutex_create_interrupted_witness:
  "\<exists>k'. create_interrupted 1 free_kernel = Some (M_return (Return 0), Return 0, k')"
proof -
  have k: "length (gtMutex free_kernel) = OS_NUM_MUTEX" "(0 :: nat) < OS_NUM_MUTEX" "bAvailable (gtMutex free_kernel ! 0)"
      "\<forall>j<0. \<not> bAvailable (gtMutex free_kernel ! j)" "(1 :: nat) \<le> 33"
    by (simp_all add: free_kernel_def free_mutex_def)
  obtain r1 k1 where 1: "mutex_create_syscall free_kernel = Some (r1, k1)" "quiet k1" "r1 = Return 0"
    using mutex_create_quiet [OF quiet_free] spec_create_next [of "abs_state free_kernel" 0] booted_free
    by (fastforce simp: booted_def)
  obtain r2 k2 where 2: "mutex_create_syscall k1 = Some (r2, k2)" using mutex_create_quiet [OF 1(2)] by blast
  from mutex_create_interrupted [OF k 1(1) 2] 1(3) show ?thesis by simp
qed

section \<open>Scheduling\<close>

text \<open>C25. The bit tricks of \<open>highest_prio\<close> find the smallest ready priority: the two lookups in the
  256-entry table, first for the group and then in the group, are the minimum over all 64.\<close>

theorem highest_prio_minimum:
  assumes "rq_wf q" "dom (ready q) \<noteq> {}"
  shows "\<exists>h. highest_prio q = Some h \<and> unat h = Min (dom (ready q))"
  using rq.top_Min [OF assms] by auto

theorem highest_prio_minimum_witness:
  "\<exists>q. runqueue_add (Some 37) 37 empty_runq = Some q \<and> highest_prio q = Some 37"
proof -
  obtain q where q: "runqueue_add (Some 37) 37 empty_runq = Some q" "rq_wf q" "ready q = [37 \<mapsto> 37]"
    using rq.add_law [OF rq_wf_empty, of 37 37] by (auto simp: ready_empty)
  moreover have "dom (ready q) \<noteq> {}" using q(3) by simp
  then obtain h where "highest_prio q = Some h" "unat h = 37"
    using highest_prio_minimum [OF q(2)] q(3) by auto
  moreover have "h = of_nat (unat h)" by simp
  then have "h = 37" unfolding \<open>unat h = 37\<close> by simp
  ultimately show ?thesis by blast
qed

text \<open>C26. The run list with its two levels of bitmaps is a finite map from priorities to tasks: adding
  and removing keep the representation consistent, and change the entry of that priority only.\<close>

theorem runqueue_is_map:
  assumes "rq_wf q" "p < 64"
  shows "(\<exists>q'. runqueue_add (Some t) (of_nat p) q = Some q' \<and> rq_wf q' \<and> ready q' = (ready q)(p \<mapsto> t)) \<and>
    (\<exists>q'. runqueue_remove (of_nat p) q = Some (ready q p, q') \<and> rq_wf q' \<and> ready q' = (ready q)(p := None))"
  using rq.add_law [OF assms(1), of p t] rq.remove_law [OF assms(1), of p] assms(2) by auto

theorem runqueue_is_map_witness:
  "\<exists>q. runqueue_add (Some 9) 63 empty_runq = Some q \<and> ready q = [63 \<mapsto> 9]"
  using runqueue_is_map [OF rq_wf_empty, of 63 9] by (auto simp: ready_empty)

text \<open>C27. \<open>task_create\<close> on a valid task set in a kernel without sleepers: it sorts the tasks by period
  (a permutation), task \<open>i\<close> of the sorted set becomes TCB and priority \<open>i\<close> with the start context that
  \<open>launch_task\<close> reads, the devices are initialised to the current time, the kernel invariant holds
  and the task with the shortest period runs first.\<close>

theorem task_create_starts:
  fixes num_tasks :: u32
  assumes "quiet k" "0 < unat num_tasks" "unat num_tasks < 64" "unat num_tasks \<le> length tasks"
    and "\<not> bad_user_addr tasks_addr" "\<forall>i<unat num_tasks. task_ok (tasks ! i)"
    and "last_ratio tasks (unat num_tasks) \<le> 1"
  shows "\<exists>tasks' k'. task_create_syscall launch idle tasks_addr tasks num_tasks k = Some (Switched, tasks', k') \<and>
    mset tasks' = mset tasks \<and>
    (\<forall>i j. i \<le> j \<longrightarrow> j < unat num_tasks \<longrightarrow> task_T (tasks' ! i) \<le> task_T (tasks' ! j)) \<and>
    (\<forall>i<unat num_tasks. native_prio (system_tcb k' ! i) = of_nat i \<and>
       tcb_context (system_tcb k' ! i) = task_context launch i (tasks' ! i)) \<and>
    kernel_wf k' \<and> on_schedule (system_time k) 0 k' \<and> cur_tcb k' = Some 0 \<and>
    runnable (abs_state k') = insert IDLE_PRIO {..<unat num_tasks} \<and>
    regs k' = task_context launch 0 (tasks' ! 0)"
proof -
  let ?n = "unat num_tasks"
  have "?n \<le> 64" using assms(3) by simp
  from task_create_wf [OF assms(1) this assms(4-7), of launch idle]
  obtain tasks' k' where r: "task_create_syscall launch idle tasks_addr tasks num_tasks k = Some (Switched, tasks', k')"
      "periods_sorted ?n tasks'" "mset tasks' = mset tasks" "kernel_wf k'" "on_schedule (system_time k) 0 k'"
      "abs_state k' = \<lparr>current = (if ?n = 0 then IDLE_PRIO else 0), runnable = insert IDLE_PRIO {..<?n},
        waiting = (\<lambda>_. []), created = created (abs_state k), owner = owner (abs_state k)\<rparr>"
      "system_tcb k' = new_tcbs launch idle tasks' ?n (system_tcb k)"
      "regs k' = tcb_context (system_tcb k' ! current (abs_state k'))" by blast
  have tcb: "native_prio (system_tcb k' ! i) = of_nat i \<and>
      tcb_context (system_tcb k' ! i) = task_context launch i (tasks' ! i)" if "i < ?n" for i
    using that assms(3) r(7) by (simp add: nth_new_tcbs task_tcb_def)
  have cur: "current (abs_state k') = 0" "runnable (abs_state k') = insert IDLE_PRIO {..<?n}"
    using assms(2) r(6) by simp_all
  obtain c where "cur_tcb k' = Some c" using r(4) by (auto simp: kernel_wf_def)
  then have "cur_tcb k' = Some 0" using current_abs cur(1) by auto
  moreover have "regs k' = task_context launch 0 (tasks' ! 0)" using r(8) cur(1) tcb [of 0] assms(2) by simp
  ultimately show ?thesis using r(1-5) cur(2) tcb by (auto simp: periods_sorted_def)
qed

theorem task_create_starts_witness:
  "\<exists>tasks' k'. task_create_syscall 0xa3000100 0xa3000200 0xa0001000 [slow_task, fast_task] 2 free_kernel =
      Some (Switched, tasks', k') \<and> task_T (tasks' ! 0) \<le> task_T (tasks' ! 1) \<and> cur_tcb k' = Some 0"
proof -
  have "last_ratio [slow_task, fast_task] (unat (2 :: u32)) \<le> 1"
    by (simp add: last_ratio_def fast_task_def)
  moreover have "\<forall>i<unat (2 :: u32). task_ok ([slow_task, fast_task] ! i)"
    using demo_tasks_ok by (auto simp: less_2_cases_iff)
  moreover have "\<not> bad_user_addr 0xa0001000" by (simp add: bad_user_addr_def)
  ultimately obtain tasks' k' where "task_create_syscall 0xa3000100 0xa3000200 0xa0001000 [slow_task, fast_task] 2
        free_kernel = Some (Switched, tasks', k')"
      "\<forall>i j. i \<le> j \<longrightarrow> j < 2 \<longrightarrow> task_T (tasks' ! i) \<le> task_T (tasks' ! j)" "cur_tcb k' = Some 0"
    using task_create_starts [OF quiet_free, of 2 "[slow_task, fast_task]" "0xa0001000" "0xa3000100" "0xa3000200"]
    by auto
  then show ?thesis by auto
qed

text \<open>C28. Every other call of \<open>task_create\<close> changes nothing: too many tasks give \<open>EINVAL\<close>, a task array,
  stack or entry point outside of user memory gives \<open>EFAULT\<close> (the first bad task decides), and a
  quotient above 1 gives \<open>ESCHED\<close>; a period of 0 ends in the division trap.\<close>

theorem task_create_refuses:
  assumes "unat num_tasks \<le> 64 \<Longrightarrow> unat num_tasks \<le> length tasks"
    and "create_verdict tasks_addr tasks (unat num_tasks) = Some out"
  shows "task_create_syscall launch idle tasks_addr tasks num_tasks k = Some (out, tasks, k)"
  by (rule task_create_refused) (use assms in auto)

theorem task_create_refuses_witness:
  "task_create_syscall 0 0 0xa0001000 [slow_task, slow_task\<lparr>stack_pos := 0xb0000000\<rparr>] 2 demo_kernel =
     Some (Return EFAULT, [slow_task, slow_task\<lparr>stack_pos := 0xb0000000\<rparr>], demo_kernel)"
  by (rule task_create_refuses)
    (simp_all add: create_verdict_def bad_user_addr_def task_ok_def slow_task_def)

section \<open>System calls\<close>




text \<open>C30. Line editing. A read into user memory stores what the line editor makes of the input (delete
  removes the last character, EOT ends the line and is not part of it, a newline or carriage return
  ends it and is), returns the length of the line, consumes exactly the input of the line, and writes
  nowhere but into the buffer.\<close>

theorem read_edits_line:
  assumes "LEGEL_MEM_START_ADDR \<le> buf" "unat buf + unat n \<le> unat KERNEL_START_ADDR"
    and "edit_line (unat n) [] (input s) = Some (line, rest)"
  shows "\<exists>s'. read_syscall STDIN_FILENO buf n s = Some (of_nat (length line), s') \<and> length line \<le> unat n \<and>
    bytes (mem s') buf (length line) = line \<and> input s' = rest \<and>
    (\<forall>a. (\<forall>i<unat n. a \<noteq> buf + of_nat i) \<longrightarrow> mem s' a = mem s a) \<and>
    calls s' = calls s @ echo_line (unat n) [] (input s)"
  using read_syscall_line [OF assms] unfolding read_frame_def by metis

text \<open>The user types \<open>a\<close>, \<open>b\<close>, delete, \<open>c\<close>, return.\<close>

definition typing :: io where
  "typing = \<lparr>mem = (\<lambda>_. 0), input = [97, 98, 0x7f, 99, 13, 100], calls = []\<rparr>"

theorem read_edits_line_witness:
  "\<exists>s'. read_syscall STDIN_FILENO 0xa0002000 10 typing = Some (3, s') \<and>
    bytes (mem s') 0xa0002000 3 = [97, 99, 13] \<and> input s' = [100]"
proof -
  have "edit_line (unat (10 :: u32)) [] (input typing) = Some ([97, 99, 13], [100])"
    by (simp add: typing_def)
  from read_edits_line [OF _ _ this, of "0xa0002000"] show ?thesis by (auto simp: numeral_3_eq_3)
qed





text \<open>C33. \<open>sleep\<close> without overflow: the loop ends at the first look at the clock that is at least
  \<open>msec div 10\<close> ticks after the start (so up to 9 of the requested milliseconds are cut off).\<close>

theorem sleep_ends_at_target:
  assumes "msec \<noteq> 0" "unat msec + 10 * unat (clock 0) < 2 ^ 32"
    and "1 \<le> m" "unat (clock 0) + unat msec div 10 \<le> unat (clock m)"
    and "\<forall>i. 1 \<le> i \<longrightarrow> i < m \<longrightarrow> unat (clock i) < unat (clock 0) + unat msec div 10"
  shows "sleep_syscall clock msec = Some m"
  by (rule sleep_syscall_first) (rule assms)+

theorem sleep_ends_at_target_witness:
  "sleep_syscall (\<lambda>i. of_nat i) 39 = Some 3"
  by (rule sleep_ends_at_target) (auto simp: unat_of_nat take_bit_nat_eq_self)

section \<open>Boot\<close>

text \<open>C34. Boot. When both exception vectors are loads of the program counter with a positive offset and
  U-Boot's handlers overlap neither each other nor the vectors, then after \<open>kmain\<close> a system call ends
  in \<open>S_Handler\<close> and an interrupt in \<open>IRQ_Handler\<close>, and all 32 mutexes are available.\<close>

theorem boot_installs_handlers:
  fixes m :: "u32 \<Rightarrow> u32"
  defines "u \<equiv> m (jump_slot m 8)" and "w \<equiv> m (jump_slot m 0x18)"
  assumes "words b = m" "m 8 AND 0xfffff000 = 0xe59ff000" "m 0x18 AND 0xfffff000 = 0xe59ff000"
    and "slots_apart m 8" "slots_apart m 0x18" "{8, jump_slot m 8, u, u + 4} \<inter> {w, w + 4} = {}"
    and "{0x18, jump_slot m 0x18} \<inter> {u, u + 4} = {}"
  shows "\<exists>b'. kmain S_Handler IRQ_Handler b = Some (True, b') \<and>
    ldr_pc (words b') 8 = Some u \<and> ldr_pc (words b') u = Some S_Handler \<and>
    ldr_pc (words b') 0x18 = Some w \<and> ldr_pc (words b') w = Some IRQ_Handler \<and>
    (\<forall>i<32. bAvailable (gtMutex (boot_kernel b') ! i))"
  using kmain_ok [of b S_Handler IRQ_Handler] assms by auto

definition vectors :: "u32 \<Rightarrow> u32" where
  "vectors = (\<lambda>_. 0)(8 := 0xe59ff014, 0x18 := 0xe59ff014, 0x24 := 0xa1000000, 0x34 := 0xa1000100)"

definition demo_boot :: boot where
  "demo_boot = \<lparr>words = vectors, iaddr_1 = 0, iaddr_2 = 0, instruction1 = 0, instruction2 = 0,
     irq_iaddr_1 = 0, irq_iaddr_2 = 0, irq_instruction1 = 0, irq_instruction2 = 0,
     boot_kernel = bss_kernel, boot_calls = []\<rparr>"

theorem boot_installs_handlers_witness:
  "\<exists>b'. kmain 0xa3000100 0xa3000200 demo_boot = Some (True, b') \<and> ldr_pc (words b') 8 = Some 0xa1000000 \<and>
    ldr_pc (words b') 0xa1000000 = Some 0xa3000100"
proof -
  have s: "vectors 8 = 0xe59ff014" "vectors 0x18 = 0xe59ff014" "jump_slot vectors 8 = 0x24" "jump_slot vectors 0x18 = 0x34"
      "vectors 0x24 = 0xa1000000" "vectors 0x34 = 0xa1000100"
    by (simp_all add: vectors_def jump_slot_def)
  show ?thesis
    using boot_installs_handlers [of demo_boot vectors "0xa3000100" "0xa3000200"]
    by (simp add: s slots_apart_def demo_boot_def) blast
qed

section \<open>The C library\<close>

text \<open>The strings \<open>ab\<close> at 16, \<open>abc\<close> at 32, \<open> -42;\<close> at 64 and \<open>+7\<close> at 80.\<close>

definition demo_mem :: memory where
  "demo_mem = (\<lambda>_. 0)(16 := 97, 17 := 98, 32 := 97, 33 := 98, 34 := 99,
     64 := 32, 65 := 45, 66 := 52, 67 := 50, 68 := 59, 80 := 43, 81 := 55)"

lemma demo_strings:
  "cstr demo_mem 16 [97, 98]" "cstr demo_mem 32 [97, 98, 99]" "cstr demo_mem 33 [98, 99]"
  "cstr demo_mem 64 [32, 45, 52, 50, 59]" "cstr demo_mem 80 [43, 55]"
  by (simp_all add: demo_mem_def)

lemma demo_disjoint:
  "disjoint (16 + of_nat (length [97, 98 :: u8])) (Suc (length [97, 98, 99 :: u8])) 32 (Suc (length [97, 98, 99 :: u8]))"
  "disjoint 48 2 32 2" "disjoint 48 (Suc (length [97, 98, 99 :: u8])) 32 (Suc (length [97, 98, 99 :: u8]))"
  by (rule disjointI; simp)+

text \<open>C35. \<open>memmove\<close> copies a region to another one, also when they overlap, and changes nothing
  outside of the target.\<close>

theorem memmove_copies:
  assumes "unat dest + unat n \<le> 2 ^ 32" "unat src + unat n \<le> 2 ^ 32"
  shows "\<exists>m'. memmove dest src n m = Some m' \<and>
    bytes m' dest (unat n) = bytes m src (unat n) \<and> (\<forall>a. outside a dest (unat n) \<longrightarrow> m' a = m a)"
  by (rule memmove_eq) (rule assms)+

theorem memmove_copies_witness:
  "\<exists>m'. memmove 33 32 4 demo_mem = Some m' \<and> bytes m' 33 4 = bytes demo_mem 32 4 \<and> m' 32 = 97"
proof -
  obtain m' where "memmove 33 32 4 demo_mem = Some m'" "bytes m' 33 4 = bytes demo_mem 32 4"
      "\<forall>a. outside a 33 4 \<longrightarrow> m' a = demo_mem a"
    using memmove_copies [of 33 4 32 demo_mem] by auto
  moreover have "outside 32 33 4" by (rule outside_below) simp_all
  ultimately show ?thesis by (simp add: demo_mem_def)
qed

text \<open>C36. \<open>strstr\<close> on strings below 2 GB: the result is the address of the first occurrence, or the null
  pointer when there is none.\<close>

theorem strstr_first:
  assumes "cstr m p h" "cstr m q n" "length h < 2 ^ 31" "length n < 2 ^ 31"
  shows "(\<exists>i \<le> length h. strstr m p q = Some (p + of_nat i) \<and> take (length n) (drop i h) = n \<and>
      (\<forall>j<i. take (length n) (drop j h) \<noteq> n)) \<or>
    strstr m p q = Some 0 \<and> (\<forall>i \<le> length h. take (length n) (drop i h) \<noteq> n)"
proof (cases "occurrence n h")
  case None
  then show ?thesis using strstr_cstr [OF assms] occurrence_None by auto
next
  case (Some i)
  then show ?thesis using strstr_cstr [OF assms] occurrence_first [OF Some] occurrence_le [OF Some] by auto
qed

theorem strstr_first_witness:
  "strstr demo_mem 32 33 = Some 33 \<and> strstr demo_mem 16 33 = Some 0"
proof -
  have l: "i \<le> Suc (Suc (Suc 0)) \<Longrightarrow> i = 0 \<or> i = 1 \<or> i = 2 \<or> i = 3"
      "i \<le> Suc (Suc 0) \<Longrightarrow> i = 0 \<or> i = 1 \<or> i = 2" for i by linarith+
  have "strstr demo_mem 32 33 = Some 33"
    using strstr_first [OF demo_strings(2,3)] by (simp del: cstr.simps) (auto dest!: l(1) dest: spec [of _ 1])
  moreover have "strstr demo_mem 16 33 = Some 0"
    using strstr_first [OF demo_strings(1,3)] by (simp del: cstr.simps) (auto dest!: l(2))
  ultimately show ?thesis ..
qed

section \<open>Formatted output and input\<close>

text \<open>The format \<open>%d\<close> at 96.\<close>

definition format_mem :: memory where
  "format_mem = demo_mem(96 := 37, 97 := 100)"

lemma format_strings: "cstr format_mem 96 [37, 100]" "cstr format_mem 16 [97, 98]" "cstr format_mem 32 [97, 98, 99]"
  by (simp_all add: format_mem_def demo_mem_def)

lemma decimal_42: "decimal (- 42) = [45, 52, 50]"
  by (simp add: decimal_def digits_of.simps [of 10] digs_def)

text \<open>C37. Printing and parsing. For every 32-bit integer, \<open>sprintf\<close> with \<open>%d\<close> leaves its decimal in the
  buffer and returns the length; \<open>strtol\<close> reads the same integer back, up to the terminator; at most
  12 bytes of the buffer change.\<close>

theorem sprintf_strtol_roundtrip:
  assumes "cstr m fmt [37, 100]" "\<forall>i<3. outside (fmt + of_nat i) s 12"
  shows "\<exists>n m'. sprintf s fmt [Word w] m = Some (n, m') \<and> unat n \<le> 11 \<and> cstr m' s (decimal (sint w)) \<and>
    strtol m' s 10 = Some (w, s + n) \<and> (\<forall>a. outside a s 12 \<longrightarrow> m' a = m a)"
proof -
  obtain m' where m': "vsprintf s fmt [Word w] m = Some (of_nat (length (decimal (sint w))), m')"
      "cstr m' s (decimal (sint w))" "\<forall>a. outside a s 12 \<longrightarrow> m' a = m a"
    using vsprintf_d [OF assms, of w] by blast
  have "strtol m' s 10 = Some (w, s + of_nat (length (decimal (sint w))))"
    using strtol_decimal [OF m'(2)] by simp
  then show ?thesis using m' cstr_length_u32 [OF m'(2)] length_decimal [of w] by (auto simp: sprintf_def)
qed

theorem sprintf_strtol_roundtrip_witness:
  "\<exists>m'. sprintf 200 96 [Word (- 42)] format_mem = Some (3, m') \<and> strtol m' 200 10 = Some (- 42, 203)"
proof -
  have o: "outside (96 + of_nat i) (200 :: u32) 12" if "i < 3" for i
    using that by (intro outside_below) (auto simp: numeral_3_eq_3 less_Suc_eq)
  have "sint (- 42 :: u32) = - 42" by simp
  with sprintf_strtol_roundtrip [OF format_strings(1), of 200 "- 42"] o obtain n m' where
    r: "sprintf 200 96 [Word (- 42)] format_mem = Some (n, m')" "cstr m' 200 [45, 52, 50]" "strtol m' 200 10 = Some (- 42, 200 + n)"
    by (auto simp: decimal_42)
  from strtol_decimal [of m' 200 "- 42"] r have "200 + n = (203 :: u32)" by (simp add: decimal_42)
  then have "n = 3" using add_left_cancel [of 200 n 3] by simp
  with r show ?thesis by auto
qed

text \<open>C38. Printing and scanning. What \<open>sprintf\<close> prints with \<open>%d\<close>, \<open>sscanf\<close> scans with the same format: it
  reports one conversion and stores the same integer.\<close>

theorem sscanf_inverts_sprintf:
  assumes "cstr m fmt [37, 100]" "\<forall>i<3. outside (fmt + of_nat i) s 12" "outside (fmt + 2) q 4"
  shows "\<exists>n m' m''. sprintf s fmt [Word w] m = Some (n, m') \<and> sscanf s fmt [Word q] m' = Some (1, m'') \<and>
    load32 m'' q = w"
proof -
  obtain m' where m': "vsprintf s fmt [Word w] m = Some (of_nat (length (decimal (sint w))), m')"
      "cstr m' s (decimal (sint w))" "\<forall>a. outside a s 12 \<longrightarrow> m' a = m a"
    using vsprintf_d [OF assms(1,2), of w] by blast
  have "cstr m' fmt [37, 100]"
    using assms(1,2) m'(3) by (auto simp: numeral_3_eq_3 All_less_Suc2 add.assoc)
  from vsscanf_d [OF this m'(2) assms(3)]
  have "sscanf s fmt [Word q] m' = Some (1, store32 m' q w)" by (simp add: sscanf_def)
  with m'(1) show ?thesis by (auto simp: sprintf_def load32_store32)
qed

theorem sscanf_inverts_sprintf_witness:
  "\<exists>n m' m''. sprintf 200 96 [Word 7] format_mem = Some (n, m') \<and> sscanf 200 96 [Word 300] m' = Some (1, m'') \<and>
    load32 m'' 300 = 7"
proof -
  have "outside (96 + of_nat i) (200 :: u32) 12" if "i < 3" for i
    using that by (intro outside_below) (auto simp: numeral_3_eq_3 less_Suc_eq)
  moreover have "outside (96 + 2) (300 :: u32) 4" by (rule outside_below) simp_all
  ultimately show ?thesis using sscanf_inverts_sprintf [OF format_strings(1)] by blast
qed

text \<open>C39. \<open>printf\<close> prints what the reference \<open>render\<close> makes of a format with \<open>%d\<close>, \<open>%lu\<close>, \<open>%c\<close>, \<open>%02x\<close> and
  \<open>%08lx\<close> and its arguments, when the printed lines have at most 127 characters: the bytes of its \<open>write\<close>
  calls, put together, are that text.\<close>

theorem printf_prints_reference:
  assumes "cstr m fmt t" "render t args = Some out" "short_lines 0 out" "0 \<notin> set out" "length frame = PRINTF_BUFMAX"
  shows "\<exists>log'. printf frame fmt args m log = Some (0, log') \<and> concat (map snd log') = concat (map snd log) @ out"
  by (rule printf_render) (rule assms)+

theorem printf_prints_reference_witness:
  "\<exists>log. printf (replicate 128 0) 96 [Word (- 42)] format_mem [] = Some (0, log) \<and> concat (map snd log) = [45, 52, 50]"
proof -
  have "render (37 # [100]) [Word (- 42)] = Some [45, 52, 50]"
    by (subst render_conv [of _ 1 spec_init "\<lambda>w. decimal (sint w)"]) (simp_all add: conv_def decimal_42)
  from printf_prints_reference [OF format_strings(1) this, of "replicate 128 0" "[]"] show ?thesis
    by (simp add: PRINTF_BUFMAX_def)
qed

text \<open>C40. A hex dump is a table. For every buffer of at most \<open>2\<^sup>3\<^sup>2 - 16\<close> bytes \<open>hexdump\<close> terminates, and its calls of
  \<open>printf\<close> print a line per 16 bytes (begun) and the two rules around them, each of exactly 77 characters
  and a newline, whatever the bytes are.\<close>

theorem hexdump_is_table:
  assumes "unat len \<le> 2 ^ 32 - 16"
  shows "\<exists>cs ls. hexdump m buf len = Some cs \<and> calls_text cs = Some (concat ls) \<and>
    length ls = (unat len + 15) div 16 + 2 \<and> (\<forall>l \<in> set ls. table_line l)"
  by (rule hexdump_lines) (rule assms)

theorem hexdump_is_table_witness:
  "\<exists>cs ls. hexdump (\<lambda>a. ucast a) 0 40 = Some cs \<and> calls_text cs = Some (concat ls) \<and> length ls = 5"
proof -
  have "unat (40 :: u32) \<le> 2 ^ 32 - 16" by simp
  from hexdump_is_table [OF this, of "\<lambda>a. ucast a" 0] show ?thesis by auto
qed

section \<open>Observations\<close>

text \<open>Behaviour of the code at inputs that its callers have to avoid.\<close>

text \<open>Only the first four devices have a period. A task that waits on any other device (device
  numbers up to 62 are accepted) is not woken by any of the next \<open>2\<^sup>3\<^sup>2 - 1\<close> timer interrupts.\<close>

theorem silent_devices_never_wake:
  assumes "kernel_wf k" "on_schedule t0 0 k" "cur_tcb k = Some c" "c \<noteq> IDLE_PRIO"
    and "4 \<le> d" "d < 63" "n < 2 ^ 32"
  shows "\<exists>k1 b' k'. event_wait_syscall (of_nat d) k = Some (Switched, k1) \<and>
    ticks rd n (b, k1) = Some (b', k') \<and> c \<in> set (waiting (abs_state k') (Dev_head d))"
proof -
  have d: "unat (of_nat d :: u32) = d" using assms(6) by (intro unat_lt_of_nat_iff) simp
  obtain out k1 where k1: "event_wait_syscall (of_nat d) k = Some (out, k1)" "kernel_wf k1"
      "spec_event_wait d (abs_state k) = (out, abs_state k1)"
      "system_time k1 = system_time k" "\<forall>i. next_match (devices k1 ! i) = next_match (devices k ! i)"
    using event_wait_wf [OF assms(1), of "of_nat d"] assms(3,4) d by auto
  have out: "out = Switched" "abs_state k1 = spec_dispatch (spec_sleep (Dev_head d) (abs_state k))"
    using k1(3) assms(6) by (simp_all add: spec_event_wait_def)
  have "on_schedule t0 0 k1" using assms(2) k1(4,5) by (simp add: on_schedule_def)
  from ticks_keep_waiting [OF k1(2) this assms(5,7), of rd b]
  obtain b' k' where k': "ticks rd n (b, k1) = Some (b', k')"
      "waiting (abs_state k') (Dev_head d) = waiting (abs_state k1) (Dev_head d)" by blast
  have "c \<in> set (waiting (abs_state k1) (Dev_head d))"
    unfolding out(2) by (simp add: spec_dispatch_def spec_sleep_def current_abs [OF assms(3)])
  then show ?thesis using k1(1) k' out(1) by auto
qed

text \<open>An empty write looks at the byte before the buffer: if that is a carriage return, the call
  sends the whole address space but one byte to the console, 4294967295 characters and a newline.\<close>

theorem empty_write_runs_away:
  assumes "LEGEL_MEM_START_ADDR \<le> buf" "buf \<le> KERNEL_START_ADDR" "mem s (buf - 1) = CARRIAGE_RETURN"
  shows "\<exists>s'. write_syscall STDOUT_FILENO buf 0 s = Some (0, s') \<and>
    length (calls s') = length (calls s) + 2 ^ 32"
proof -
  have r: "\<not> buf < LEGEL_MEM_START_ADDR" "\<not> buf + 0 > LEGEL_MEM_END_ADDR" "\<not> buf + 0 > KERNEL_START_ADDR"
      "\<not> buf + 0 > ABORT_STACK_END_ADDR"
    using assms(1,2) by (auto simp: not_less intro: order.trans)
  have "unat (0 - 1 :: u32) = 2 ^ 32 - 1" by (simp add: unsigned_minus_1_eq_mask mask_eq_exp_minus_1)
  then show ?thesis
    unfolding write_syscall_def using r assms(3)
    by (simp add: put_bytes_eq call_def del: LEGEL_MEM_START_ADDR_def LEGEL_MEM_END_ADDR_def
      KERNEL_START_ADDR_def ABORT_STACK_END_ADDR_def)
qed

text \<open>\<open>strncpy\<close> of a string that does not fit: the counter is decremented once more on leaving the
  first loop, so the second one clears \<open>2\<^sup>3\<^sup>2 - 1\<close> bytes, all of memory but the last byte of the buffer.\<close>

theorem strncpy_clears_memory:
  assumes "unat cnt \<le> length s" "cstr m from s" "disjoint to (unat cnt) from (unat cnt)"
    and "a \<noteq> to + cnt - 1"
  shows "strncpy to from cnt m a = 0"
  by (rule strncpy_erases) (rule assms)+

text \<open>A plus sign is recognised by \<open>strtol\<close> but not skipped: the result is 0 and the number behind
  the sign is not read.\<close>

theorem strtol_stops_at_plus:
  assumes "cstr m p (43 # s)" "base \<noteq> 0" "base \<noteq> 16"
  shows "strtol m p base = Some (0, p)"
  by (rule strtol_plus) (rule assms)+

text \<open>\<open>snprintf\<close> of a literal whose text does not fit into \<open>limit\<close> bytes stores \<open>limit\<close> characters and
  puts the terminator behind the buffer, at \<open>s + limit\<close>; it returns \<open>limit\<close>, not the length of the text.\<close>

theorem snprintf_overruns:
  assumes "cstr m fmt t" "37 \<notin> set t" "\<forall>i\<le>length t. outside (fmt + of_nat i) s (length t)"
    and "unat limit < length t"
  shows "\<exists>m'. snprintf s limit fmt [] m = Some (limit, m') \<and> m' (s + limit) = 0 \<and>
    (\<forall>i<unat limit. m' (s + of_nat i) = t ! i \<and> m' (s + of_nat i) \<noteq> 0)"
proof -
  have len: "length t < 2 ^ 32" using cstr_length [OF assms(1)] .
  have "unat (- 1 :: u32) = 2 ^ 32 - 1" by (simp add: unsigned_minus_1_eq_mask mask_eq_exp_minus_1)
  then have "limit \<noteq> - 1" using len assms(4) by auto
  from vsnprintf_literal [OF assms(1-3) this] assms(4)
  have r: "snprintf s limit fmt [] m = Some (limit, (store_bytes s (take (unat limit) t) m)(s + limit := 0))"
    by (simp add: snprintf_def)
  have "((store_bytes s (take (unat limit) t) m)(s + limit := 0)) (s + of_nat i) = t ! i \<and> t ! i \<noteq> 0"
    if i: "i < unat limit" for i
  proof -
    have "(of_nat i :: u32) \<noteq> of_nat (unat limit)" using i len assms(4) by (subst of_nat_u32_eq) simp_all
    then have "s + of_nat i \<noteq> s + limit" by simp
    moreover have "t ! i \<noteq> 0" using cstr_nth [OF assms(1), of i] i assms(4) by simp
    ultimately show ?thesis
      using store_bytes_nth [of i "take (unat limit) t" s m] i assms(4) len by simp
  qed
  with r show ?thesis by auto
qed

text \<open>Unlocking does not preempt. When the first waiter of a mutex has a higher priority than the
  task that unlocks it, the waiter becomes ready and the holder, but the unlocking task runs on.\<close>

theorem unlock_does_not_preempt:
  assumes "kernel_wf k" "current (abs_state k) = c" "owner (abs_state k) m = Some c"
    and "waiting (abs_state k) (Mutex_head m) = t # ts" "t < c"
  shows "\<exists>k'. mutex_unlock_syscall (int m) k = Some (Return 0, k') \<and> kernel_wf k' \<and>
    current (abs_state k') = c \<and> t \<in> runnable (abs_state k') \<and> owner (abs_state k') m = Some t \<and>
    Min (runnable (abs_state k')) < current (abs_state k')"
proof -
  obtain out k' where k': "mutex_unlock_syscall (int m) k = Some (out, k')" "kernel_wf k'"
      "spec_unlock m (abs_state k) = (out, abs_state k')"
    using mutex_unlock_wf [OF assms(1)] by blast
  have "created (abs_state k) m" using spec_okD(4) [OF wf_spec_ok [OF assms(1)] assms(3)] .
  then have a: "out = Return 0" "abs_state k' = (abs_state k)\<lparr>runnable := insert t (runnable (abs_state k)),
      waiting := (waiting (abs_state k))(Mutex_head m := ts), owner := (owner (abs_state k))(m \<mapsto> t)\<rparr>"
    using k'(3) assms(2-4) by (simp_all add: spec_unlock_def spec_wake_def)
  have "finite (runnable (abs_state k'))" by (simp add: abs_state_def rq.finite_dom)
  moreover have "t \<in> runnable (abs_state k')" unfolding a(2) by simp
  ultimately have "Min (runnable (abs_state k')) \<le> t" by (rule Min_le)
  moreover have "current (abs_state k') = c" "owner (abs_state k') m = Some t"
    unfolding a(2) using assms(2) by simp_all
  ultimately show ?thesis using k'(1,2) a(1) assms(5) \<open>t \<in> runnable (abs_state k')\<close> by auto
qed

text \<open>The schedulability test looks at the last task only. A set of any number of tasks each of
  which needs the whole processor (utilisation \<open>n\<close>, where 1 is full) passes it and is started.\<close>

theorem overloaded_set_starts:
  fixes num_tasks :: u32
  assumes "quiet k" "unat num_tasks \<le> 64" "unat num_tasks \<le> length tasks" "\<not> bad_user_addr tasks_addr"
    and "\<forall>i<unat num_tasks. task_ok (tasks ! i) \<and> task_C (tasks ! i) = task_T (tasks ! i)"
  shows "\<exists>tasks' k'. task_create_syscall launch idle tasks_addr tasks num_tasks k = Some (Switched, tasks', k')"
proof -
  have "last_ratio tasks (unat num_tasks) \<le> 1"
  proof -
    have "n div n \<le> Suc 0" for n :: nat by (cases "n = 0") simp_all
    then show ?thesis using assms(5) by (simp add: last_ratio_def word_le_nat_alt unat_div)
  qed
  then show ?thesis
    using task_create_wf [OF assms(1-4)] assms(5) by blast
qed

text \<open>The final check of \<open>mutex_chaser\<close> starts with the variable of mutex 0, which the tasks leave out:
  it never has the expected value, and the answer that the fourth function prints for it is always No
  (before the test reports success).\<close>

theorem chaser_rejects_mutex0:
  assumes "booted k" "functions_ok [f1, f2, f3, f4]" "\<not> bad_user_addr tasks"
    and "chaser_main f1 f2 f3 f4 launch_task idle tasks k = Some (Running s0)" "areach chaser s0 s"
  shows "mutex_val (globals s) ! 0 \<noteq> result_val (globals s) \<and>
    (\<forall>t<4. cpc (locals s t) = C_verdict 0 \<longrightarrow> chaser_request (locals s t) = Send (puts_text NO_STR))"
proof -
  have inv: "chaser_inv (spec_of s)" using chaser_runs [OF assms(1-5)] .
  have ne: "chaser_result \<noteq> init_val" "init_val \<noteq> chaser_result"
    by (simp_all add: chaser_result_def init_val_def fun1_opval_def fun2_opval_def fun3_opval_def fun4_opval_def)
  have "tmp (locals s t) = init_val \<and> res (locals s t) = chaser_result" if "t < 4" "cpc (locals s t) = C_verdict 0" for t
    using chaser_invD(4) [OF inv that(1)] that(2) by (simp add: chaser_task_ok_def)
  then show ?thesis
    using chaser_mutex0 [OF inv] chaser_invD(3) [OF inv] ne by (simp add: chaser_request_def)
qed

text \<open>The two versions of \<open>ilog2\<close> (the loop of the debug build and the mask table of the release
  build) agree on all \<open>2\<^sup>3\<^sup>2\<close> arguments, and both are the number of the highest set bit.\<close>

theorem ilog2_versions_agree:
  "ilog2 x = ilog2_ndebug x \<and> is_log2 (unat x) (unat (ilog2 x))"
  using ilog2_log2 by simp

end
